(* ===== verification/Prelude.thy ===== *)
theory Prelude
  imports
    Main
    "HOL-Library.Word"
    "HOL-Library.List_Lexorder"
    "HOL-Library.Product_Lexorder"
    "HOL-Library.Char_ord"
begin

section \<open>Shared vocabulary of the development\<close>

text \<open>
  The vocabulary every component theory uses: names for the machine types of the Rust
  code, the error values of its fallible operations (\<open>anyhow::Result\<close>), and generic
  facts on results, lists, association lists and little-endian bytes.

  The simplification collections are
  \<^item> \<open>result_simps\<close>: how a fallible computation returns a value or an error;
  \<^item> \<open>bytes_simps\<close>: lengths and round trips of little-endian encodings;
  \<^item> \<open>layout_simps\<close>: reading at an offset of a concatenation of known parts.
\<close>

named_theorems result_simps \<open>when a fallible computation returns or fails\<close>
named_theorems bytes_simps \<open>lengths and round trips of little-endian encodings\<close>
named_theorems layout_simps \<open>reading a byte layout at an offset\<close>

type_synonym byte = "8 word"
type_synonym bytes = "byte list"
type_synonym u32 = "32 word"
type_synonym u64 = "64 word"

text \<open>\<open>usize\<close> on the 64-bit targets the engine is built for; \<open>+\<close> wraps, as in a release build.\<close>

type_synonym usize = "64 word"

text \<open>A \<open>PathBuf\<close>: its components, so that \<open>join\<close> of a file name appends one.\<close>

type_synonym path = "string list"


subsection \<open>Fallible operations\<close>

text \<open>
  The errors of the storage engine, one constructor per \<open>ensure!\<close>, \<open>anyhow!\<close> or
  forwarded failure of the source, with the data the message reports.
\<close>

datatype error =
    InvalidUtf8
  | EmptySeriesKey
  | MalformedTagPair string
  | TryFromSliceError
  | EmptyChunk
  | NoChunkStats
  | ChunkTruncated nat nat nat
  | ChecksumTooSmall nat
  | CrcMismatch u32 u32
  | InvalidMagic u32
  | HeaderTooSmall
  | MissingVersionByte
  | FooterTooSmall nat
  | FooterOutOfBounds
  | BloomHeaderOutOfBounds nat
  | BloomBitmapOutOfBounds
  | ColumnLengthMismatch
  | DecompressError
  | ProtoDecodeError
  | SerializeError
  | IoError
  | FileNotFound path
  | FileAlreadyExists path
  | ConcurrentRotate
  | WalWriteFailed
  | BadShardCount nat
  | Panicked

type_synonym 'a result = "error + 'a"

text \<open>\<open>rbind m f\<close> is \<open>let x = m?; f(x)\<close>: the first error is the result.\<close>

fun rbind :: "'a result \<Rightarrow> ('a \<Rightarrow> 'b result) \<Rightarrow> 'b result" where
  "rbind (Inl e) f = Inl e"
| "rbind (Inr x) f = f x"

text \<open>\<open>ensure!(b, e)\<close>, followed by the rest of the function.\<close>

definition ensure :: "bool \<Rightarrow> error \<Rightarrow> unit result" where
  "ensure b e = (if b then Inr () else Inl e)"

text \<open>\<open>iter.map(f).collect::<Result<Vec<_>>>()\<close>: stops at the first error.\<close>

fun collect_result :: "('a \<Rightarrow> 'b result) \<Rightarrow> 'a list \<Rightarrow> 'b list result" where
  "collect_result f [] = Inr []"
| "collect_result f (x # xs) =
     rbind (f x) (\<lambda>y. rbind (collect_result f xs) (\<lambda>ys. Inr (y # ys)))"

lemma rbind_eq_Inr [result_simps]:
  "rbind m f = Inr y \<longleftrightarrow> (\<exists>x. m = Inr x \<and> f x = Inr y)"
  by (cases m) auto

lemma rbind_eq_Inl [result_simps]:
  "rbind m f = Inl e \<longleftrightarrow> m = Inl e \<or> (\<exists>x. m = Inr x \<and> f x = Inl e)"
  by (cases m) auto

lemma ensure_eq_Inr [result_simps]: "ensure b e = Inr u \<longleftrightarrow> b"
  by (simp add: ensure_def)

lemma ensure_True [simp]: "ensure True e = Inr ()"
  by (simp add: ensure_def)

lemma ensure_False [simp]: "ensure False e = Inl e"
  by (simp add: ensure_def)

lemma rbind_cong [fundef_cong]:
  "m = m' \<Longrightarrow> (\<And>x. m' = Inr x \<Longrightarrow> f x = g x) \<Longrightarrow> rbind m f = rbind m' g"
  by (cases m') auto

lemma collect_result_map:
  "(\<And>x. x \<in> set xs \<Longrightarrow> f x = Inr (g x)) \<Longrightarrow> collect_result f xs = Inr (map g xs)"
  by (induction xs) auto


subsection \<open>State machines\<close>

text \<open>
  A component with state: it starts in an initial state and every operation is a step. What
  holds initially and is kept by every step holds in every reachable state.
\<close>

locale state_machine =
  fixes init :: "'s \<Rightarrow> bool" and step :: "'s \<Rightarrow> 's \<Rightarrow> bool" and inv :: "'s \<Rightarrow> bool"
  assumes inv_init: "init s \<Longrightarrow> inv s"
    and inv_step: "inv s \<Longrightarrow> step s s' \<Longrightarrow> inv s'"
begin

lemma inv_steps: "step\<^sup>*\<^sup>* s s' \<Longrightarrow> inv s \<Longrightarrow> inv s'"
  by (induction rule: rtranclp_induct) (auto intro: inv_step)

lemma inv_reachable: "init s \<Longrightarrow> step\<^sup>*\<^sup>* s s' \<Longrightarrow> inv s'"
  using inv_steps inv_init by blast

end


subsection \<open>Association lists\<close>

lemma map_of_rev_distinct: "distinct (map fst xs) \<Longrightarrow> map_of (rev xs) = map_of xs"
  by (simp add: map_of_inject_set rev_map flip: rev_map)


subsection \<open>Little-endian bytes\<close>

text \<open>
  \<open>to_le_bytes\<close> of an \<open>n\<close>-byte integer, least significant byte first, and the value of a
  byte string read that way.
\<close>

fun nat_to_le :: "nat \<Rightarrow> nat \<Rightarrow> bytes" where
  "nat_to_le 0 x = []"
| "nat_to_le (Suc n) x = word_of_nat x # nat_to_le n (x div 256)"

fun le_to_nat :: "bytes \<Rightarrow> nat" where
  "le_to_nat [] = 0"
| "le_to_nat (b # bs) = unat b + 256 * le_to_nat bs"

definition u32_to_le_bytes :: "u32 \<Rightarrow> bytes" where
  "u32_to_le_bytes w = nat_to_le 4 (unat w)"

definition u64_to_le_bytes :: "u64 \<Rightarrow> bytes" where
  "u64_to_le_bytes w = nat_to_le 8 (unat w)"

text \<open>\<open>u32::from_le_bytes(bs.try_into()?)\<close>: the conversion to a fixed array checks the length.\<close>

definition u32_from_le_bytes :: "bytes \<Rightarrow> u32 result" where
  "u32_from_le_bytes bs =
     (if length bs = 4 then Inr (word_of_nat (le_to_nat bs)) else Inl TryFromSliceError)"

definition u64_from_le_bytes :: "bytes \<Rightarrow> u64 result" where
  "u64_from_le_bytes bs =
     (if length bs = 8 then Inr (word_of_nat (le_to_nat bs)) else Inl TryFromSliceError)"

lemma length_nat_to_le [simp]: "length (nat_to_le n x) = n"
  by (induction n arbitrary: x) auto

lemma le_to_nat_nat_to_le: "le_to_nat (nat_to_le n x) = x mod 256 ^ n"
proof (induction n arbitrary: x)
  case 0
  then show ?case by simp
next
  case (Suc n)
  have "x mod 256 ^ Suc n = x mod 256 + 256 * (x div 256 mod 256 ^ n)"
    using mod_mult2_eq [of x 256 "256 ^ n"] by simp
  moreover have "unat (word_of_nat x :: byte) = x mod 256"
    by (simp add: unat_of_nat)
  ultimately show ?case by (simp add: Suc.IH)
qed

lemma unat_byte_less: "unat (b :: byte) < 256"
proof -
  have "unat b < 2 ^ LENGTH(8)" by (rule unsigned_less)
  then show ?thesis by simp
qed

lemma nat_to_le_le_to_nat: "nat_to_le (length bs) (le_to_nat bs) = bs"
proof (induction bs)
  case Nil
  then show ?case by simp
next
  case (Cons b bs)
  have b: "unat b < 256" by (rule unat_byte_less)
  moreover have "(256 :: byte) = 0" by (simp add: word_unat_eq_iff)
  then have "(256 :: byte) * word_of_nat (le_to_nat bs) = 0" by (metis mult_zero_left)
  then have "(word_of_nat (unat b + 256 * le_to_nat bs) :: byte) = b" by simp
  ultimately show ?case using Cons.IH by simp
qed

lemma le_to_nat_less: "le_to_nat bs < 256 ^ length bs"
proof (induction bs)
  case Nil
  then show ?case by simp
next
  case (Cons b bs)
  have "unat b + 256 * le_to_nat bs < 256 * Suc (le_to_nat bs)"
    using unat_byte_less [of b] by simp
  also have "\<dots> \<le> 256 * 256 ^ length bs"
    using Cons.IH by (intro mult_le_mono2) simp
  finally show ?case by simp
qed

lemma length_u32_to_le_bytes [simp, bytes_simps]: "length (u32_to_le_bytes w) = 4"
  by (simp add: u32_to_le_bytes_def)

lemma length_u64_to_le_bytes [simp, bytes_simps]: "length (u64_to_le_bytes w) = 8"
  by (simp add: u64_to_le_bytes_def)

lemma unat_u32_less: "unat (w :: u32) < 4294967296"
proof -
  have "unat w < 2 ^ LENGTH(32)" by (rule unsigned_less)
  then show ?thesis by simp
qed

lemma unat_u64_less: "unat (w :: u64) < 18446744073709551616"
proof -
  have "unat w < 2 ^ LENGTH(64)" by (rule unsigned_less)
  then show ?thesis by simp
qed

lemma u32_le_roundtrip [simp, bytes_simps]: "u32_from_le_bytes (u32_to_le_bytes w) = Inr w"
  using unat_u32_less [of w]
  by (simp add: u32_from_le_bytes_def u32_to_le_bytes_def le_to_nat_nat_to_le)

lemma u64_le_roundtrip [simp, bytes_simps]: "u64_from_le_bytes (u64_to_le_bytes w) = Inr w"
  using unat_u64_less [of w]
  by (simp add: u64_from_le_bytes_def u64_to_le_bytes_def le_to_nat_nat_to_le)

lemma u32_from_le_bytes_Inr:
  "u32_from_le_bytes bs = Inr w \<Longrightarrow> bs = u32_to_le_bytes w"
proof -
  assume "u32_from_le_bytes bs = Inr w"
  then have len: "length bs = 4" and w: "w = word_of_nat (le_to_nat bs)"
    by (auto simp: u32_from_le_bytes_def split: if_splits)
  have "le_to_nat bs < 256 ^ length bs" by (rule le_to_nat_less)
  with len w have "unat w = le_to_nat bs" by (simp add: unat_of_nat)
  with len show ?thesis
    using nat_to_le_le_to_nat [of bs] by (simp add: u32_to_le_bytes_def)
qed

lemma u64_from_le_bytes_Inr:
  "u64_from_le_bytes bs = Inr w \<Longrightarrow> bs = u64_to_le_bytes w"
proof -
  assume "u64_from_le_bytes bs = Inr w"
  then have len: "length bs = 8" and w: "w = word_of_nat (le_to_nat bs)"
    by (auto simp: u64_from_le_bytes_def split: if_splits)
  have "le_to_nat bs < 256 ^ length bs" by (rule le_to_nat_less)
  with len w have "unat w = le_to_nat bs" by (simp add: unat_of_nat)
  with len show ?thesis
    using nat_to_le_le_to_nat [of bs] by (simp add: u64_to_le_bytes_def)
qed

end
