(* ===== verification/Machine.thy ===== *)
theory Machine
  imports Prelude
begin

section \<open>Signed integers and floating-point numbers\<close>

text \<open>
  Timestamps are \<open>i64\<close> and values are \<open>f64\<close>.  Both are carried as their 64 bits: \<open>i64\<close>
  is ordered by its two's complement reading and its arithmetic wraps (the release build),
  \<open>f64\<close> has the IEEE 754 binary64 comparisons, which are false on NaN, and Rust's
  \<open>f64::min\<close> and \<open>f64::max\<close>, which ignore a NaN argument when the other is a number.
\<close>

subsection \<open>i64\<close>

datatype i64 = I64 (i64_bits: u64)

definition i64_int :: "i64 \<Rightarrow> int" where
  "i64_int t = sint (i64_bits t)"

lemma i64_int_inject: "i64_int a = i64_int b \<longleftrightarrow> a = b"
  by (cases a; cases b) (auto simp: i64_int_def dest: signed_word_eqI)

instantiation i64 :: linorder
begin

definition less_eq_i64 :: "i64 \<Rightarrow> i64 \<Rightarrow> bool" where
  "less_eq_i64 a b \<longleftrightarrow> i64_int a \<le> i64_int b"

definition less_i64 :: "i64 \<Rightarrow> i64 \<Rightarrow> bool" where
  "less_i64 a b \<longleftrightarrow> i64_int a < i64_int b"

instance
proof
  fix a b c :: i64
  show "(a < b) = (a \<le> b \<and> \<not> b \<le> a)"
    by (auto simp: less_eq_i64_def less_i64_def)
  show "a \<le> a" by (simp add: less_eq_i64_def)
  show "a \<le> b \<Longrightarrow> b \<le> c \<Longrightarrow> a \<le> c" by (simp add: less_eq_i64_def)
  show "a \<le> b \<Longrightarrow> b \<le> a \<Longrightarrow> a = b"
    by (simp add: less_eq_i64_def flip: i64_int_inject)
  show "a \<le> b \<or> b \<le> a" by (auto simp: less_eq_i64_def)
qed

end

definition I64_MIN :: i64 where
  "I64_MIN = I64 0x8000000000000000"

definition I64_MAX :: i64 where
  "I64_MAX = I64 0x7FFFFFFFFFFFFFFF"

text \<open>\<open>a - b\<close> and \<open>a + b\<close> with the overflow behaviour of a release build.\<close>

definition i64_sub :: "i64 \<Rightarrow> i64 \<Rightarrow> i64" where
  "i64_sub a b = I64 (i64_bits a - i64_bits b)"

definition i64_add :: "i64 \<Rightarrow> i64 \<Rightarrow> i64" where
  "i64_add a b = I64 (i64_bits a + i64_bits b)"

definition i64_to_le_bytes :: "i64 \<Rightarrow> bytes" where
  "i64_to_le_bytes t = u64_to_le_bytes (i64_bits t)"

definition i64_from_le_bytes :: "bytes \<Rightarrow> i64 result" where
  "i64_from_le_bytes bs = rbind (u64_from_le_bytes bs) (\<lambda>w. Inr (I64 w))"

lemma i64_int_range: "- (2 ^ 63) \<le> i64_int t" "i64_int t < 2 ^ 63"
  using sint_greater_eq [of "i64_bits t"] sint_less [of "i64_bits t"]
  by (simp_all add: i64_int_def)

lemma I64_MIN_least [simp]: "I64_MIN \<le> t"
  using i64_int_range(1) [of t] by (simp add: less_eq_i64_def I64_MIN_def i64_int_def)

lemma I64_MAX_greatest [simp]: "t \<le> I64_MAX"
  using i64_int_range(2) [of t] by (simp add: less_eq_i64_def I64_MAX_def i64_int_def)

lemma i64_add_sub [simp]: "i64_add a (i64_sub b a) = b"
  by (simp add: i64_add_def i64_sub_def)

lemma length_i64_to_le_bytes [simp, bytes_simps]: "length (i64_to_le_bytes t) = 8"
  by (simp add: i64_to_le_bytes_def)

lemma i64_le_roundtrip [simp, bytes_simps]: "i64_from_le_bytes (i64_to_le_bytes t) = Inr t"
  by (simp add: i64_from_le_bytes_def i64_to_le_bytes_def)

lemma i64_from_le_bytes_Inr:
  "i64_from_le_bytes bs = Inr t \<Longrightarrow> bs = i64_to_le_bytes t"
  by (auto simp: i64_from_le_bytes_def i64_to_le_bytes_def rbind_eq_Inr
      dest: u64_from_le_bytes_Inr)


subsection \<open>f64\<close>

datatype f64 = F64 (f64_bits: u64)

text \<open>Exponent field 2047 and a non-zero fraction.\<close>

definition f64_is_nan :: "f64 \<Rightarrow> bool" where
  "f64_is_nan x \<longleftrightarrow>
     unat (f64_bits x) div 2 ^ 52 mod 2048 = 2047 \<and> unat (f64_bits x) mod 2 ^ 52 \<noteq> 0"

text \<open>
  Sign and magnitude as one integer.  Away from NaN the numeric order of binary64 values is
  the order of this key; both zeros have key 0.
\<close>

definition f64_key :: "f64 \<Rightarrow> int" where
  "f64_key x =
     (let m = int (unat (f64_bits x) mod 2 ^ 63)
      in if unat (f64_bits x) < 2 ^ 63 then m else - m)"

definition f64_lt :: "f64 \<Rightarrow> f64 \<Rightarrow> bool" where
  "f64_lt x y \<longleftrightarrow> \<not> f64_is_nan x \<and> \<not> f64_is_nan y \<and> f64_key x < f64_key y"

definition f64_le :: "f64 \<Rightarrow> f64 \<Rightarrow> bool" where
  "f64_le x y \<longleftrightarrow> \<not> f64_is_nan x \<and> \<not> f64_is_nan y \<and> f64_key x \<le> f64_key y"

definition f64_min :: "f64 \<Rightarrow> f64 \<Rightarrow> f64" where
  "f64_min x y =
     (if f64_is_nan x then y else if f64_is_nan y then x
      else if f64_key y < f64_key x then y else x)"

definition f64_max :: "f64 \<Rightarrow> f64 \<Rightarrow> f64" where
  "f64_max x y =
     (if f64_is_nan x then y else if f64_is_nan y then x
      else if f64_key x < f64_key y then y else x)"

definition f64_to_le_bytes :: "f64 \<Rightarrow> bytes" where
  "f64_to_le_bytes x = u64_to_le_bytes (f64_bits x)"

definition f64_from_le_bytes :: "bytes \<Rightarrow> f64 result" where
  "f64_from_le_bytes bs = rbind (u64_from_le_bytes bs) (\<lambda>w. Inr (F64 w))"

lemma length_f64_to_le_bytes [simp, bytes_simps]: "length (f64_to_le_bytes x) = 8"
  by (simp add: f64_to_le_bytes_def)

lemma f64_le_roundtrip [simp, bytes_simps]: "f64_from_le_bytes (f64_to_le_bytes x) = Inr x"
  by (simp add: f64_from_le_bytes_def f64_to_le_bytes_def)

lemma f64_min_nan [simp]: "f64_is_nan (f64_min x y) \<longleftrightarrow> f64_is_nan x \<and> f64_is_nan y"
  by (auto simp: f64_min_def)

lemma f64_max_nan [simp]: "f64_is_nan (f64_max x y) \<longleftrightarrow> f64_is_nan x \<and> f64_is_nan y"
  by (auto simp: f64_max_def)

lemma f64_le_min_iff:
  "f64_le (f64_min x y) z \<longleftrightarrow> f64_le x z \<or> f64_le y z"
  by (auto simp: f64_min_def f64_le_def)

lemma f64_le_max_iff:
  "f64_le z (f64_max x y) \<longleftrightarrow> f64_le z x \<or> f64_le z y"
  by (auto simp: f64_max_def f64_le_def)

end
