(* ===== verification/Float_Ratio.thy ===== *)
theory Float_Ratio
  imports Machine
begin

section \<open>Quotients of machine integers as f64\<close>

text \<open>
  \<open>size as f64 / min as f64 \<le> ratio\<close>: the conversion of a \<open>u64\<close> and the division of two
  positive normal numbers, both rounded to the nearest \<open>f64\<close>, ties to the even significand
  (IEEE 754). The rounding of a positive rational covers subnormal results and overflow to
  infinity, which parsing a decimal number needs; division is for positive normal operands.
\<close>

subsection \<open>Rounding a positive rational\<close>

fun bit_len :: "nat \<Rightarrow> nat" where
  "bit_len n = (if n = 0 then 0 else Suc (bit_len (n div 2)))"

declare bit_len.simps [simp del]

text \<open>The largest \<open>e\<close> with \<open>2 ^ e \<le> m / n\<close>.\<close>

definition ratio_exp :: "nat \<Rightarrow> nat \<Rightarrow> int" where
  "ratio_exp m n =
     (let e = int (bit_len m) - int (bit_len n)
      in if n * 2 ^ nat e \<le> m * 2 ^ nat (- e) then e else e - 1)"

definition round_half_even :: "nat \<Rightarrow> nat \<Rightarrow> nat" where
  "round_half_even a b =
     (let q = a div b; r = a mod b
      in if 2 * r < b \<or> (2 * r = b \<and> even q) then q else q + 1)"

text \<open>
  The significand is \<open>m / n * 2 ^ (52 - e)\<close>, rounded; adding it to the exponent field less
  one gives the bits, and a carry out of the significand moves to the next exponent. Below the
  smallest normal number the exponent stays at its minimum, above the largest number the
  result is infinity.
\<close>

definition f64_round :: "nat \<Rightarrow> nat \<Rightarrow> f64" where
  "f64_round m n =
     (let e = max (ratio_exp m n) (- 1022);
          q = round_half_even (m * 2 ^ nat (52 - e)) (n * 2 ^ nat (e - 52))
      in if 1023 < e then F64 0x7FF0000000000000
         else F64 (word_of_nat (nat (e + 1022) * 2 ^ 52 + q)))"

definition f64_of_u64 :: "u64 \<Rightarrow> f64" where
  "f64_of_u64 w = (if w = 0 then F64 0 else f64_round (unat w) 1)"

text \<open>The value of a positive normal number as a quotient of naturals.\<close>

definition f64_num :: "f64 \<Rightarrow> nat" where
  "f64_num x =
     (let e = unat (f64_bits x) div 2 ^ 52 mod 2048
      in (2 ^ 52 + unat (f64_bits x) mod 2 ^ 52) * 2 ^ (e - 1075))"

definition f64_den :: "f64 \<Rightarrow> nat" where
  "f64_den x = 2 ^ (1075 - unat (f64_bits x) div 2 ^ 52 mod 2048)"

definition f64_div_pos :: "f64 \<Rightarrow> f64 \<Rightarrow> f64" where
  "f64_div_pos x y = f64_round (f64_num x * f64_den y) (f64_den x * f64_num y)"


subsection \<open>Equal operands\<close>

lemma ratio_exp_self: "0 < n \<Longrightarrow> ratio_exp n n = 0"
  by (simp add: ratio_exp_def)

lemma f64_round_self: "0 < n \<Longrightarrow> f64_round n n = F64 0x3FF0000000000000"
  by (simp add: f64_round_def ratio_exp_self round_half_even_def Let_def)

lemma f64_num_pos [simp]: "0 < f64_num x"
  by (simp add: f64_num_def Let_def)

lemma f64_den_pos [simp]: "0 < f64_den x"
  by (simp add: f64_den_def)

lemma f64_div_pos_self: "f64_div_pos x x = F64 0x3FF0000000000000"
  by (simp add: f64_div_pos_def mult.commute f64_round_self)


subsection \<open>Parsing decimal numbers\<close>

text \<open>
  \<open>str::parse::<f64>\<close>: an optional sign, then \<open>inf\<close>, \<open>infinity\<close> or \<open>nan\<close> in any case, or
  digits with an optional point and at least one digit, and an optional decimal exponent. The
  value is rounded once.
\<close>

definition lower :: "char \<Rightarrow> char" where
  "lower ch = (if CHR ''A'' \<le> ch \<and> ch \<le> CHR ''Z'' then char_of (of_char ch + 32 :: nat) else ch)"

definition is_digit :: "char \<Rightarrow> bool" where
  "is_digit ch \<longleftrightarrow> CHR ''0'' \<le> ch \<and> ch \<le> CHR ''9''"

definition digits_nat :: "string \<Rightarrow> nat" where
  "digits_nat s = foldl (\<lambda>n ch. n * 10 + (of_char ch - 48)) 0 s"

definition parse_exponent :: "string \<Rightarrow> int option" where
  "parse_exponent s =
     (case s of
        [] \<Rightarrow> Some 0
      | ch # rest \<Rightarrow>
          if lower ch \<noteq> CHR ''e'' then None
          else let neg = (rest \<noteq> [] \<and> hd rest = CHR ''-'');
                   digits = (if rest \<noteq> [] \<and> (hd rest = CHR ''-'' \<or> hd rest = CHR ''+'') then tl rest else rest)
               in if digits \<noteq> [] \<and> list_all is_digit digits
                  then Some (if neg then - int (digits_nat digits) else int (digits_nat digits))
                  else None)"

definition parse_number :: "string \<Rightarrow> f64 option" where
  "parse_number s =
     (let whole = takeWhile is_digit s; rest = dropWhile is_digit s;
          pointed = (rest \<noteq> [] \<and> hd rest = CHR ''.'');
          frac = (if pointed then takeWhile is_digit (tl rest) else []);
          tail = (if pointed then dropWhile is_digit (tl rest) else rest)
      in if whole = [] \<and> frac = [] then None
         else case parse_exponent tail of
                None \<Rightarrow> None
              | Some ex \<Rightarrow>
                  (let m = digits_nat (whole @ frac); e = ex - int (length frac)
                   in Some (if m = 0 then F64 0 else f64_round (m * 10 ^ nat e) (10 ^ nat (- e)))))"

definition f64_neg :: "f64 \<Rightarrow> f64" where
  "f64_neg x = F64 (flip_bit 63 (f64_bits x))"

definition parse_f64 :: "string \<Rightarrow> f64 option" where
  "parse_f64 s =
     (let neg = (s \<noteq> [] \<and> hd s = CHR ''-'');
          body = (if s \<noteq> [] \<and> (hd s = CHR ''-'' \<or> hd s = CHR ''+'') then tl s else s);
          word = map lower body
      in map_option (if neg then f64_neg else id)
           (if word = ''inf'' \<or> word = ''infinity'' then Some (F64 0x7FF0000000000000)
            else if word = ''nan'' then Some (F64 0x7FF8000000000000)
            else parse_number body))"

end
