(* ===== verification/Containers.thy ===== *)
theory Containers
  imports Machine
begin

section \<open>Maps and sorted vectors\<close>

text \<open>
  The collections of the standard library the engine uses.  A \<open>BTreeMap\<close> is the list of
  its entries in ascending key order, which is its iteration order.  A \<open>HashMap\<close> is the
  list of its entries in some order, with distinct keys; the facts below never depend on
  that order.  Both meet the contract \<open>map_adt\<close>.  A \<open>Vec\<close> kept sorted by
  \<open>binary_search_by_key\<close> and \<open>insert\<close> behaves as such a map too.
\<close>

subsection \<open>The contract of a map\<close>

locale map_adt =
  fixes empty :: "'m"
    and lookup :: "'m \<Rightarrow> 'k \<Rightarrow> 'v option"
    and update :: "'k \<Rightarrow> 'v \<Rightarrow> 'm \<Rightarrow> 'm"
    and remove :: "'k \<Rightarrow> 'm \<Rightarrow> 'm"
    and entries :: "'m \<Rightarrow> ('k \<times> 'v) list"
    and invar :: "'m \<Rightarrow> bool"
  assumes lookup_empty: "lookup empty k = None"
    and lookup_update: "invar m \<Longrightarrow> lookup (update k v m) = (lookup m)(k \<mapsto> v)"
    and lookup_remove: "invar m \<Longrightarrow> lookup (remove k m) = (lookup m)(k := None)"
    and lookup_entries: "invar m \<Longrightarrow> lookup m = map_of (entries m)"
    and distinct_entries: "invar m \<Longrightarrow> distinct (map fst (entries m))"
    and invar_empty: "invar empty"
    and invar_update: "invar m \<Longrightarrow> invar (update k v m)"
    and invar_remove: "invar m \<Longrightarrow> invar (remove k m)"
begin

lemma invar_collect: "invar m \<Longrightarrow> invar (fold (\<lambda>(k, v). update k v) kvs m)"
  by (induction kvs arbitrary: m) (auto intro: invar_update)

text \<open>\<open>extend\<close>/\<open>collect\<close>: later pairs overwrite earlier ones.\<close>

lemma lookup_collect:
  "invar m \<Longrightarrow> lookup (fold (\<lambda>(k, v). update k v) kvs m) = lookup m ++ map_of (rev kvs)"
proof (induction kvs arbitrary: m)
  case Nil
  then show ?case by simp
next
  case (Cons kv kvs)
  obtain k v where kv: "kv = (k, v)" by fastforce
  have "lookup (fold (\<lambda>(k, v). update k v) (kv # kvs) m)
      = lookup (update k v m) ++ map_of (rev kvs)"
    using Cons by (simp add: kv invar_update)
  also have "\<dots> = (lookup m)(k \<mapsto> v) ++ map_of (rev kvs)"
    using Cons.prems by (simp add: lookup_update)
  finally show ?case by (auto simp: kv map_add_def fun_eq_iff split: option.splits)
qed

lemma mem_entries_iff: "invar m \<Longrightarrow> (k, v) \<in> set (entries m) \<longleftrightarrow> lookup m k = Some v"
  by (simp add: lookup_entries distinct_entries)

text \<open>Copying a map entry by entry, as a snapshot does, keeps its contents.\<close>

lemma lookup_copy: "invar m \<Longrightarrow> lookup (fold (\<lambda>(k, v). update k v) (entries m) empty) = lookup m"
proof -
  assume inv: "invar m"
  have "map_of (rev (entries m)) = map_of (entries m)"
    using distinct_entries [OF inv] by (rule map_of_rev_distinct)
  then have "lookup empty ++ map_of (rev (entries m)) = lookup m"
    by (simp add: lookup_entries [OF inv] lookup_empty map_add_def fun_eq_iff split: option.splits)
  then show ?thesis by (simp add: lookup_collect [OF invar_empty])
qed

end


subsection \<open>BTreeMap: entries in ascending key order\<close>

definition bt_inv :: "('k::linorder \<times> 'v) list \<Rightarrow> bool" where
  "bt_inv m \<longleftrightarrow> sorted_wrt (<) (map fst m)"

fun bt_insert :: "'k::linorder \<Rightarrow> 'v \<Rightarrow> ('k \<times> 'v) list \<Rightarrow> ('k \<times> 'v) list" where
  "bt_insert k v [] = [(k, v)]"
| "bt_insert k v (e # m) =
     (if fst e < k then e # bt_insert k v m
      else if fst e = k then (k, v) # m
      else (k, v) # e # m)"

definition bt_remove :: "'k::linorder \<Rightarrow> ('k \<times> 'v) list \<Rightarrow> ('k \<times> 'v) list" where
  "bt_remove k m = filter (\<lambda>e. fst e \<noteq> k) m"

text \<open>\<open>f(m.entry(k).or_insert(d))\<close>.\<close>

definition bt_modify :: "'k::linorder \<Rightarrow> 'v \<Rightarrow> ('v \<Rightarrow> 'v) \<Rightarrow> ('k \<times> 'v) list \<Rightarrow> ('k \<times> 'v) list" where
  "bt_modify k d f m = bt_insert k (f (case map_of m k of None \<Rightarrow> d | Some v \<Rightarrow> v)) m"

text \<open>\<open>m.range(..=hi)\<close>.\<close>

definition bt_range_to :: "'k::linorder \<Rightarrow> ('k \<times> 'v) list \<Rightarrow> ('k \<times> 'v) list" where
  "bt_range_to hi m = filter (\<lambda>e. fst e \<le> hi) m"

lemma bt_inv_Nil [simp]: "bt_inv []"
  by (simp add: bt_inv_def)

lemma bt_inv_Cons [simp]: "bt_inv (e # m) \<longleftrightarrow> (\<forall>x \<in> set m. fst e < fst x) \<and> bt_inv m"
  by (auto simp: bt_inv_def)

lemma set_bt_insert_fst: "fst ` set (bt_insert k v m) = insert k (fst ` set m)"
  by (induction m) auto

lemma bt_inv_insert: "bt_inv m \<Longrightarrow> bt_inv (bt_insert k v m)"
proof (induction m)
  case Nil
  then show ?case by simp
next
  case (Cons e m)
  then have IH: "bt_inv (bt_insert k v m)" by simp
  have "\<forall>x \<in> set (bt_insert k v m). fst e < fst x" if "fst e < k"
  proof
    fix x assume "x \<in> set (bt_insert k v m)"
    then have "fst x \<in> insert k (fst ` set m)"
      by (metis image_eqI set_bt_insert_fst)
    with that Cons.prems show "fst e < fst x" by auto
  qed
  with IH Cons.prems show ?case by (auto intro: less_trans)
qed

lemma bt_inv_filter: "bt_inv m \<Longrightarrow> bt_inv (filter P m)"
  by (induction m) auto

lemma bt_inv_map_snd: "bt_inv (map (\<lambda>(k, v). (k, f k v)) m) \<longleftrightarrow> bt_inv m"
  by (simp add: bt_inv_def comp_def case_prod_beta)

lemma map_of_bt_insert: "map_of (bt_insert k v m) = (map_of m)(k \<mapsto> v)"
  by (induction m) (auto simp: fun_eq_iff)

lemma map_of_filter_neq: "map_of (filter (\<lambda>e. fst e \<noteq> k) m) = (map_of m)(k := None)"
  by (induction m) (auto simp: fun_eq_iff)

lemma bt_inv_distinct: "bt_inv m \<Longrightarrow> distinct (map fst m)"
  by (induction m) auto

interpretation bt: map_adt "[]" map_of bt_insert bt_remove "\<lambda>m. m" bt_inv
  by unfold_locales
    (auto simp: map_of_bt_insert bt_remove_def map_of_filter_neq bt_inv_distinct
      intro: bt_inv_insert bt_inv_filter)

lemma map_of_bt_modify:
  "map_of (bt_modify k d f m) = (map_of m)(k \<mapsto> f (case map_of m k of None \<Rightarrow> d | Some v \<Rightarrow> v))"
  by (simp add: bt_modify_def map_of_bt_insert)

lemma bt_inv_modify: "bt_inv m \<Longrightarrow> bt_inv (bt_modify k d f m)"
  by (simp add: bt_modify_def bt_inv_insert)

lemma bt_insert_last: "\<forall>x \<in> set m. fst x < k \<Longrightarrow> bt_insert k v m = m @ [(k, v)]"
  by (induction m) auto

text \<open>Inserting the entries of a map in order rebuilds it.\<close>

lemma bt_collect_append:
  "bt_inv (m @ kvs) \<Longrightarrow> fold (\<lambda>(k, v). bt_insert k v) kvs m = m @ kvs"
proof (induction kvs arbitrary: m)
  case Nil
  then show ?case by simp
next
  case (Cons e kvs)
  have "\<forall>x \<in> set m. fst x < fst e"
    using Cons.prems by (force simp: bt_inv_def sorted_wrt_append)
  then have "(\<lambda>(k, v). bt_insert k v) e m = m @ [e]"
    by (cases e) (simp add: bt_insert_last)
  with Cons show ?case by simp
qed

lemma bt_collect_id: "bt_inv m \<Longrightarrow> fold (\<lambda>(k, v). bt_insert k v) m [] = m"
  using bt_collect_append [of "[]" m] by simp


subsection \<open>HashMap: entries in iteration order\<close>

definition hm_inv :: "('k \<times> 'v) list \<Rightarrow> bool" where
  "hm_inv m \<longleftrightarrow> distinct (map fst m)"

fun hm_insert :: "'k \<Rightarrow> 'v \<Rightarrow> ('k \<times> 'v) list \<Rightarrow> ('k \<times> 'v) list" where
  "hm_insert k v [] = [(k, v)]"
| "hm_insert k v (e # m) = (if fst e = k then (k, v) # m else e # hm_insert k v m)"

definition hm_remove :: "'k \<Rightarrow> ('k \<times> 'v) list \<Rightarrow> ('k \<times> 'v) list" where
  "hm_remove k m = filter (\<lambda>e. fst e \<noteq> k) m"

definition hm_modify :: "'k \<Rightarrow> 'v \<Rightarrow> ('v \<Rightarrow> 'v) \<Rightarrow> ('k \<times> 'v) list \<Rightarrow> ('k \<times> 'v) list" where
  "hm_modify k d f m = hm_insert k (f (case map_of m k of None \<Rightarrow> d | Some v \<Rightarrow> v)) m"

lemma hm_inv_Nil [simp]: "hm_inv []"
  by (simp add: hm_inv_def)

lemma hm_inv_Cons [simp]: "hm_inv (e # m) \<longleftrightarrow> fst e \<notin> fst ` set m \<and> hm_inv m"
  by (simp add: hm_inv_def)

lemma set_hm_insert_fst: "fst ` set (hm_insert k v m) = insert k (fst ` set m)"
  by (induction m) auto

lemma hm_inv_insert: "hm_inv m \<Longrightarrow> hm_inv (hm_insert k v m)"
  by (induction m) (auto simp: set_hm_insert_fst)

lemma hm_inv_filter: "hm_inv m \<Longrightarrow> hm_inv (filter P m)"
  by (induction m) auto

lemma map_of_hm_insert: "map_of (hm_insert k v m) = (map_of m)(k \<mapsto> v)"
  by (induction m) (auto simp: fun_eq_iff)

interpretation hm: map_adt "[]" map_of hm_insert hm_remove "\<lambda>m. m" hm_inv
  by unfold_locales
    (auto simp: map_of_hm_insert hm_remove_def map_of_filter_neq hm_inv_insert hm_inv_filter,
      auto simp: hm_inv_def)

lemma map_of_hm_modify:
  "map_of (hm_modify k d f m) = (map_of m)(k \<mapsto> f (case map_of m k of None \<Rightarrow> d | Some v \<Rightarrow> v))"
  by (simp add: hm_modify_def map_of_hm_insert)

lemma hm_inv_modify: "hm_inv m \<Longrightarrow> hm_inv (hm_modify k d f m)"
  by (simp add: hm_modify_def hm_inv_insert)

end
