(* ===== verification/Sorted_Vec.thy ===== *)
theory Sorted_Vec
  imports Containers
begin

section \<open>Vectors kept sorted by binary search\<close>

text \<open>
  \<open>Memtable::insert\<close> and the compaction merge keep the points of a series in a
  \<open>Vec<(i64, f64)>\<close>, sorted by timestamp, and place each new point with
  \<open>binary_search_by_key\<close>.  Here is the search loop of the standard library, the two ways
  its answer is used, and the fact that together they are insertion into a sorted map.
\<close>

subsection \<open>slice::binary\_search\_by\_key\<close>

text \<open>The loop keeps a window of \<open>n\<close> candidates starting at \<open>base\<close> and halves it.\<close>

function bs_loop :: "'k::linorder list \<Rightarrow> 'k \<Rightarrow> nat \<Rightarrow> nat \<Rightarrow> nat" where
  "bs_loop ks x base n =
     (if 1 < n
      then let half = n div 2; mid = base + half
           in bs_loop ks x (if x < ks ! mid then base else mid) (n - half)
      else base)"
  by pat_completeness auto
termination
  by (relation "measure (\<lambda>(ks, x, base, n). n)") auto

declare bs_loop.simps [simp del]

text \<open>\<open>Inr pos\<close> is \<open>Ok(pos)\<close>, a position of the key; \<open>Inl pos\<close> is \<open>Err(pos)\<close>, where it belongs.\<close>

definition binary_search :: "'k::linorder list \<Rightarrow> 'k \<Rightarrow> nat + nat" where
  "binary_search ks x =
     (if ks = [] then Inl 0
      else let base = bs_loop ks x 0 (length ks)
           in if ks ! base = x then Inr base
              else Inl (base + (if ks ! base < x then 1 else 0)))"

definition vec_insert :: "nat \<Rightarrow> 'a \<Rightarrow> 'a list \<Rightarrow> 'a list" where
  "vec_insert pos x xs = take pos xs @ x # drop pos xs"

text \<open>
  The window invariant: everything before the window is smaller, everything after it is
  larger, and the element at \<open>base\<close> is not larger unless \<open>base\<close> is still 0.
\<close>

lemma bs_loop_window:
  assumes "sorted_wrt (<) ks" "0 < n" "base + n \<le> length ks"
    and "\<forall>i < base. ks ! i < x"
    and "\<forall>i. base + n \<le> i \<longrightarrow> i < length ks \<longrightarrow> x < ks ! i"
    and "base = 0 \<or> ks ! base \<le> x"
  shows "bs_loop ks x base n < length ks \<and>
         (\<forall>i < bs_loop ks x base n. ks ! i < x) \<and>
         (\<forall>i. bs_loop ks x base n < i \<longrightarrow> i < length ks \<longrightarrow> x < ks ! i)"
  using assms
proof (induction ks x base n rule: bs_loop.induct)
  case (1 ks x base n)
  show ?case
  proof (cases "1 < n")
    case False
    with "1.prems" have "n = 1" by simp
    with "1.prems" show ?thesis by (subst (1 2 3) bs_loop.simps) auto
  next
    case True
    define half where "half = n div 2"
    define base' where "base' = (if x < ks ! (base + half) then base else base + half)"
    have mid: "base + half < length ks" "0 < half" "half < n"
      using True "1.prems"(3) by (auto simp: half_def)
    have step: "bs_loop ks x base n = bs_loop ks x base' (n - half)"
      using True by (subst bs_loop.simps) (simp add: half_def base'_def Let_def)
    have lt: "ks ! i < ks ! j" if "i < j" "j < length ks" for i j
      using "1.prems"(1) that by (simp add: sorted_wrt_iff_nth_less)
    have before: "\<forall>i < base'. ks ! i < x"
    proof (intro allI impI)
      fix i assume i: "i < base'"
      show "ks ! i < x"
      proof (cases "x < ks ! (base + half)")
        case True
        with i "1.prems"(4) show ?thesis by (simp add: base'_def)
      next
        case False
        with i have "ks ! i < ks ! (base + half)" using mid lt by (simp add: base'_def)
        with False show ?thesis by simp
      qed
    qed
    have after: "\<forall>i. base' + (n - half) \<le> i \<longrightarrow> i < length ks \<longrightarrow> x < ks ! i"
    proof (intro allI impI)
      fix i assume i: "base' + (n - half) \<le> i" "i < length ks"
      show "x < ks ! i"
      proof (cases "x < ks ! (base + half)")
        case True
        have "half \<le> n - half" by (simp add: half_def)
        with True i mid have "base + half \<le> i" by (simp add: base'_def)
        then have "ks ! (base + half) \<le> ks ! i"
          using lt i by (cases "base + half = i") (auto intro: less_imp_le)
        with True show ?thesis by simp
      next
        case False
        with i mid "1.prems"(5) show ?thesis by (simp add: base'_def)
      qed
    qed
    have at: "base' = 0 \<or> ks ! base' \<le> x"
      using "1.prems"(6) by (auto simp: base'_def)
    have len: "base' + (n - half) \<le> length ks" "0 < n - half"
      using mid "1.prems"(3) by (auto simp: base'_def)
    show ?thesis
      unfolding step
      by (rule "1.IH" [OF True half_def refl, folded base'_def, OF "1.prems"(1)])
        (fact len before after at)+
  qed
qed

lemma binary_search_Inr:
  assumes "sorted_wrt (<) ks" "binary_search ks x = Inr p"
  shows "p < length ks" "ks ! p = x"
proof -
  from assms(2) have "ks \<noteq> []" and p: "p = bs_loop ks x 0 (length ks)" and "ks ! p = x"
    by (auto simp: binary_search_def Let_def split: if_splits)
  then show "p < length ks" "ks ! p = x"
    using bs_loop_window [OF assms(1), of "length ks" 0 x] by auto
qed

lemma binary_search_Inl:
  assumes "sorted_wrt (<) ks" "binary_search ks x = Inl p"
  shows "p \<le> length ks" "\<forall>i < p. ks ! i < x" "\<forall>i. p \<le> i \<longrightarrow> i < length ks \<longrightarrow> x < ks ! i"
proof -
  have "p \<le> length ks \<and> (\<forall>i < p. ks ! i < x) \<and> (\<forall>i. p \<le> i \<longrightarrow> i < length ks \<longrightarrow> x < ks ! i)"
  proof (cases "ks = []")
    case True
    with assms(2) show ?thesis by (simp add: binary_search_def)
  next
    case False
    define b where "b = bs_loop ks x 0 (length ks)"
    have b: "b < length ks" "\<forall>i < b. ks ! i < x" "\<forall>i. b < i \<longrightarrow> i < length ks \<longrightarrow> x < ks ! i"
      using bs_loop_window [OF assms(1), of "length ks" 0 x] False by (auto simp: b_def)
    from assms(2) False have neq: "ks ! b \<noteq> x" and p: "p = b + (if ks ! b < x then 1 else 0)"
      by (auto simp: binary_search_def b_def Let_def split: if_splits)
    show ?thesis
    proof (cases "ks ! b < x")
      case True
      with b p show ?thesis by (auto simp: less_Suc_eq)
    next
      case less: False
      with neq have "x < ks ! b" by simp
      with less b p show ?thesis by (auto simp: le_eq_less_or_eq)
    qed
  qed
  then show "p \<le> length ks" "\<forall>i < p. ks ! i < x" "\<forall>i. p \<le> i \<longrightarrow> i < length ks \<longrightarrow> x < ks ! i"
    by blast+
qed


subsection \<open>Placing a point\<close>

lemma bt_insert_append_less:
  "\<forall>x \<in> set as. fst x < k \<Longrightarrow> bt_insert k v (as @ bs) = as @ bt_insert k v bs"
  by (induction as) auto

lemma bt_insert_greater: "\<forall>x \<in> set bs. k < fst x \<Longrightarrow> bt_insert k v bs = (k, v) # bs"
  by (cases bs) auto

text \<open>
  The key is absent: inserting at the reported position keeps the vector sorted and is
  map insertion.
\<close>

lemma vec_insert_bt_insert:
  assumes "bt_inv vec" "binary_search (map fst vec) k = Inl p"
  shows "vec_insert p (k, v) vec = bt_insert k v vec" "map_of vec k = None"
proof -
  note s = binary_search_Inl [OF assms(1) [unfolded bt_inv_def] assms(2)]
  have before: "\<forall>x \<in> set (take p vec). fst x < k"
    using s(1,2) by (fastforce simp: in_set_conv_nth)
  have after: "\<forall>x \<in> set (drop p vec). k < fst x"
  proof
    fix x assume "x \<in> set (drop p vec)"
    then obtain i where "i < length vec - p" "x = vec ! (p + i)"
      by (auto simp: in_set_conv_nth)
    with s(3) show "k < fst x" by (auto dest: spec [of _ "p + i"])
  qed
  have "bt_insert k v (take p vec @ drop p vec) = take p vec @ (k, v) # drop p vec"
    using before after by (simp only: bt_insert_append_less bt_insert_greater)
  then show "vec_insert p (k, v) vec = bt_insert k v vec"
    by (simp add: vec_insert_def)
  have "k \<notin> fst ` (set (take p vec) \<union> set (drop p vec))"
    using before after by auto
  then have "k \<notin> fst ` set vec"
    by (metis append_take_drop_id set_append)
  then show "map_of vec k = None"
    by (simp add: map_of_eq_None_iff)
qed

text \<open>The key is present: overwriting the value at the reported position is map update.\<close>

lemma vec_update_bt_insert:
  assumes "bt_inv vec" "binary_search (map fst vec) k = Inr p"
  shows "vec[p := (fst (vec ! p), v)] = bt_insert k v vec" "map_of vec k \<noteq> None"
proof -
  note s = binary_search_Inr [OF assms(1) [unfolded bt_inv_def] assms(2)]
  then have p: "p < length vec" and kp: "fst (vec ! p) = k" by auto
  have split: "vec = take p vec @ vec ! p # drop (Suc p) vec"
    using p by (rule id_take_nth_drop)
  have before: "\<forall>x \<in> set (take p vec). fst x < k"
    using assms(1) kp p unfolding bt_inv_def
    by (fastforce simp: in_set_conv_nth sorted_wrt_iff_nth_less)
  have "bt_insert k v vec = take p vec @ bt_insert k v (vec ! p # drop (Suc p) vec)"
    by (subst split) (rule bt_insert_append_less [OF before])
  also have "\<dots> = take p vec @ (k, v) # drop (Suc p) vec"
    using kp by simp
  finally show "vec[p := (fst (vec ! p), v)] = bt_insert k v vec"
    using p kp by (simp add: upd_conv_take_nth_drop)
  show "map_of vec k \<noteq> None"
    using p kp by (auto simp: map_of_eq_None_iff intro!: image_eqI [where x = "vec ! p"])
qed

end
