(* ===== verification/Types.thy ===== *)
theory Types
  imports Sorted_Vec
begin

section \<open>Core types (types.rs)\<close>

text \<open>
  Data points, series keys and their canonical bytes, series identifiers, value statistics
  and predicates.  A Rust \<open>String\<close> is the list of its UTF-8 bytes, as characters, so that
  \<open>len\<close> is \<open>length\<close> and the ordering is the lexicographic one; that the bytes are valid
  UTF-8 is the type invariant \<open>str_ok\<close>.

  The hash \<open>xxh64\<close> of the crate \<open>xxhash_rust\<close> is a parameter, with its streaming
  interface.
\<close>

subsection \<open>Strings and their bytes\<close>

definition byte_of_char :: "char \<Rightarrow> byte" where
  "byte_of_char c = word_of_nat (of_char c)"

definition char_of_byte :: "byte \<Rightarrow> char" where
  "char_of_byte b = char_of (unat b)"

definition as_bytes :: "string \<Rightarrow> bytes" where
  "as_bytes s = map byte_of_char s"

lemma char_of_byte_of_char [simp]: "char_of_byte (byte_of_char c) = c"
proof -
  have "of_char c mod 256 = (of_char c :: nat)" by (rule of_char_mod_256)
  then show ?thesis by (simp add: char_of_byte_def byte_of_char_def unat_of_nat)
qed

lemma byte_of_char_of_byte [simp]: "byte_of_char (char_of_byte b) = b"
  using unat_byte_less [of b] by (simp add: char_of_byte_def byte_of_char_def)

lemma map_char_as_bytes [simp]: "map char_of_byte (as_bytes s) = s"
  by (simp add: as_bytes_def comp_def)

lemma as_bytes_append [simp]: "as_bytes (s @ t) = as_bytes s @ as_bytes t"
  by (simp add: as_bytes_def)

lemma length_as_bytes [simp]: "length (as_bytes s) = length s"
  by (simp add: as_bytes_def)

lemma as_bytes_inject [simp]: "as_bytes s = as_bytes t \<longleftrightarrow> s = t"
  by (metis map_char_as_bytes)

text \<open>The well-formed byte sequences of \<open>core::str::from_utf8\<close> (Unicode, table 3-7).\<close>

definition utf8_cont :: "byte \<Rightarrow> bool" where
  "utf8_cont b \<longleftrightarrow> 0x80 \<le> b \<and> b \<le> 0xBF"

definition utf8_ascii :: "byte \<Rightarrow> bool" where
  "utf8_ascii b \<longleftrightarrow> b \<le> 0x7F"

definition utf8_seq2 :: "byte \<Rightarrow> byte \<Rightarrow> bool" where
  "utf8_seq2 b c1 \<longleftrightarrow> 0xC2 \<le> b \<and> b \<le> 0xDF \<and> utf8_cont c1"

definition utf8_seq3 :: "byte \<Rightarrow> byte \<Rightarrow> byte \<Rightarrow> bool" where
  "utf8_seq3 b c1 c2 \<longleftrightarrow>
     0xE0 \<le> b \<and> b \<le> 0xEF \<and> utf8_cont c1 \<and> utf8_cont c2 \<and>
     (b = 0xE0 \<longrightarrow> 0xA0 \<le> c1) \<and> (b = 0xED \<longrightarrow> c1 \<le> 0x9F)"

definition utf8_seq4 :: "byte \<Rightarrow> byte \<Rightarrow> byte \<Rightarrow> byte \<Rightarrow> bool" where
  "utf8_seq4 b c1 c2 c3 \<longleftrightarrow>
     0xF0 \<le> b \<and> b \<le> 0xF4 \<and> utf8_cont c1 \<and> utf8_cont c2 \<and> utf8_cont c3 \<and>
     (b = 0xF0 \<longrightarrow> 0x90 \<le> c1) \<and> (b = 0xF4 \<longrightarrow> c1 \<le> 0x8F)"

fun valid_utf8 :: "bytes \<Rightarrow> bool" where
  "valid_utf8 [] = True"
| "valid_utf8 (b # r) =
     (if utf8_ascii b then valid_utf8 r else
      case r of [] \<Rightarrow> False | c1 # r1 \<Rightarrow>
        if utf8_seq2 b c1 then valid_utf8 r1 else
        case r1 of [] \<Rightarrow> False | c2 # r2 \<Rightarrow>
          if utf8_seq3 b c1 c2 then valid_utf8 r2 else
          case r2 of [] \<Rightarrow> False | c3 # r3 \<Rightarrow>
            utf8_seq4 b c1 c2 c3 \<and> valid_utf8 r3)"

definition str_ok :: "string \<Rightarrow> bool" where
  "str_ok s \<longleftrightarrow> valid_utf8 (as_bytes s)"

lemma valid_utf8_append: "valid_utf8 as \<Longrightarrow> valid_utf8 (as @ bs) = valid_utf8 bs"
proof (induction as rule: valid_utf8.induct)
  case 1
  then show ?case by simp
next
  case (2 b r)
  show ?case
  proof (cases "utf8_ascii b")
    case True
    with 2 show ?thesis by simp
  next
    case b: False
    with "2.prems" obtain c1 r1 where r: "r = c1 # r1" by (cases r) auto
    show ?thesis
    proof (cases "utf8_seq2 b c1")
      case True
      with 2 b r show ?thesis by simp
    next
      case c1: False
      with "2.prems" b r obtain c2 r2 where r1: "r1 = c2 # r2" by (cases r1) auto
      show ?thesis
      proof (cases "utf8_seq3 b c1 c2")
        case True
        with 2 b r c1 r1 show ?thesis by simp
      next
        case c2: False
        with "2.prems" b r c1 r1 obtain c3 r3 where "r2 = c3 # r3" by (cases r2) auto
        with 2 b r c1 r1 c2 show ?thesis by simp
      qed
    qed
  qed
qed

lemma str_ok_append: "str_ok s \<Longrightarrow> str_ok t \<Longrightarrow> str_ok (s @ t)"
  by (simp add: str_ok_def valid_utf8_append)


text \<open>\<open>str::split(c)\<close>: always at least one piece; \<open>str::split_once(c)\<close>: around the first \<open>c\<close>.\<close>

fun split_on :: "'a \<Rightarrow> 'a list \<Rightarrow> 'a list list" where
  "split_on c [] = [[]]"
| "split_on c (x # xs) =
     (if x = c then [] # split_on c xs
      else case split_on c xs of [] \<Rightarrow> [[x]] | p # ps \<Rightarrow> (x # p) # ps)"

fun split_once :: "'a \<Rightarrow> 'a list \<Rightarrow> ('a list \<times> 'a list) option" where
  "split_once c [] = None"
| "split_once c (x # xs) =
     (if x = c then Some ([], xs)
      else map_option (\<lambda>(l, r). (x # l, r)) (split_once c xs))"

lemma split_on_no_sep: "c \<notin> set xs \<Longrightarrow> split_on c xs = [xs]"
  by (induction xs) auto

lemma split_on_append_sep: "c \<notin> set xs \<Longrightarrow> split_on c (xs @ c # ys) = xs # split_on c ys"
  by (induction xs) auto

lemma split_once_append_sep: "c \<notin> set xs \<Longrightarrow> split_once c (xs @ c # ys) = Some (xs, ys)"
  by (induction xs) auto


subsection \<open>DataPoint and SeriesKey\<close>

text \<open>\<open>BTreeMap<String, String>\<close>.\<close>

type_synonym tag_map = "(string \<times> string) list"

record data_point =
  dp_metric_name :: string
  dp_tags :: tag_map
  dp_timestamp_ns :: i64
  dp_value :: f64

datatype series_key = SeriesKey (sk_metric_name: string) (sk_tags: tag_map)

text \<open>The derived \<open>Ord\<close>: field by field, the tag maps entry by entry.\<close>

definition sk_pair :: "series_key \<Rightarrow> string \<times> tag_map" where
  "sk_pair k = (sk_metric_name k, sk_tags k)"

instantiation series_key :: linorder
begin

definition less_eq_series_key :: "series_key \<Rightarrow> series_key \<Rightarrow> bool" where
  "less_eq_series_key a b \<longleftrightarrow> sk_pair a \<le> sk_pair b"

definition less_series_key :: "series_key \<Rightarrow> series_key \<Rightarrow> bool" where
  "less_series_key a b \<longleftrightarrow> sk_pair a < sk_pair b"

instance
proof
  fix a b c :: series_key
  show "(a < b) = (a \<le> b \<and> \<not> b \<le> a)"
    by (simp only: less_eq_series_key_def less_series_key_def less_le_not_le)
  show "a \<le> a" by (simp only: less_eq_series_key_def order.refl)
  show "a \<le> b \<Longrightarrow> b \<le> c \<Longrightarrow> a \<le> c"
    by (simp only: less_eq_series_key_def)
  show "a \<le> b \<Longrightarrow> b \<le> a \<Longrightarrow> a = b"
  proof -
    assume "a \<le> b" "b \<le> a"
    then have "sk_pair a = sk_pair b"
      by (simp only: less_eq_series_key_def)
    then show "a = b" by (cases a; cases b) (simp add: sk_pair_def)
  qed
  show "a \<le> b \<or> b \<le> a"
    by (simp only: less_eq_series_key_def linear)
qed

end

text \<open>\<open>SeriesKey::to_bytes\<close>: \<open>metric,k1=v1,k2=v2\<close> with the tags in map order.\<close>

definition to_bytes :: "series_key \<Rightarrow> bytes" where
  "to_bytes k =
     as_bytes (sk_metric_name k) @
     concat (map (\<lambda>(t, v). 0x2C # as_bytes t @ 0x3D # as_bytes v) (sk_tags k))"

text \<open>The loop over the remaining parts of \<open>SeriesKey::from_bytes\<close>.\<close>

fun parse_tags :: "string list \<Rightarrow> tag_map \<Rightarrow> tag_map result" where
  "parse_tags [] tags = Inr tags"
| "parse_tags (kv # parts) tags =
     (case split_once CHR ''='' kv of
        None \<Rightarrow> Inl (MalformedTagPair kv)
      | Some (k, v) \<Rightarrow> parse_tags parts (bt_insert k v tags))"

definition from_bytes :: "bytes \<Rightarrow> series_key result" where
  "from_bytes bs =
     (if \<not> valid_utf8 bs then Inl InvalidUtf8
      else case split_on CHR '','' (map char_of_byte bs) of
             [] \<Rightarrow> Inl EmptySeriesKey
           | metric # parts \<Rightarrow>
               rbind (parse_tags parts []) (\<lambda>tags. Inr (SeriesKey metric tags)))"

text \<open>
  The keys whose text cannot be confused: separators occur only where \<open>to_bytes\<close> puts
  them.  \<open>=\<close> inside a tag value is harmless.
\<close>

definition key_type_ok :: "series_key \<Rightarrow> bool" where
  "key_type_ok k \<longleftrightarrow>
     str_ok (sk_metric_name k) \<and> bt_inv (sk_tags k) \<and>
     (\<forall>(t, v) \<in> set (sk_tags k). str_ok t \<and> str_ok v)"

definition key_unambiguous :: "series_key \<Rightarrow> bool" where
  "key_unambiguous k \<longleftrightarrow>
     CHR '','' \<notin> set (sk_metric_name k) \<and>
     (\<forall>(t, v) \<in> set (sk_tags k).
        CHR '','' \<notin> set t \<and> CHR ''='' \<notin> set t \<and> CHR '','' \<notin> set v)"

definition tags_text :: "tag_map \<Rightarrow> string" where
  "tags_text tags = concat (map (\<lambda>(t, v). CHR '','' # t @ CHR ''='' # v) tags)"

lemma tags_text_Nil [simp]: "tags_text [] = []"
  by (simp add: tags_text_def)

lemma tags_text_Cons [simp]:
  "tags_text ((t, v) # tags) = CHR '','' # t @ CHR ''='' # v @ tags_text tags"
  by (simp add: tags_text_def)

lemma byte_of_separators [simp]:
  "byte_of_char CHR '','' = 0x2C" "byte_of_char CHR ''='' = 0x3D"
  by (simp_all add: byte_of_char_def)

lemma to_bytes_text: "to_bytes k = as_bytes (sk_metric_name k @ tags_text (sk_tags k))"
proof -
  have "as_bytes (tags_text tags) =
      concat (map (\<lambda>(t, v). 0x2C # as_bytes t @ 0x3D # as_bytes v) tags)" for tags
    by (induction tags) (auto simp: as_bytes_def)
  then show ?thesis by (simp add: to_bytes_def)
qed

lemma str_ok_tags_text: "\<forall>(t, v) \<in> set tags. str_ok t \<and> str_ok v \<Longrightarrow> str_ok (tags_text tags)"
proof (induction tags)
  case Nil
  then show ?case by (simp add: str_ok_def as_bytes_def)
next
  case (Cons e tags)
  have sep: "str_ok [CHR '','']" "str_ok [CHR ''='']"
    by (simp_all add: str_ok_def as_bytes_def utf8_ascii_def)
  obtain t v where e: "e = (t, v)" by fastforce
  have "tags_text (e # tags) = [CHR '',''] @ t @ [CHR ''=''] @ v @ tags_text tags"
    by (simp add: e)
  moreover have "str_ok ([CHR '',''] @ t @ [CHR ''=''] @ v @ tags_text tags)"
    using Cons sep e by (intro str_ok_append) auto
  ultimately show ?case by simp
qed

lemma valid_utf8_to_bytes: "key_type_ok k \<Longrightarrow> valid_utf8 (to_bytes k)"
  using str_ok_append [OF _ str_ok_tags_text, of "sk_metric_name k" "sk_tags k"]
  by (auto simp: key_type_ok_def to_bytes_text str_ok_def)

lemma parse_tags_text:
  assumes "\<forall>(t, v) \<in> set tags.
      CHR '','' \<notin> set t \<and> CHR ''='' \<notin> set t \<and> CHR '','' \<notin> set v"
  shows "tags \<noteq> [] \<Longrightarrow>
         parse_tags (split_on CHR '','' (tl (tags_text tags))) acc
         = Inr (fold (\<lambda>(t, v). bt_insert t v) tags acc)"
  using assms
proof (induction tags arbitrary: acc)
  case Nil
  then show ?case by simp
next
  case (Cons e tags)
  obtain t v where e: "e = (t, v)" by fastforce
  have no: "CHR '','' \<notin> set (t @ CHR ''='' # v)" "CHR ''='' \<notin> set t"
    using Cons.prems e by auto
  show ?case
  proof (cases tags)
    case Nil
    have "split_on CHR '','' (t @ CHR ''='' # v) = [t @ CHR ''='' # v]"
      using no by (intro split_on_no_sep) auto
    with Nil no e show ?thesis by (simp add: split_once_append_sep)
  next
    case (Cons e' tags')
    have "tags_text tags = CHR '','' # tl (tags_text tags)"
      using Cons by (cases e') simp
    then have "tl (tags_text (e # tags)) = (t @ CHR ''='' # v) @ CHR '','' # tl (tags_text tags)"
      using e by simp
    then have "split_on CHR '','' (tl (tags_text (e # tags)))
        = (t @ CHR ''='' # v) # split_on CHR '','' (tl (tags_text tags))"
      using no by (simp only: split_on_append_sep not_False_eq_True)
    with Cons.IH Cons.prems Cons no e show ?thesis by (simp add: split_once_append_sep)
  qed
qed

lemma from_bytes_to_bytes:
  assumes "key_type_ok k" "key_unambiguous k"
  shows "from_bytes (to_bytes k) = Inr k"
proof -
  have clean: "\<forall>(t, v) \<in> set (sk_tags k).
      CHR '','' \<notin> set t \<and> CHR ''='' \<notin> set t \<and> CHR '','' \<notin> set v"
    and metric: "CHR '','' \<notin> set (sk_metric_name k)"
    using assms(2) by (auto simp: key_unambiguous_def)
  have plain: "map char_of_byte (to_bytes k) = sk_metric_name k @ tags_text (sk_tags k)"
    by (simp add: to_bytes_text)
  have "case split_on CHR '','' (sk_metric_name k @ tags_text (sk_tags k)) of
          [] \<Rightarrow> False
        | m # parts \<Rightarrow> m = sk_metric_name k \<and> parse_tags parts [] = Inr (sk_tags k)"
  proof (cases "sk_tags k")
    case Nil
    with metric show ?thesis by (simp add: split_on_no_sep)
  next
    case (Cons e tags)
    then have "tags_text (sk_tags k) = CHR '','' # tl (tags_text (sk_tags k))"
      by (cases e) simp
    then have "split_on CHR '','' (sk_metric_name k @ tags_text (sk_tags k))
        = sk_metric_name k # split_on CHR '','' (tl (tags_text (sk_tags k)))"
      using metric by (metis split_on_append_sep)
    moreover have "parse_tags (split_on CHR '','' (tl (tags_text (sk_tags k)))) []
        = Inr (fold (\<lambda>(t, v). bt_insert t v) (sk_tags k) [])"
      using Cons by (intro parse_tags_text [OF clean]) simp
    moreover have "fold (\<lambda>(t, v). bt_insert t v) (sk_tags k) [] = sk_tags k"
      using assms(1) by (simp add: bt_collect_id key_type_ok_def)
    ultimately show ?thesis by simp
  qed
  then show ?thesis
    using assms(1) by (auto simp: from_bytes_def plain valid_utf8_to_bytes split: list.splits)
qed


lemma to_bytes_inject:
  assumes "key_type_ok a" "key_unambiguous a" "key_type_ok b" "key_unambiguous b"
  shows "to_bytes a = to_bytes b \<longleftrightarrow> a = b"
  using from_bytes_to_bytes [OF assms(1,2)] from_bytes_to_bytes [OF assms(3,4)]
  by (metis sum.inject(2))


subsection \<open>Series identifiers\<close>

text \<open>
  The crate \<open>xxhash_rust\<close> with seed 0: the one-shot hash and the streaming hasher.  What
  the engine relies on is the crate's documented contract that feeding the parts of a
  message one after the other gives the hash of the whole message.
\<close>

record 'h xxh64_crate =
  xxh64 :: "bytes \<Rightarrow> u64"
  hasher_new :: 'h
  hasher_update :: "'h \<Rightarrow> bytes \<Rightarrow> 'h"
  hasher_digest :: "'h \<Rightarrow> u64"

definition xxh64_streaming :: "('h, 'z) xxh64_crate_scheme \<Rightarrow> bool" where
  "xxh64_streaming h \<longleftrightarrow>
     (\<forall>parts. hasher_digest h (foldl (hasher_update h) (hasher_new h) parts) = xxh64 h (concat parts))"

text \<open>\<open>impl From<&SeriesKey> for SeriesId\<close>.\<close>

definition series_id :: "('h, 'z) xxh64_crate_scheme \<Rightarrow> series_key \<Rightarrow> u64" where
  "series_id h k = xxh64 h (to_bytes k)"

definition series_id_from_parts :: "('h, 'z) xxh64_crate_scheme \<Rightarrow> string \<Rightarrow> tag_map \<Rightarrow> u64" where
  "series_id_from_parts h metric tags =
     hasher_digest h
       (foldl (\<lambda>st (k, v).
           hasher_update h
             (hasher_update h (hasher_update h (hasher_update h st [0x2C]) (as_bytes k)) [0x3D])
             (as_bytes v))
         (hasher_update h (hasher_new h) (as_bytes metric)) tags)"

lemma foldl_concat_parts:
  "foldl (\<lambda>st (k, v). upd (upd (upd (upd st [0x2C]) (as_bytes k)) [0x3D]) (as_bytes v)) st tags
   = foldl upd st (concat (map (\<lambda>(k, v). [[0x2C], as_bytes k, [0x3D], as_bytes v]) tags))"
  by (induction tags arbitrary: st) auto

lemma series_id_from_parts_eq:
  assumes "xxh64_streaming h"
  shows "series_id_from_parts h metric tags = series_id h (SeriesKey metric tags)"
proof -
  let ?parts = "as_bytes metric #
    concat (map (\<lambda>(k, v). [[0x2C], as_bytes k, [0x3D], as_bytes v]) tags)"
  have "concat ?parts = to_bytes (SeriesKey metric tags)"
    by (induction tags) (auto simp: to_bytes_def)
  then show ?thesis
    using assms
    by (simp add: series_id_from_parts_def series_id_def foldl_concat_parts xxh64_streaming_def
        flip: foldl_Cons)
qed


subsection \<open>Index records\<close>

record series_chunk_entry =
  sce_chunk_id :: u64
  sce_series_id :: u64
  sce_time_start_ns :: i64
  sce_time_end_ns :: i64
  sce_size_bytes :: usize

record series_chunk_stats =
  scs_min_value :: f64
  scs_max_value :: f64
  scs_null_count :: u64

record chunk_meta =
  cm_file_path :: path
  cm_file_size :: u64

text \<open>\<open>Iterator::reduce\<close>.\<close>

fun reduce :: "('a \<Rightarrow> 'a \<Rightarrow> 'a) \<Rightarrow> 'a list \<Rightarrow> 'a option" where
  "reduce f [] = None"
| "reduce f (x # xs) = Some (foldl f x xs)"

definition from_values :: "f64 list \<Rightarrow> series_chunk_stats option" where
  "from_values values =
     (case reduce f64_min values of
        None \<Rightarrow> None
      | Some mn \<Rightarrow>
          (case reduce f64_max values of
             None \<Rightarrow> None
           | Some mx \<Rightarrow> Some \<lparr>scs_min_value = mn, scs_max_value = mx, scs_null_count = 0\<rparr>))"

datatype value_predicate = GreaterThan f64 | LessThan f64 | Between f64 f64

fun matches :: "value_predicate \<Rightarrow> f64 \<Rightarrow> f64 \<Rightarrow> bool" where
  "matches (GreaterThan t) min_val max_val = f64_lt t max_val"
| "matches (LessThan t) min_val max_val = f64_lt min_val t"
| "matches (Between lo hi) min_val max_val = (f64_le min_val hi \<and> f64_le lo max_val)"

fun satisfies :: "value_predicate \<Rightarrow> f64 \<Rightarrow> bool" where
  "satisfies (GreaterThan t) v = f64_lt t v"
| "satisfies (LessThan t) v = f64_lt v t"
| "satisfies (Between lo hi) v = (f64_le lo v \<and> f64_le v hi)"

lemma f64_lt_max_iff: "f64_lt z (f64_max x y) \<longleftrightarrow> f64_lt z x \<or> f64_lt z y"
  by (auto simp: f64_max_def f64_lt_def)

lemma f64_min_lt_iff: "f64_lt (f64_min x y) z \<longleftrightarrow> f64_lt x z \<or> f64_lt y z"
  by (auto simp: f64_min_def f64_lt_def)

lemma foldl_min_le_iff: "f64_le (foldl f64_min v vs) z \<longleftrightarrow> (\<exists>x \<in> set (v # vs). f64_le x z)"
  by (induction vs arbitrary: v) (auto simp: f64_le_min_iff)

lemma foldl_min_lt_iff: "f64_lt (foldl f64_min v vs) z \<longleftrightarrow> (\<exists>x \<in> set (v # vs). f64_lt x z)"
  by (induction vs arbitrary: v) (auto simp: f64_min_lt_iff)

lemma foldl_le_max_iff: "f64_le z (foldl f64_max v vs) \<longleftrightarrow> (\<exists>x \<in> set (v # vs). f64_le z x)"
  by (induction vs arbitrary: v) (auto simp: f64_le_max_iff)

lemma foldl_lt_max_iff: "f64_lt z (foldl f64_max v vs) \<longleftrightarrow> (\<exists>x \<in> set (v # vs). f64_lt z x)"
  by (induction vs arbitrary: v) (auto simp: f64_lt_max_iff)

lemma from_values_Some_iff: "(\<exists>st. from_values vs = Some st) \<longleftrightarrow> vs \<noteq> []"
  by (cases vs) (auto simp: from_values_def)

text \<open>Statistics never exclude a series that holds a matching value.\<close>

lemma matches_if_satisfies:
  assumes "from_values vs = Some st" "v \<in> set vs" "satisfies p v"
  shows "matches p (scs_min_value st) (scs_max_value st)"
proof -
  obtain x xs where "vs = x # xs" using assms(2) by (cases vs) auto
  with assms show ?thesis
    by (cases p) (auto simp: from_values_def foldl_min_le_iff foldl_min_lt_iff foldl_le_max_iff
        foldl_lt_max_iff)
qed


subsection \<open>Properties\<close>

text \<open>
  The canonical bytes of a series key decode to the key, whenever the metric name
  holds no comma, the tag names hold neither comma nor equals sign and the tag values hold
  no comma.
\<close>

theorem series_key_roundtrip:
  assumes "key_type_ok k" "key_unambiguous k"
  shows "from_bytes (to_bytes k) = Inr k"
  using assms by (rule from_bytes_to_bytes)

theorem series_key_roundtrip_witness:
  "from_bytes (to_bytes (SeriesKey ''cpu'' [(''host'', ''a=1''), (''zone'', [])]))
   = Inr (SeriesKey ''cpu'' [(''host'', ''a=1''), (''zone'', [])])"
  by (rule series_key_roundtrip)
    (simp_all add: key_type_ok_def key_unambiguous_def str_ok_def as_bytes_def byte_of_char_def
      utf8_ascii_def bt_inv_def)

text \<open>
  C37.  Outside that set the bytes are ambiguous: two different well-typed series have the
  same canonical bytes, so for every hash function they share one \<open>SeriesId\<close>, and decoding
  gives the other series back.
\<close>

theorem series_key_ambiguous:
  "\<exists>a b. key_type_ok a \<and> key_type_ok b \<and> a \<noteq> b \<and>
     (\<forall>h :: bytes xxh64_crate. series_id h a = series_id h b) \<and> from_bytes (to_bytes a) = Inr b"
proof -
  let ?a = "SeriesKey ''m,k=v'' []" and ?b = "SeriesKey ''m'' [(''k'', ''v'')]"
  have ok: "key_type_ok ?a" "key_type_ok ?b" "key_unambiguous ?b"
    by (simp_all add: key_type_ok_def key_unambiguous_def str_ok_def as_bytes_def byte_of_char_def
        utf8_ascii_def)
  have same: "to_bytes ?a = to_bytes ?b" by (simp add: to_bytes_text)
  then have "from_bytes (to_bytes ?a) = Inr ?b"
    using from_bytes_to_bytes [OF ok(2,3)] by simp
  with ok same show ?thesis by (intro exI [of _ ?a] exI [of _ ?b]) (simp add: series_id_def)
qed

text \<open>
  The allocation-free \<open>series_id_from_parts\<close>, which routes points to shards, computes the
  identifier the index uses.
\<close>

theorem series_id_from_parts_correct:
  assumes "xxh64_streaming h"
  shows "series_id_from_parts h metric tags = series_id h (SeriesKey metric tags)"
  using assms by (rule series_id_from_parts_eq)

text \<open>A hasher that collects its input, with a message's length as its hash.\<close>

definition length_hasher :: "bytes xxh64_crate" where
  "length_hasher =
     \<lparr>xxh64 = (\<lambda>bs. word_of_nat (length bs)), hasher_new = [],
      hasher_update = (@), hasher_digest = (\<lambda>bs. word_of_nat (length bs))\<rparr>"

lemma length_hasher_streaming: "xxh64_streaming length_hasher"
proof -
  have "foldl (@) acc parts = acc @ concat parts" for acc and parts :: "bytes list"
    by (induction parts arbitrary: acc) auto
  then show ?thesis by (simp add: xxh64_streaming_def length_hasher_def)
qed

theorem series_id_from_parts_correct_witness:
  "series_id_from_parts length_hasher ''cpu'' [(''host'', ''a'')] = 10"
  using series_id_from_parts_correct [OF length_hasher_streaming, of "''cpu''" "[(''host'', ''a'')]"]
  by (simp add: series_id_def length_hasher_def to_bytes_def)

text \<open>
  C38.  Predicate pushdown is sound: statistics computed from the values of a series never
  exclude a predicate that one of those values satisfies, NaN values included.
\<close>

theorem stats_pushdown_sound:
  assumes "from_values vs = Some st" "v \<in> set vs" "satisfies p v"
  shows "matches p (scs_min_value st) (scs_max_value st)"
  using assms by (rule matches_if_satisfies)

text \<open>The values 1.0, NaN and 2.0, and the predicate \<open>GreaterThan(1.0)\<close>.\<close>

theorem stats_pushdown_sound_witness:
  "\<exists>st. from_values [F64 0x3FF0000000000000, F64 0x7FF8000000000000, F64 0x4000000000000000]
          = Some st \<and>
        matches (GreaterThan (F64 0x3FF0000000000000)) (scs_min_value st) (scs_max_value st)"
proof -
  let ?vs = "[F64 0x3FF0000000000000, F64 0x7FF8000000000000, F64 0x4000000000000000]"
  obtain st where st: "from_values ?vs = Some st"
    using from_values_Some_iff [of ?vs] by auto
  have "satisfies (GreaterThan (F64 0x3FF0000000000000)) (F64 0x4000000000000000)"
    by (simp add: f64_lt_def f64_is_nan_def f64_key_def Let_def)
  then have "matches (GreaterThan (F64 0x3FF0000000000000)) (scs_min_value st) (scs_max_value st)"
    by (rule stats_pushdown_sound [OF st, rotated]) simp
  with st show ?thesis by blast
qed

end
