(* ===== verification/Paths.thy ===== *)
theory Paths
  imports Types
begin

section \<open>File names and the file system\<close>

text \<open>
  File names built by \<open>format!\<close> with zero-padded numbers, and the file system as a map from
  paths to contents.  Every I/O call takes the outcome the environment gives it, so that the
  error paths of the code are branches of the model; a failed write may leave any prefix of
  the data behind.
\<close>

subsection \<open>Zero-padded numbers\<close>

text \<open>\<open>{:0n}\<close> (base 10) and \<open>{:0nx}\<close> (base 16) of a number that fits in \<open>n\<close> digits.\<close>

definition digit_char :: "nat \<Rightarrow> char" where
  "digit_char d = char_of (if d < 10 then 48 + d else 87 + d)"

fun fixed_digits :: "nat \<Rightarrow> nat \<Rightarrow> nat \<Rightarrow> string" where
  "fixed_digits b 0 x = []"
| "fixed_digits b (Suc n) x = fixed_digits b n (x div b) @ [digit_char (x mod b)]"

lemma length_fixed_digits [simp]: "length (fixed_digits b n x) = n"
  by (induction n arbitrary: x) auto

lemma digit_char_less: "d < 16 \<Longrightarrow> e < 16 \<Longrightarrow> digit_char d < digit_char e \<longleftrightarrow> d < e"
  by (auto simp: digit_char_def less_char_def)

lemma digit_char_inject: "d < 16 \<Longrightarrow> e < 16 \<Longrightarrow> digit_char d = digit_char e \<longleftrightarrow> d = e"
  by (metis digit_char_less less_irrefl nat_neq_iff)

lemma list_less_snoc:
  fixes xs ys :: "'a::linorder list"
  shows "length xs = length ys \<Longrightarrow> xs @ [a] < ys @ [b] \<longleftrightarrow> xs < ys \<or> (xs = ys \<and> a < b)"
  by (induction xs ys rule: list_induct2) auto

text \<open>Padding makes the order of the names the order of the numbers.\<close>

lemma fixed_digits_less:
  assumes "2 \<le> b" "b \<le> 16" "x < b ^ n" "y < b ^ n"
  shows "fixed_digits b n x < fixed_digits b n y \<longleftrightarrow> x < y"
    and "fixed_digits b n x = fixed_digits b n y \<longleftrightarrow> x = y"
proof -
  have "(fixed_digits b n x < fixed_digits b n y \<longleftrightarrow> x < y) \<and>
        (fixed_digits b n x = fixed_digits b n y \<longleftrightarrow> x = y)"
    using assms(3,4)
  proof (induction n arbitrary: x y)
    case 0
    then show ?case by simp
  next
    case (Suc n)
    have div: "x div b < b ^ n" "y div b < b ^ n"
      using Suc.prems by (auto simp: less_mult_imp_div_less mult.commute)
    have m: "x mod b < 16" "y mod b < 16"
      using assms(1,2) by (meson less_le_trans mod_less_divisor less_le_trans zero_less_numeral)+
    have xy: "x = b * (x div b) + x mod b" "y = b * (y div b) + y mod b" by simp_all
    have "x < y \<longleftrightarrow> x div b < y div b \<or> (x div b = y div b \<and> x mod b < y mod b)"
    proof (cases "x div b" "y div b" rule: linorder_cases)
      case less
      then have "x < y" by (metis div_le_mono leD leI)
      with less show ?thesis by simp
    next
      case equal
      have "x < y \<longleftrightarrow> b * (x div b) + x mod b < b * (y div b) + y mod b" by simp
      also have "\<dots> \<longleftrightarrow> x mod b < y mod b" by (simp only: equal add_less_cancel_left)
      finally show ?thesis using equal by simp
    next
      case greater
      then have "y < x" by (metis div_le_mono leD leI)
      with greater show ?thesis by simp
    qed
    moreover have "x = y \<longleftrightarrow> x div b = y div b \<and> x mod b = y mod b"
      using xy by metis
    ultimately show ?case
      using Suc.IH [OF div] m
      by (simp add: list_less_snoc digit_char_less digit_char_inject)
  qed
  then show "fixed_digits b n x < fixed_digits b n y \<longleftrightarrow> x < y"
    and "fixed_digits b n x = fixed_digits b n y \<longleftrightarrow> x = y" by blast+
qed

text \<open>\<open>str::parse::<u64>\<close>: an optional \<open>+\<close>, then decimal digits, below \<open>2 ^ 64\<close>.\<close>

definition digit_value :: "char \<Rightarrow> nat option" where
  "digit_value ch =
     (if CHR ''0'' \<le> ch \<and> ch \<le> CHR ''9'' then Some (of_char ch - 48) else None)"

fun digits_value :: "nat \<Rightarrow> string \<Rightarrow> nat option" where
  "digits_value acc [] = Some acc"
| "digits_value acc (ch # s) =
     (case digit_value ch of None \<Rightarrow> None | Some d \<Rightarrow> digits_value (acc * 10 + d) s)"

definition parse_u64 :: "string \<Rightarrow> u64 option" where
  "parse_u64 s =
     (let digits = (case s of c # rest \<Rightarrow> if c = CHR ''+'' then rest else s | [] \<Rightarrow> [])
      in if digits = [] then None
         else case digits_value 0 digits of
                None \<Rightarrow> None
              | Some n \<Rightarrow> if n < 2 ^ 64 then Some (word_of_nat n) else None)"

lemma digit_value_digit_char: "d < 10 \<Longrightarrow> digit_value (digit_char d) = Some d"
  by (simp add: digit_value_def digit_char_def less_eq_char_def)

lemma digits_value_append:
  "digits_value acc (s @ t) = (case digits_value acc s of None \<Rightarrow> None | Some a \<Rightarrow> digits_value a t)"
  by (induction s arbitrary: acc) (auto split: option.splits)

lemma digits_value_fixed_digits:
  "x < 10 ^ n \<Longrightarrow> digits_value acc (fixed_digits 10 n x) = Some (acc * 10 ^ n + x)"
proof (induction n arbitrary: x)
  case 0
  then show ?case by simp
next
  case (Suc n)
  have "x div 10 < 10 ^ n" using Suc.prems by (simp add: less_mult_imp_div_less)
  from Suc.IH [OF this] show ?case
    by (simp add: digits_value_append digit_value_digit_char algebra_simps)
qed

lemma parse_u64_fixed_digits:
  assumes "x < 2 ^ 64" "x < 10 ^ n" "0 < n"
  shows "parse_u64 (fixed_digits 10 n x) = Some (word_of_nat x)"
proof -
  obtain c s where cs: "fixed_digits 10 n x = c # s"
    using assms(3) by (metis length_fixed_digits length_greater_0_conv list.exhaust)
  have v: "digits_value 0 (c # s) = Some x"
    using digits_value_fixed_digits [OF assms(2), of 0] by (simp add: cs)
  then have "digit_value c \<noteq> None" by (auto split: option.splits)
  then have "c \<noteq> CHR ''+''" by (auto simp: digit_value_def less_eq_char_def)
  then show ?thesis
    using v assms(1) by (simp add: parse_u64_def cs Let_def)
qed

text \<open>\<open>Path::join\<close> with a plain file name.\<close>

definition join :: "path \<Rightarrow> string \<Rightarrow> path" where
  "join dir name = dir @ [name]"

lemma join_inject [simp]: "join d n = join d' n' \<longleftrightarrow> d = d' \<and> n = n'"
  by (simp add: join_def)

text \<open>\<open>Path::with_extension\<close>: the file name up to its last dot, unless that dot is first.\<close>

definition file_stem :: "string \<Rightarrow> string" where
  "file_stem name =
     (case dropWhile (\<lambda>ch. ch \<noteq> CHR ''.'') (rev name) of
        [] \<Rightarrow> name
      | _ # before \<Rightarrow> if before = [] then name else rev before)"

definition with_extension :: "path \<Rightarrow> string \<Rightarrow> path" where
  "with_extension p ext =
     (if p = [] then p else butlast p @ [file_stem (last p) @ ''.'' @ ext])"

text \<open>\<open>Path::extension\<close> of a file name.\<close>

definition path_extension :: "string \<Rightarrow> string option" where
  "path_extension name =
     (case dropWhile (\<lambda>ch. ch \<noteq> CHR ''.'') (rev name) of
        [] \<Rightarrow> None
      | _ # before \<Rightarrow>
          if before = [] then None
          else Some (rev (takeWhile (\<lambda>ch. ch \<noteq> CHR ''.'') (rev name))))"


subsection \<open>The file system\<close>

type_synonym fs = "path \<rightharpoonup> bytes"

definition read_file :: "fs \<Rightarrow> path \<Rightarrow> bytes result" where
  "read_file files p = (case files p of None \<Rightarrow> Inl (FileNotFound p) | Some bs \<Rightarrow> Inr bs)"

text \<open>
  Opening with \<open>create(true).append(true)\<close>, and appending through an open handle. Bytes
  written through the handle of a file that was deleted meanwhile are in no file.
\<close>

definition fs_open_append :: "path \<Rightarrow> fs \<Rightarrow> fs" where
  "fs_open_append p files = (case files p of None \<Rightarrow> files(p \<mapsto> []) | Some _ \<Rightarrow> files)"

definition fs_append :: "path \<Rightarrow> bytes \<Rightarrow> fs \<Rightarrow> fs" where
  "fs_append p bs files = (case files p of None \<Rightarrow> files | Some old \<Rightarrow> files(p \<mapsto> old @ bs))"

text \<open>\<open>read_dir\<close> yields the names in a directory, in any order.\<close>

definition lists_dir :: "fs \<Rightarrow> path \<Rightarrow> string list \<Rightarrow> bool" where
  "lists_dir files dir names \<longleftrightarrow>
     distinct names \<and> set names = {n. files (join dir n) \<noteq> None}"

text \<open>What the environment does to a \<open>write_all\<close> followed by \<open>sync_all\<close>.\<close>

datatype write_outcome =
    WriteOk
  | WriteFail nat  \<comment> \<open>an error, with that many bytes of the data in the file\<close>

end
