(* ===== verification/Chunk_Format.thy ===== *)
theory Chunk_Format
  imports Paths
begin

section \<open>Chunk file format (chunk/format.rs)\<close>

text \<open>
  The constants of the \<open>.mcs\<close> layout, the fixed header, delta encoding of timestamps and the
  conversion of columns to and from little-endian bytes.
\<close>

subsection \<open>Layout constants\<close>

definition MAGIC :: u32 where
  "MAGIC = 0x4D494349"

definition VERSION :: byte where
  "VERSION = 1"

definition HEADER_SIZE :: nat where
  [simp]: "HEADER_SIZE = 48"

definition U32_SIZE :: nat where
  [simp]: "U32_SIZE = 4"

definition U64_SIZE :: nat where
  [simp]: "U64_SIZE = 8"

definition I64_SIZE :: nat where
  [simp]: "I64_SIZE = 8"

definition F64_SIZE :: nat where
  [simp]: "F64_SIZE = 8"

definition DIR_ENTRY_FIXED_SIZE :: nat where
  [simp]: "DIR_ENTRY_FIXED_SIZE = U32_SIZE + U32_SIZE + U64_SIZE + U64_SIZE + F64_SIZE + F64_SIZE"

definition COL_LEN_SIZE :: nat where
  [simp]: "COL_LEN_SIZE = U32_SIZE"

definition FOOTER_OFFSET_SIZE :: nat where
  [simp]: "FOOTER_OFFSET_SIZE = U64_SIZE"

definition CHECKSUM_SIZE :: nat where
  [simp]: "CHECKSUM_SIZE = U32_SIZE"

definition FOOTER_TAIL_SIZE :: nat where
  [simp]: "FOOTER_TAIL_SIZE = FOOTER_OFFSET_SIZE + CHECKSUM_SIZE"

definition BLOOM_SIP_KEYS_SIZE :: nat where
  [simp]: "BLOOM_SIP_KEYS_SIZE = 4 * U64_SIZE"

definition BLOOM_HEADER_SIZE :: nat where
  [simp]: "BLOOM_HEADER_SIZE = U64_SIZE + U32_SIZE + BLOOM_SIP_KEYS_SIZE + U32_SIZE"


subsection \<open>Header\<close>

record chunk_header =
  ch_magic :: u32
  ch_version :: byte
  ch_padding :: bytes
  ch_chunk_id :: u64
  ch_time_start_ns :: i64
  ch_time_end_ns :: i64
  ch_series_count :: u32
  ch_total_entries :: u32
  ch_col_data_offset :: u64

definition header_to_bytes :: "chunk_header \<Rightarrow> bytes" where
  "header_to_bytes h =
     u32_to_le_bytes (ch_magic h) @ [ch_version h] @ ch_padding h @
     u64_to_le_bytes (ch_chunk_id h) @
     i64_to_le_bytes (ch_time_start_ns h) @ i64_to_le_bytes (ch_time_end_ns h) @
     u32_to_le_bytes (ch_series_count h) @ u32_to_le_bytes (ch_total_entries h) @
     u64_to_le_bytes (ch_col_data_offset h)"

text \<open>\<open>_padding : [u8; 3]\<close>.\<close>

definition header_type_ok :: "chunk_header \<Rightarrow> bool" where
  "header_type_ok h \<longleftrightarrow> length (ch_padding h) = 3"

lemma length_header_to_bytes: "header_type_ok h \<Longrightarrow> length (header_to_bytes h) = HEADER_SIZE"
  by (simp add: header_to_bytes_def header_type_ok_def)

text \<open>\<open>now\<close> is the clock, in nanoseconds since the Unix epoch.\<close>

definition new_chunk_id :: "nat \<Rightarrow> u64" where
  "new_chunk_id now = word_of_nat now"


subsection \<open>Delta encoding\<close>

fun delta_from :: "i64 \<Rightarrow> i64 list \<Rightarrow> i64 list" where
  "delta_from prev [] = []"
| "delta_from prev (t # ts) = i64_sub t prev # delta_from t ts"

definition delta_encode :: "i64 list \<Rightarrow> i64 list" where
  "delta_encode input = (case input of [] \<Rightarrow> [] | t # ts \<Rightarrow> t # delta_from t ts)"

fun undelta_from :: "i64 \<Rightarrow> i64 list \<Rightarrow> i64 list" where
  "undelta_from prev [] = []"
| "undelta_from prev (d # ds) = i64_add prev d # undelta_from (i64_add prev d) ds"

definition delta_decode :: "i64 list \<Rightarrow> i64 list" where
  "delta_decode deltas = (case deltas of [] \<Rightarrow> [] | d # ds \<Rightarrow> d # undelta_from d ds)"

lemma undelta_delta: "undelta_from prev (delta_from prev ts) = ts"
  by (induction ts arbitrary: prev) auto

lemma delta_decode_encode [simp]: "delta_decode (delta_encode ts) = ts"
  by (cases ts) (simp_all add: delta_encode_def delta_decode_def undelta_delta)

lemma length_delta_from [simp]: "length (delta_from prev ts) = length ts"
  by (induction ts arbitrary: prev) auto

lemma length_delta_encode [simp]: "length (delta_encode ts) = length ts"
  by (cases ts) (simp_all add: delta_encode_def)


subsection \<open>Columns as bytes\<close>

definition i64_slice_to_bytes :: "i64 list \<Rightarrow> bytes" where
  "i64_slice_to_bytes values = concat (map i64_to_le_bytes values)"

definition f64_slice_to_bytes :: "f64 list \<Rightarrow> bytes" where
  "f64_slice_to_bytes values = concat (map f64_to_le_bytes values)"

text \<open>\<open>slice::chunks_exact(8)\<close>: a shorter rest is dropped.\<close>

function chunks_exact8 :: "bytes \<Rightarrow> bytes list" where
  "chunks_exact8 bs = (if length bs < 8 then [] else take 8 bs # chunks_exact8 (drop 8 bs))"
  by pat_completeness auto
termination
  by (relation "measure length") auto

declare chunks_exact8.simps [simp del]

definition bytes_to_i64_slice :: "bytes \<Rightarrow> i64 list result" where
  "bytes_to_i64_slice bs = collect_result i64_from_le_bytes (chunks_exact8 bs)"

definition bytes_to_f64_slice :: "bytes \<Rightarrow> f64 list result" where
  "bytes_to_f64_slice bs = collect_result f64_from_le_bytes (chunks_exact8 bs)"

lemma chunks_exact8_concat: "\<forall>x \<in> set xs. length x = 8 \<Longrightarrow> chunks_exact8 (concat xs) = xs"
proof (induction xs)
  case Nil
  then show ?case by (simp add: chunks_exact8.simps)
next
  case (Cons x xs)
  then show ?case by (subst chunks_exact8.simps) simp
qed

lemma bytes_to_i64_slice_roundtrip [simp, bytes_simps]:
  "bytes_to_i64_slice (i64_slice_to_bytes ts) = Inr ts"
proof -
  have "collect_result i64_from_le_bytes (map i64_to_le_bytes ts) = Inr ts"
    by (induction ts) auto
  then show ?thesis
    by (simp add: bytes_to_i64_slice_def i64_slice_to_bytes_def chunks_exact8_concat)
qed

lemma bytes_to_f64_slice_roundtrip [simp, bytes_simps]:
  "bytes_to_f64_slice (f64_slice_to_bytes vs) = Inr vs"
proof -
  have "collect_result f64_from_le_bytes (map f64_to_le_bytes vs) = Inr vs"
    by (induction vs) auto
  then show ?thesis
    by (simp add: bytes_to_f64_slice_def f64_slice_to_bytes_def chunks_exact8_concat)
qed

lemma length_i64_slice_to_bytes [simp, bytes_simps]:
  "length (i64_slice_to_bytes ts) = 8 * length ts"
  by (induction ts) (auto simp: i64_slice_to_bytes_def)

lemma length_f64_slice_to_bytes [simp, bytes_simps]:
  "length (f64_slice_to_bytes vs) = 8 * length vs"
  by (induction vs) (auto simp: f64_slice_to_bytes_def)

text \<open>Decoding never fails, whatever the bytes: every piece has the width of a value.\<close>

lemma bytes_to_i64_slice_total: "\<exists>ts. bytes_to_i64_slice bs = Inr ts \<and> length ts = length bs div 8"
proof (induction bs rule: chunks_exact8.induct)
  case (1 bs)
  show ?case
  proof (cases "length bs < 8")
    case True
    then show ?thesis by (simp add: bytes_to_i64_slice_def chunks_exact8.simps)
  next
    case False
    with "1.IH" obtain ts where "bytes_to_i64_slice (drop 8 bs) = Inr ts"
      and "length ts = (length bs - 8) div 8" by auto
    with False show ?thesis
      by (subst bytes_to_i64_slice_def, subst chunks_exact8.simps)
        (auto simp: bytes_to_i64_slice_def i64_from_le_bytes_def u64_from_le_bytes_def le_div_geq)
  qed
qed


subsection \<open>Properties\<close>

text \<open>
  C39.  Delta encoding loses nothing: encoding any list of timestamps to bytes and decoding
  the bytes gives the list back, even where a difference overflows \<open>i64\<close> and wraps.
\<close>

theorem timestamp_column_roundtrip:
  "rbind (bytes_to_i64_slice (i64_slice_to_bytes (delta_encode ts))) (\<lambda>ds. Inr (delta_decode ds))
   = Inr ts"
  by simp

end
