(* ===== verification/Memtable.thy ===== *)
theory Memtable
  imports Types
begin

section \<open>Memtable (memtable/mod.rs)\<close>

text \<open>
  The in-memory write buffer: per series a vector of points sorted by timestamp, with a
  running estimate of the bytes held.  \<open>Memtable::insert\<close> places a point by binary search
  and overwrites an equal timestamp.  The contract \<open>point_store\<close> says that a store behaves
  as a map from (series, timestamp) to value; the compaction merge meets it too.
\<close>

subsection \<open>The contract of a store of points\<close>

text \<open>The value the last of a sequence of writes gave to a series at a timestamp.\<close>

definition last_write :: "('k \<times> 't \<times> 'v) list \<Rightarrow> 'k \<Rightarrow> 't \<Rightarrow> 'v option" where
  "last_write ws k t = map_of (rev (map (\<lambda>(k, t, v). ((k, t), v)) ws)) (k, t)"

lemma last_write_Nil [simp]: "last_write [] k t = None"
  by (simp add: last_write_def)

lemma last_write_snoc:
  "last_write (ws @ [(k, t, v)]) k' t' =
     (if k' = k \<and> t' = t then Some v else last_write ws k' t')"
  by (simp add: last_write_def)

lemma last_write_append:
  "last_write (ws @ ws') k t =
     (case last_write ws' k t of Some v \<Rightarrow> Some v | None \<Rightarrow> last_write ws k t)"
  by (simp add: last_write_def map_add_def split: option.splits)

lemma last_write_Some_mem: "last_write ws k t = Some v \<Longrightarrow> (k, t, v) \<in> set ws"
  by (auto simp: last_write_def dest!: map_of_SomeD)

locale point_store =
  fixes put :: "'k \<Rightarrow> 't \<Rightarrow> 'v \<Rightarrow> 's \<Rightarrow> 's"
    and get :: "'s \<Rightarrow> 'k \<Rightarrow> 't \<Rightarrow> 'v option"
    and invar :: "'s \<Rightarrow> bool"
  assumes invar_put: "invar s \<Longrightarrow> invar (put k t v s)"
    and get_put: "invar s \<Longrightarrow>
      get (put k t v s) k' t' = (if k' = k \<and> t' = t then Some v else get s k' t')"
begin

lemma invar_puts: "invar s \<Longrightarrow> invar (fold (\<lambda>(k, t, v). put k t v) ws s)"
  by (induction ws arbitrary: s) (auto intro: invar_put)

lemma get_puts:
  "invar s \<Longrightarrow> get (fold (\<lambda>(k, t, v). put k t v) ws s) k t =
     (case last_write ws k t of Some v \<Rightarrow> Some v | None \<Rightarrow> get s k t)"
proof (induction ws rule: rev_induct)
  case Nil
  then show ?case by simp
next
  case (snoc w ws)
  obtain k' t' v where w: "w = (k', t', v)" by (cases w) auto
  have "invar (fold (\<lambda>(k, t, v). put k t v) ws s)"
    using snoc.prems by (rule invar_puts)
  then show ?case
    using snoc by (simp add: w get_put last_write_snoc)
qed

end


subsection \<open>Points per series\<close>

type_synonym points = "(i64 \<times> f64) list"
type_synonym series_map = "(series_key \<times> points) list"

definition sm_get :: "series_map \<Rightarrow> series_key \<Rightarrow> i64 \<Rightarrow> f64 option" where
  "sm_get m k t = (case map_of m k of None \<Rightarrow> None | Some vec \<Rightarrow> map_of vec t)"

text \<open>Keys ascending, and in every series the timestamps ascending and at least one point.\<close>

definition sm_inv :: "series_map \<Rightarrow> bool" where
  "sm_inv m \<longleftrightarrow> bt_inv m \<and> (\<forall>(k, vec) \<in> set m. bt_inv vec \<and> vec \<noteq> [])"

definition sm_vec :: "series_map \<Rightarrow> series_key \<Rightarrow> points" where
  "sm_vec m k = (case map_of m k of None \<Rightarrow> [] | Some vec \<Rightarrow> vec)"

lemma sm_inv_vec: "sm_inv m \<Longrightarrow> bt_inv (sm_vec m k)"
  by (auto simp: sm_inv_def sm_vec_def split: option.splits dest!: map_of_SomeD)

lemma sm_get_vec: "sm_get m k t = map_of (sm_vec m k) t"
  by (simp add: sm_get_def sm_vec_def split: option.splits)

lemma set_bt_insert_subset: "set (bt_insert k v m) \<subseteq> insert (k, v) (set m)"
  by (induction m) auto

lemma sm_inv_insert:
  assumes "sm_inv m" "bt_inv vec" "vec \<noteq> []"
  shows "sm_inv (bt_insert k vec m)"
  using assms set_bt_insert_subset [of k vec m] by (fastforce simp: sm_inv_def bt_inv_insert)

lemma sm_get_insert:
  assumes "sm_inv m"
  shows "sm_get (bt_insert k (bt_insert t v (sm_vec m k)) m) k' t' =
           (if k' = k \<and> t' = t then Some v else sm_get m k' t')"
  by (auto simp: sm_get_def sm_vec_def map_of_bt_insert split: option.splits)

lemma bt_insert_not_Nil [simp]: "bt_insert k v m \<noteq> []"
  by (cases m) auto


subsection \<open>Memtable operations\<close>

record memtable =
  mt_entries :: series_map
  mt_size_bytes :: usize
  mt_flush_threshold :: usize
  mt_entry_count :: u64

definition mt_new :: "usize \<Rightarrow> memtable" where
  "mt_new threshold =
     \<lparr>mt_entries = [], mt_size_bytes = 0, mt_flush_threshold = threshold, mt_entry_count = 0\<rparr>"

text \<open>The heap bytes of a key's strings, and \<open>U64_SIZE\<close> for the tree node.\<close>

definition key_weight :: "series_key \<Rightarrow> nat" where
  "key_weight k =
     length (sk_metric_name k)
     + sum_list (map (\<lambda>(t, v). length t + length v) (sk_tags k)) + 8"

definition mt_insert :: "data_point \<Rightarrow> memtable \<Rightarrow> memtable" where
  "mt_insert point m =
     (let key = SeriesKey (dp_metric_name point) (dp_tags point);
          is_new = (map_of (mt_entries m) key = None);
          vec = (case map_of (mt_entries m) key of None \<Rightarrow> [] | Some vec \<Rightarrow> vec)
      in case binary_search (map fst vec) (dp_timestamp_ns point) of
           Inr pos \<Rightarrow>
             m\<lparr>mt_entries :=
                 bt_insert key (vec[pos := (fst (vec ! pos), dp_value point)]) (mt_entries m)\<rparr>
         | Inl pos \<Rightarrow>
             m\<lparr>mt_entries :=
                 bt_insert key (vec_insert pos (dp_timestamp_ns point, dp_value point) vec)
                   (mt_entries m),
               mt_size_bytes := mt_size_bytes m + 16 * 2
                 + (if is_new then word_of_nat (key_weight key) else 0),
               mt_entry_count := mt_entry_count m + 1\<rparr>)"

definition mt_should_flush :: "memtable \<Rightarrow> bool" where
  "mt_should_flush m \<longleftrightarrow> mt_flush_threshold m \<le> mt_size_bytes m"

definition mt_is_empty :: "memtable \<Rightarrow> bool" where
  "mt_is_empty m \<longleftrightarrow> mt_entries m = []"

definition mt_drain :: "memtable \<Rightarrow> memtable \<times> series_map" where
  "mt_drain m =
     (m\<lparr>mt_size_bytes := 0, mt_entry_count := 0, mt_entries := []\<rparr>, mt_entries m)"

definition mt_resolve_series :: "memtable \<Rightarrow> string \<Rightarrow> (string \<times> string) list \<Rightarrow> series_key list" where
  "mt_resolve_series m metric tag_filters =
     (if tag_filters = []
      then map fst (filter (\<lambda>(sk, _). sk_metric_name sk = metric) (mt_entries m))
      else map fst
        (filter (\<lambda>(sk, _).
             list_all (\<lambda>(tag_key, tag_val).
               case map_of (sk_tags sk) tag_key of
                 None \<Rightarrow> False
               | Some val \<Rightarrow> val = tag_val) tag_filters)
          (filter (\<lambda>(sk, _). sk_metric_name sk = metric) (mt_entries m))))"

definition point_of :: "series_key \<Rightarrow> i64 \<times> f64 \<Rightarrow> data_point" where
  "point_of k p =
     \<lparr>dp_metric_name = sk_metric_name k, dp_tags = sk_tags k,
      dp_timestamp_ns = fst p, dp_value = snd p\<rparr>"

definition mt_read_series ::
    "memtable \<Rightarrow> series_key \<Rightarrow> i64 \<Rightarrow> i64 \<Rightarrow> value_predicate option \<Rightarrow> data_point list" where
  "mt_read_series m k time_start_ns time_end_ns predicate =
     (case map_of (mt_entries m) k of
        None \<Rightarrow> []
      | Some time_map \<Rightarrow>
          map (point_of k)
            (filter (\<lambda>(_, val). case predicate of None \<Rightarrow> True | Some p \<Rightarrow> satisfies p val)
              (filter (\<lambda>(ts, _). time_start_ns \<le> ts \<and> ts \<le> time_end_ns) time_map)))"

text \<open>\<open>(series_id & (shards as u64 - 1)) as usize\<close>.\<close>

definition shard_index :: "('h, 'z) xxh64_crate_scheme \<Rightarrow> data_point \<Rightarrow> usize \<Rightarrow> usize" where
  "shard_index h point shards =
     and (series_id_from_parts h (dp_metric_name point) (dp_tags point)) (shards - 1)"


subsection \<open>Insertion refines map update\<close>

abbreviation dp_key :: "data_point \<Rightarrow> series_key" where
  "dp_key p \<equiv> SeriesKey (dp_metric_name p) (dp_tags p)"

text \<open>Both arms of the match store the same vector: insertion into a sorted map.\<close>

lemma mt_entries_insert:
  assumes "sm_inv (mt_entries m)"
  shows "mt_entries (mt_insert p m) =
    bt_insert (dp_key p)
      (bt_insert (dp_timestamp_ns p) (dp_value p) (sm_vec (mt_entries m) (dp_key p)))
      (mt_entries m)"
proof -
  let ?vec = "sm_vec (mt_entries m) (dp_key p)"
  have inv: "bt_inv ?vec" using assms by (rule sm_inv_vec)
  show ?thesis
  proof (cases "binary_search (map fst ?vec) (dp_timestamp_ns p)")
    case (Inl pos)
    with vec_insert_bt_insert(1) [OF inv Inl] show ?thesis
      by (simp add: mt_insert_def Let_def flip: sm_vec_def)
  next
    case (Inr pos)
    with vec_update_bt_insert(1) [OF inv Inr] show ?thesis
      by (simp add: mt_insert_def Let_def flip: sm_vec_def)
  qed
qed

lemma mt_flush_threshold_insert [simp]: "mt_flush_threshold (mt_insert p m) = mt_flush_threshold m"
  by (simp add: mt_insert_def Let_def split: sum.splits)

text \<open>The bytes and points a map of series holds.\<close>

definition sm_weight :: "series_map \<Rightarrow> nat" where
  "sm_weight m = sum_list (map (\<lambda>(k, vec). 32 * length vec + key_weight k) m)"

definition sm_count :: "series_map \<Rightarrow> nat" where
  "sm_count m = sum_list (map (\<lambda>(k, vec). length vec) m)"

definition mt_inv :: "memtable \<Rightarrow> bool" where
  "mt_inv m \<longleftrightarrow>
     sm_inv (mt_entries m) \<and>
     mt_size_bytes m = word_of_nat (sm_weight (mt_entries m)) \<and>
     mt_entry_count m = word_of_nat (sm_count (mt_entries m))"

lemma sum_list_bt_insert_new:
  fixes f :: "'k::linorder \<times> 'v \<Rightarrow> nat"
  shows "map_of m k = None \<Longrightarrow>
    sum_list (map f (bt_insert k v m)) = f (k, v) + sum_list (map f m)"
  by (induction m) (auto split: if_splits)

lemma sum_list_bt_insert_old:
  fixes f :: "'k::linorder \<times> 'v \<Rightarrow> nat"
  shows "bt_inv m \<Longrightarrow> map_of m k = Some v0 \<Longrightarrow>
    sum_list (map f (bt_insert k v m)) + f (k, v0) = f (k, v) + sum_list (map f m)"
proof (induction m)
  case Nil
  then show ?case by simp
next
  case (Cons e m)
  show ?case
  proof (cases "fst e = k")
    case True
    with Cons.prems have "e = (k, v0)" by (cases e) auto
    then show ?thesis by simp
  next
    case False
    with Cons.prems have m: "map_of m k = Some v0" by (cases e) auto
    then have "fst e < k"
      using Cons.prems by (force dest: map_of_SomeD)
    with Cons m show ?thesis by simp
  qed
qed

lemma length_bt_insert:
  "bt_inv m \<Longrightarrow> length (bt_insert k v m) = (if map_of m k = None then Suc (length m) else length m)"
  using sum_list_bt_insert_new [of m k "\<lambda>_. 1" v] sum_list_bt_insert_old [of m k _ "\<lambda>_. 1" v]
  by (cases "map_of m k") (simp_all add: sum_list_triv)


lemma sm_weight_insert:
  assumes "sm_inv m" "map_of (sm_vec m k) t = None"
  shows "sm_weight (bt_insert k (bt_insert t v (sm_vec m k)) m)
         = sm_weight m + 32 + (if map_of m k = None then key_weight k else 0)"
proof -
  have len: "length (bt_insert t v (sm_vec m k)) = Suc (length (sm_vec m k))"
    using assms by (simp add: length_bt_insert sm_inv_vec)
  show ?thesis
  proof (cases "map_of m k")
    case None
    then show ?thesis
      using len by (simp add: sm_weight_def sum_list_bt_insert_new sm_vec_def)
  next
    case (Some vec)
    have "bt_inv m" using assms(1) by (simp add: sm_inv_def)
    from sum_list_bt_insert_old [OF this Some,
        of "\<lambda>(k, vec). 32 * length vec + key_weight k" "bt_insert t v (sm_vec m k)"]
    show ?thesis
      using len Some by (simp add: sm_weight_def sm_vec_def)
  qed
qed

lemma sm_weight_update:
  assumes "sm_inv m" "map_of (sm_vec m k) t \<noteq> None"
  shows "sm_weight (bt_insert k (bt_insert t v (sm_vec m k)) m) = sm_weight m"
proof -
  have len: "length (bt_insert t v (sm_vec m k)) = length (sm_vec m k)"
    using assms by (simp add: length_bt_insert sm_inv_vec)
  from assms(2) obtain vec where Some: "map_of m k = Some vec"
    by (auto simp: sm_vec_def split: option.splits)
  have "bt_inv m" using assms(1) by (simp add: sm_inv_def)
  from sum_list_bt_insert_old [OF this Some,
      of "\<lambda>(k, vec). 32 * length vec + key_weight k" "bt_insert t v (sm_vec m k)"]
  show ?thesis
    using len Some by (simp add: sm_weight_def sm_vec_def)
qed

lemma sm_count_insert:
  assumes "sm_inv m"
  shows "sm_count (bt_insert k (bt_insert t v (sm_vec m k)) m)
         = sm_count m + (if map_of (sm_vec m k) t = None then 1 else 0)"
proof -
  have len: "length (bt_insert t v (sm_vec m k))
      = length (sm_vec m k) + (if map_of (sm_vec m k) t = None then 1 else 0)"
    using assms by (simp add: length_bt_insert sm_inv_vec)
  show ?thesis
  proof (cases "map_of m k")
    case None
    then show ?thesis
      using len by (simp add: sm_count_def sum_list_bt_insert_new sm_vec_def)
  next
    case (Some vec)
    have "bt_inv m" using assms(1) by (simp add: sm_inv_def)
    from sum_list_bt_insert_old [OF this Some,
        of "\<lambda>(k, vec). length vec" "bt_insert t v (sm_vec m k)"]
    show ?thesis
      using len Some by (simp add: sm_count_def sm_vec_def)
  qed
qed

lemma mt_inv_new: "mt_inv (mt_new threshold)"
  by (simp add: mt_inv_def mt_new_def sm_inv_def sm_weight_def sm_count_def)

lemma mt_inv_insert:
  assumes "mt_inv m"
  shows "mt_inv (mt_insert p m)"
proof -
  let ?m = "mt_entries m" and ?k = "dp_key p" and ?t = "dp_timestamp_ns p"
  let ?vec = "sm_vec ?m ?k"
  have sm: "sm_inv ?m" using assms by (simp add: mt_inv_def)
  have vec: "bt_inv ?vec" using sm by (rule sm_inv_vec)
  have entries: "sm_inv (mt_entries (mt_insert p m))"
    using sm vec by (simp add: mt_entries_insert sm_inv_insert bt_inv_insert)
  show ?thesis
  proof (cases "binary_search (map fst ?vec) ?t")
    case (Inl pos)
    have "map_of ?vec ?t = None" using vec_insert_bt_insert(2) [OF vec Inl] .
    moreover have "mt_size_bytes (mt_insert p m) = mt_size_bytes m + 32
        + (if map_of ?m ?k = None then word_of_nat (key_weight ?k) else 0)"
      "mt_entry_count (mt_insert p m) = mt_entry_count m + 1"
      using Inl by (simp_all add: mt_insert_def Let_def flip: sm_vec_def)
    ultimately show ?thesis
      using assms entries sm
      by (simp add: mt_inv_def mt_entries_insert sm_weight_insert sm_count_insert)
  next
    case (Inr pos)
    have "map_of ?vec ?t \<noteq> None" using vec_update_bt_insert(2) [OF vec Inr] .
    moreover have "mt_size_bytes (mt_insert p m) = mt_size_bytes m"
      "mt_entry_count (mt_insert p m) = mt_entry_count m"
      using Inr by (simp_all add: mt_insert_def Let_def flip: sm_vec_def)
    ultimately show ?thesis
      using assms entries sm
      by (simp add: mt_inv_def mt_entries_insert sm_weight_update sm_count_insert)
  qed
qed

text \<open>A memtable is a store of points.\<close>

definition mt_put :: "series_key \<Rightarrow> i64 \<Rightarrow> f64 \<Rightarrow> memtable \<Rightarrow> memtable" where
  "mt_put k t v = mt_insert (point_of k (t, v))"

definition mt_get :: "memtable \<Rightarrow> series_key \<Rightarrow> i64 \<Rightarrow> f64 option" where
  "mt_get m = sm_get (mt_entries m)"

lemma dp_key_point_of [simp]: "dp_key (point_of k p) = k"
  by (simp add: point_of_def)

lemma point_of_dp_key [simp]: "point_of (dp_key p) (dp_timestamp_ns p, dp_value p) = p"
  by (simp add: point_of_def)

interpretation mt: point_store mt_put mt_get mt_inv
proof
  fix s k t v k' t'
  assume inv: "mt_inv s"
  then show "mt_inv (mt_put k t v s)" by (simp add: mt_put_def mt_inv_insert)
  from inv have sm: "sm_inv (mt_entries s)" by (simp add: mt_inv_def)
  then show "mt_get (mt_put k t v s) k' t' = (if k' = k \<and> t' = t then Some v else mt_get s k' t')"
    using mt_entries_insert [OF sm, of "point_of k (t, v)"] sm_get_insert [OF sm]
    by (simp add: mt_get_def mt_put_def point_of_def)
qed

definition writes_of :: "data_point list \<Rightarrow> (series_key \<times> i64 \<times> f64) list" where
  "writes_of ps = map (\<lambda>p. (dp_key p, dp_timestamp_ns p, dp_value p)) ps"

lemma fold_mt_insert: "fold mt_insert ps m = fold (\<lambda>(k, t, v). mt_put k t v) (writes_of ps) m"
  by (induction ps arbitrary: m) (simp_all add: writes_of_def mt_put_def)

lemma mt_inv_inserts: "mt_inv m \<Longrightarrow> mt_inv (fold mt_insert ps m)"
  by (simp add: fold_mt_insert mt.invar_puts)

lemma mt_get_inserts:
  "mt_inv m \<Longrightarrow> mt_get (fold mt_insert ps m) k t =
     (case last_write (writes_of ps) k t of Some v \<Rightarrow> Some v | None \<Rightarrow> mt_get m k t)"
  by (simp add: fold_mt_insert mt.get_puts)

lemma mt_get_new [simp]: "mt_get (mt_new threshold) k t = None"
  by (simp add: mt_get_def sm_get_def mt_new_def)


subsection \<open>Reading\<close>

lemma mem_mt_read_series:
  assumes "mt_inv m"
  shows "d \<in> set (mt_read_series m k s e pr) \<longleftrightarrow>
    dp_key d = k \<and> s \<le> dp_timestamp_ns d \<and> dp_timestamp_ns d \<le> e \<and>
    (\<forall>p. pr = Some p \<longrightarrow> satisfies p (dp_value d)) \<and>
    mt_get m k (dp_timestamp_ns d) = Some (dp_value d)"
proof (cases "map_of (mt_entries m) k")
  case None
  then show ?thesis by (simp add: mt_read_series_def mt_get_def sm_get_def)
next
  case (Some vec)
  have "bt_inv vec"
    using assms sm_inv_vec [of "mt_entries m" k] Some by (simp add: sm_vec_def mt_inv_def)
  then have mem: "(t, v) \<in> set vec \<longleftrightarrow> mt_get m k t = Some v" for t v
    by (simp add: bt.mem_entries_iff mt_get_def sm_get_def Some)
  have eq: "d = point_of k (t, v) \<longleftrightarrow> dp_key d = k \<and> dp_timestamp_ns d = t \<and> dp_value d = v" for t v
    by (cases d; cases k) (auto simp: point_of_def)
  have "d \<in> set (mt_read_series m k s e pr) \<longleftrightarrow>
      (\<exists>t v. (t, v) \<in> set vec \<and> s \<le> t \<and> t \<le> e \<and> (\<forall>p. pr = Some p \<longrightarrow> satisfies p v) \<and>
             d = point_of k (t, v))"
    by (cases pr) (auto simp: mt_read_series_def Some image_iff Bex_def)
  then show ?thesis unfolding mem eq by blast
qed

lemma mt_read_series_ascending:
  assumes "mt_inv m"
  shows "sorted_wrt (<) (map dp_timestamp_ns (mt_read_series m k s e pr))"
proof -
  have "bt_inv vec" if "map_of (mt_entries m) k = Some vec" for vec
    using that assms sm_inv_vec [of "mt_entries m" k] by (simp add: sm_vec_def mt_inv_def)
  then show ?thesis
    by (auto simp: mt_read_series_def point_of_def comp_def bt_inv_def sorted_wrt_filter
        sorted_wrt_map split: option.splits)
qed

lemma mem_mt_resolve_series:
  assumes "hm_inv tag_filters"
  shows "k \<in> set (mt_resolve_series m metric tag_filters) \<longleftrightarrow>
    k \<in> fst ` set (mt_entries m) \<and> sk_metric_name k = metric \<and>
    map_of tag_filters \<subseteq>\<^sub>m map_of (sk_tags k)"
proof -
  have filters: "list_all (\<lambda>(tk, tv). case map_of (sk_tags sk) tk of None \<Rightarrow> False | Some val \<Rightarrow> val = tv)
        tag_filters \<longleftrightarrow> map_of tag_filters \<subseteq>\<^sub>m map_of (sk_tags sk)" for sk
  proof -
    have "list_all (\<lambda>(tk, tv). case map_of (sk_tags sk) tk of None \<Rightarrow> False | Some val \<Rightarrow> val = tv)
        tag_filters \<longleftrightarrow> (\<forall>tk tv. (tk, tv) \<in> set tag_filters \<longrightarrow> map_of (sk_tags sk) tk = Some tv)"
      by (auto simp: list_all_iff split: option.splits)
    also have "\<dots> \<longleftrightarrow> map_of tag_filters \<subseteq>\<^sub>m map_of (sk_tags sk)"
      by (auto simp: hm.mem_entries_iff [OF assms] map_le_def dom_def)
    finally show ?thesis .
  qed
  show ?thesis
    by (cases "tag_filters = []") (force simp: mt_resolve_series_def filters)+
qed



subsection \<open>Shard routing\<close>

lemma unat_and_pow2_minus_1:
  fixes x :: u64
  shows "unat (and x (2 ^ n - 1)) = unat x mod 2 ^ n"
proof -
  have "and x (2 ^ n - 1) = take_bit n x"
    by (simp add: take_bit_eq_mask mask_eq_exp_minus_1)
  then have "unat (and x (2 ^ n - 1)) = take_bit n (unat x)"
    by (simp only: unsigned_take_bit_eq)
  then show ?thesis by (simp only: take_bit_eq_mod)
qed

lemma unat_pow2_u64: "n < 64 \<Longrightarrow> unat (2 ^ n :: u64) = 2 ^ n"
proof -
  assume "n < 64"
  then have "(2 :: nat) ^ n < 2 ^ LENGTH(64)"
    using power_strict_increasing [of n 64 "2 :: nat"] by simp
  then have "unat (word_of_nat (2 ^ n) :: u64) = 2 ^ n" by (simp only: unat_of_nat mod_less)
  then show ?thesis by simp
qed

lemma shard_index_mod:
  assumes "xxh64_streaming h"
  shows "unat (shard_index h p (2 ^ n)) = unat (series_id h (dp_key p)) mod 2 ^ n"
  using assms by (simp add: shard_index_def series_id_from_parts_eq unat_and_pow2_minus_1)


subsection \<open>Properties\<close>

text \<open>
  C20.  After any sequence of inserts into a new memtable, reading a series over a time
  range and predicate returns exactly the points whose value is the last one written at
  their timestamp, in ascending timestamp order and without duplicates.
\<close>

theorem memtable_last_write_wins:
  "(d \<in> set (mt_read_series (fold mt_insert ps (mt_new threshold)) k s e pr) \<longleftrightarrow>
      dp_key d = k \<and> s \<le> dp_timestamp_ns d \<and> dp_timestamp_ns d \<le> e \<and>
      (case pr of None \<Rightarrow> True | Some p \<Rightarrow> satisfies p (dp_value d)) \<and>
      last_write (writes_of ps) k (dp_timestamp_ns d) = Some (dp_value d)) \<and>
   sorted_wrt (<)
     (map dp_timestamp_ns (mt_read_series (fold mt_insert ps (mt_new threshold)) k s e pr))"
proof -
  have inv: "mt_inv (fold mt_insert ps (mt_new threshold))"
    by (simp add: mt_inv_inserts mt_inv_new)
  then show ?thesis
    by (auto simp: mem_mt_read_series [OF inv] mt_get_inserts mt_inv_new mt_read_series_ascending
        split: option.splits)
qed

text \<open>
  C21.  The running counters are exact, modulo the width of \<open>usize\<close>: after any sequence of
  inserts \<open>size_bytes\<close> is 32 bytes per stored point plus the weight of each key, counted
  once per series however often its points are overwritten, and \<open>entry_count\<close> is the number
  of stored points; so the flush decision is a function of the contents.
\<close>

theorem memtable_accounting:
  "mt_inv (fold mt_insert ps (mt_new threshold)) \<and>
   (mt_should_flush (fold mt_insert ps (mt_new threshold)) \<longleftrightarrow>
      threshold \<le> word_of_nat (sm_weight (mt_entries (fold mt_insert ps (mt_new threshold)))))"
proof -
  have inv: "mt_inv (fold mt_insert ps (mt_new threshold))"
    by (simp add: mt_inv_inserts mt_inv_new)
  have "mt_flush_threshold (fold mt_insert ps m) = mt_flush_threshold m" for m
    by (induction ps arbitrary: m) simp_all
  with inv show ?thesis by (simp add: mt_should_flush_def mt_inv_def mt_new_def)
qed

text \<open>
  Draining hands over every point and leaves an empty memtable with both counters at
  zero: what is read afterwards comes from later inserts only.
\<close>

theorem memtable_drain:
  assumes "mt_inv m" "mt_drain m = (m', drained)"
  shows "sm_get drained = mt_get m \<and> sm_inv drained \<and> mt_inv m' \<and> mt_is_empty m' \<and>
    mt_get (fold mt_insert ps m') k t = last_write (writes_of ps) k t"
proof -
  have m': "mt_entries m' = []" "mt_size_bytes m' = 0" "mt_entry_count m' = 0"
    and drained: "drained = mt_entries m"
    using assms(2) by (auto simp: mt_drain_def)
  then have inv: "mt_inv m'"
    by (simp add: mt_inv_def sm_inv_def sm_weight_def sm_count_def)
  moreover have "mt_get m' k t = None"
    by (simp add: mt_get_def sm_get_def m')
  ultimately have "mt_get (fold mt_insert ps m') k t = last_write (writes_of ps) k t"
    by (simp add: mt_get_inserts split: option.splits)
  with inv show ?thesis
    using assms(1) m' drained by (simp add: mt_is_empty_def mt_inv_def mt_get_def)
qed

text \<open>Three inserts, the last one overwriting the first, and a drain.\<close>

theorem memtable_drain_witness:
  "\<exists>m m' drained. m = fold mt_insert
       [point_of (SeriesKey ''cpu'' []) (I64 5, F64 1),
        point_of (SeriesKey ''cpu'' []) (I64 3, F64 2),
        point_of (SeriesKey ''cpu'' []) (I64 5, F64 7)] (mt_new 100) \<and>
     mt_drain m = (m', drained) \<and>
     sm_get drained (SeriesKey ''cpu'' []) (I64 5) = Some (F64 7) \<and> mt_is_empty m'"
proof -
  let ?k = "SeriesKey ''cpu'' []"
  let ?m = "fold mt_insert [point_of ?k (I64 5, F64 1), point_of ?k (I64 3, F64 2),
    point_of ?k (I64 5, F64 7)] (mt_new 100)"
  have inv: "mt_inv ?m" by (rule mt_inv_inserts [OF mt_inv_new])
  obtain m' drained where d: "mt_drain ?m = (m', drained)" by fastforce
  have "mt_get ?m ?k (I64 5) = Some (F64 7)"
    by (subst mt_get_inserts [OF mt_inv_new]) (simp add: writes_of_def last_write_def point_of_def)
  with memtable_drain [OF inv d, of "[]" ?k "I64 5"] d show ?thesis
    by (intro exI conjI) (rule refl, assumption, simp_all)
qed

text \<open>
  Resolving a query against the memtable finds exactly the series it holds with that
  metric name whose tags include every filter, with no filters as the special case.
\<close>

theorem memtable_resolve_series:
  assumes "hm_inv tag_filters"
  shows "k \<in> set (mt_resolve_series m metric tag_filters) \<longleftrightarrow>
    k \<in> fst ` set (mt_entries m) \<and> sk_metric_name k = metric \<and>
    map_of tag_filters \<subseteq>\<^sub>m map_of (sk_tags k)"
  using assms by (rule mem_mt_resolve_series)

theorem memtable_resolve_series_witness:
  "SeriesKey ''cpu'' [(''host'', ''a''), (''zone'', ''b'')] \<in>
     set (mt_resolve_series
       (mt_insert (point_of (SeriesKey ''cpu'' [(''host'', ''a''), (''zone'', ''b'')]) (I64 1, F64 2))
         (mt_new 100)) ''cpu'' [(''zone'', ''b'')])"
  by (subst memtable_resolve_series)
    (simp_all add: hm_inv_def mt_insert_def mt_new_def binary_search_def point_of_def map_le_def
      Let_def)

text \<open>
  With a power of two of shards the mask is the remainder: the shard of a point is in
  range and depends only on the identifier the index uses for its series, so a series
  never changes shard.
\<close>

theorem shard_index_in_range:
  assumes "xxh64_streaming h" "n < 64"
  shows "unat (shard_index h p (2 ^ n)) = unat (series_id h (dp_key p)) mod 2 ^ n \<and>
    unat (shard_index h p (2 ^ n)) < unat (2 ^ n :: usize)"
proof -
  have "unat (2 ^ n :: usize) = 2 ^ n"
    using assms(2) by (rule unat_pow2_u64)
  with shard_index_mod [OF assms(1), of p n] show ?thesis by simp
qed

theorem shard_index_in_range_witness:
  "unat (shard_index length_hasher (point_of (SeriesKey ''cpu.load'' []) (I64 1, F64 0)) (2 ^ 2)) = 0"
  using shard_index_in_range [OF length_hasher_streaming,
      of 2 "point_of (SeriesKey ''cpu.load'' []) (I64 1, F64 0)"]
  by (simp add: series_id_def length_hasher_def to_bytes_def)

end
