(* ===== verification/Chunk_Writer.thy ===== *)
theory Chunk_Writer
  imports Chunk_Format Memtable
begin

section \<open>Chunk writer (chunk/writer.rs)\<close>

text \<open>
  \<open>ChunkWriter::write\<close> turns a drained memtable into one immutable file: pass 1 encodes and
  compresses the columns, pass 2 computes their absolute offsets, then header, directory,
  columns, bloom footer and checksum are laid out and written to a new file.

  The crates \<open>crc32fast\<close>, \<open>lz4_flex\<close> and \<open>bloomfilter\<close> are parameters.
\<close>

subsection \<open>External crates\<close>

text \<open>
  \<open>bloom_new n\<close> is \<open>Bloom::new_for_fp_rate(n, 0.01)\<close>, whose random hash keys are part of its
  result; \<open>'b\<close> is the state of a filter.
\<close>

record ('h, 'b) chunk_crates = "'h xxh64_crate" +
  crc32 :: "bytes \<Rightarrow> u32"
  compress_prepend_size :: "bytes \<Rightarrow> bytes"
  decompress_size_prepended :: "bytes \<Rightarrow> bytes option"
  bloom_new :: "nat \<Rightarrow> 'b"
  bloom_set :: "'b \<Rightarrow> bytes \<Rightarrow> 'b"
  bloom_check :: "'b \<Rightarrow> bytes \<Rightarrow> bool"
  bloom_number_of_bits :: "'b \<Rightarrow> u64"
  bloom_number_of_hash_functions :: "'b \<Rightarrow> u32"
  bloom_sip_keys :: "'b \<Rightarrow> (u64 \<times> u64) \<times> (u64 \<times> u64)"
  bloom_bitmap :: "'b \<Rightarrow> bytes"
  bloom_from_existing :: "bytes \<Rightarrow> u64 \<Rightarrow> u32 \<Rightarrow> (u64 \<times> u64) \<times> (u64 \<times> u64) \<Rightarrow> 'b"

text \<open>Compression is lossless.\<close>

definition lz4_lossless :: "('h, 'b, 'z) chunk_crates_scheme \<Rightarrow> bool" where
  "lz4_lossless c \<longleftrightarrow>
     (\<forall>bs. decompress_size_prepended c (compress_prepend_size c bs) = Some bs)"

text \<open>A bloom filter has no false negatives, and rebuilding it from its parts keeps its answers.\<close>

definition bloom_sound :: "('h, 'b, 'z) chunk_crates_scheme \<Rightarrow> bool" where
  "bloom_sound c \<longleftrightarrow>
     (\<forall>b x. bloom_check c (bloom_set c b x) x) \<and>
     (\<forall>b x y. bloom_check c b x \<longrightarrow> bloom_check c (bloom_set c b y) x) \<and>
     (\<forall>b x. bloom_check c
        (bloom_from_existing c (bloom_bitmap c b) (bloom_number_of_bits c b)
          (bloom_number_of_hash_functions c b) (bloom_sip_keys c b)) x = bloom_check c b x)"


subsection \<open>Results and intermediate records\<close>

record series_write_result =
  swr_series_key :: series_key
  swr_entry :: series_chunk_entry
  swr_stats :: series_chunk_stats

record chunk_write_result =
  cwr_chunk_id :: u64
  cwr_chunk_meta :: chunk_meta
  cwr_series_results :: "series_write_result list"

record encoded_series =
  es_key :: series_key
  es_key_bytes :: bytes
  es_entry_count :: u32
  es_time_start_ns :: i64
  es_time_end_ns :: i64
  es_ts_compressed :: bytes
  es_val_compressed :: bytes
  es_stats :: series_chunk_stats

definition build_directory_entry :: "encoded_series \<Rightarrow> u64 \<Rightarrow> u64 \<Rightarrow> bytes" where
  "build_directory_entry s ts_offset val_offset =
     u32_to_le_bytes (word_of_nat (length (es_key_bytes s))) @ es_key_bytes s @
     u32_to_le_bytes (es_entry_count s) @
     u64_to_le_bytes ts_offset @ u64_to_le_bytes val_offset @
     f64_to_le_bytes (scs_min_value (es_stats s)) @ f64_to_le_bytes (scs_max_value (es_stats s))"


subsection \<open>Pass 1: encode and compress all columns\<close>

record 'b pass1 =
  p1_encoded :: "encoded_series list"
  p1_min_ts :: i64
  p1_max_ts :: i64
  p1_total_entries :: u32
  p1_bloom :: 'b

definition encode_series ::
    "('h, 'b, 'z) chunk_crates_scheme \<Rightarrow> series_key \<Rightarrow> points \<Rightarrow> series_chunk_stats \<Rightarrow> encoded_series" where
  "encode_series c key points stats =
     \<lparr>es_key = key, es_key_bytes = to_bytes key,
      es_entry_count = word_of_nat (length points),
      es_time_start_ns = map fst points ! 0,
      es_time_end_ns = map fst points ! (length points - 1),
      es_ts_compressed =
        compress_prepend_size c (i64_slice_to_bytes (delta_encode (map fst points))),
      es_val_compressed = compress_prepend_size c (f64_slice_to_bytes (map snd points)),
      es_stats = stats\<rparr>"

fun pass1_loop ::
    "('h, 'b, 'z) chunk_crates_scheme \<Rightarrow> series_map \<Rightarrow> 'b pass1 \<Rightarrow> 'b pass1 result" where
  "pass1_loop c [] st = Inr st"
| "pass1_loop c ((key, points) # data) st =
     (if points = [] then pass1_loop c data st
      else case from_values (map snd points) of
             None \<Rightarrow> Inl NoChunkStats
           | Some stats \<Rightarrow>
               (let s = encode_series c key points stats
                in pass1_loop c data
                     \<lparr>p1_encoded = p1_encoded st @ [s],
                      p1_min_ts = min (p1_min_ts st) (es_time_start_ns s),
                      p1_max_ts = max (p1_max_ts st) (es_time_end_ns s),
                      p1_total_entries = p1_total_entries st + word_of_nat (length points),
                      p1_bloom = bloom_set c (p1_bloom st) (es_key_bytes s)\<rparr>))"


subsection \<open>Pass 2: absolute offsets and index entries\<close>

fun pass2_loop ::
    "('h, 'b, 'z) chunk_crates_scheme \<Rightarrow> u64 \<Rightarrow> nat \<Rightarrow> encoded_series list \<Rightarrow>
     (u64 \<times> u64) list \<times> series_write_result list" where
  "pass2_loop c chunk_id current_offset [] = ([], [])"
| "pass2_loop c chunk_id current_offset (s # ss) =
     (let ts_offset = current_offset;
          val_offset = ts_offset + U32_SIZE + length (es_ts_compressed s);
          rest = pass2_loop c chunk_id (val_offset + U32_SIZE + length (es_val_compressed s)) ss
      in ((word_of_nat ts_offset, word_of_nat val_offset) # fst rest,
          \<lparr>swr_series_key = es_key s,
           swr_entry =
             \<lparr>sce_chunk_id = chunk_id, sce_series_id = xxh64 c (es_key_bytes s),
              sce_time_start_ns = es_time_start_ns s, sce_time_end_ns = es_time_end_ns s,
              sce_size_bytes = word_of_nat
                (length (es_ts_compressed s) + length (es_val_compressed s) + U32_SIZE * 2)\<rparr>,
           swr_stats = es_stats s\<rparr> # snd rest))"


subsection \<open>The file buffer\<close>

definition dir_size :: "encoded_series list \<Rightarrow> nat" where
  "dir_size encoded =
     sum_list (map (\<lambda>s. DIR_ENTRY_FIXED_SIZE + length (es_key_bytes s)) encoded)"

definition directory_bytes :: "encoded_series list \<Rightarrow> (u64 \<times> u64) list \<Rightarrow> bytes" where
  "directory_bytes encoded offsets =
     concat (map (\<lambda>(s, ts_off, val_off). build_directory_entry s ts_off val_off) (zip encoded offsets))"

definition column_bytes :: "encoded_series \<Rightarrow> bytes" where
  "column_bytes s =
     u32_to_le_bytes (word_of_nat (length (es_ts_compressed s))) @ es_ts_compressed s @
     u32_to_le_bytes (word_of_nat (length (es_val_compressed s))) @ es_val_compressed s"

definition bloom_bytes :: "('h, 'b, 'z) chunk_crates_scheme \<Rightarrow> 'b \<Rightarrow> bytes" where
  "bloom_bytes c b =
     u64_to_le_bytes (bloom_number_of_bits c b) @
     u32_to_le_bytes (bloom_number_of_hash_functions c b) @
     (case bloom_sip_keys c b of ((k0, k1), (k2, k3)) \<Rightarrow>
        u64_to_le_bytes k0 @ u64_to_le_bytes k1 @ u64_to_le_bytes k2 @ u64_to_le_bytes k3) @
     u32_to_le_bytes (word_of_nat (length (bloom_bitmap c b))) @ bloom_bitmap c b"

definition chunk_header_of :: "u64 \<Rightarrow> 'b pass1 \<Rightarrow> chunk_header" where
  "chunk_header_of chunk_id st =
     \<lparr>ch_magic = MAGIC, ch_version = VERSION, ch_padding = [0, 0, 0], ch_chunk_id = chunk_id,
      ch_time_start_ns = p1_min_ts st, ch_time_end_ns = p1_max_ts st,
      ch_series_count = word_of_nat (length (p1_encoded st)),
      ch_total_entries = p1_total_entries st,
      ch_col_data_offset = word_of_nat (HEADER_SIZE + dir_size (p1_encoded st))\<rparr>"

definition chunk_body ::
    "('h, 'b, 'z) chunk_crates_scheme \<Rightarrow> u64 \<Rightarrow> 'b pass1 \<Rightarrow> (u64 \<times> u64) list \<Rightarrow> bytes" where
  "chunk_body c chunk_id st offsets =
     header_to_bytes (chunk_header_of chunk_id st) @
     directory_bytes (p1_encoded st) offsets @
     concat (map column_bytes (p1_encoded st))"

definition chunk_file ::
    "('h, 'b, 'z) chunk_crates_scheme \<Rightarrow> u64 \<Rightarrow> 'b pass1 \<Rightarrow> (u64 \<times> u64) list \<Rightarrow> bytes" where
  "chunk_file c chunk_id st offsets =
     (let body = chunk_body c chunk_id st offsets;
          footer_offset = word_of_nat (length body);
          buf = body @ bloom_bytes c (p1_bloom st) @ u64_to_le_bytes footer_offset
      in buf @ u32_to_le_bytes (crc32 c buf))"

definition cw_encode ::
    "('h, 'b, 'z) chunk_crates_scheme \<Rightarrow> u64 \<Rightarrow> series_map \<Rightarrow>
     (bytes \<times> series_write_result list) result" where
  "cw_encode c chunk_id series_data =
     rbind (pass1_loop c series_data
         \<lparr>p1_encoded = [], p1_min_ts = I64_MAX, p1_max_ts = I64_MIN, p1_total_entries = 0,
          p1_bloom = bloom_new c (max (length series_data) 1)\<rparr>)
       (\<lambda>st. let p2 = pass2_loop c chunk_id (HEADER_SIZE + dir_size (p1_encoded st)) (p1_encoded st)
             in Inr (chunk_file c chunk_id st (fst p2), snd p2))"


subsection \<open>Writing the file\<close>

definition chunk_path :: "path \<Rightarrow> u64 \<Rightarrow> path" where
  "chunk_path dir chunk_id =
     join dir (''chunk-'' @ fixed_digits 16 16 (unat chunk_id) @ ''.mcs'')"

text \<open>What the environment does to opening the new file and to \<open>write_all\<close> and \<open>sync_all\<close>.\<close>

datatype create_outcome = CreateOk | OpenFailed | WriteFailed nat

definition cw_write ::
    "('h, 'b, 'z) chunk_crates_scheme \<Rightarrow> path \<Rightarrow> nat \<Rightarrow> create_outcome \<Rightarrow> series_map \<Rightarrow> fs \<Rightarrow>
     fs \<times> chunk_write_result result" where
  "cw_write c chunk_dir now io series_data files =
     (if series_data = [] then (files, Inl EmptyChunk)
      else let chunk_id = new_chunk_id now; file_path = chunk_path chunk_dir chunk_id
           in case cw_encode c chunk_id series_data of
                Inl e \<Rightarrow> (files, Inl e)
              | Inr (buf, series_results) \<Rightarrow>
                  if files file_path \<noteq> None then (files, Inl (FileAlreadyExists file_path))
                  else case io of
                         OpenFailed \<Rightarrow> (files, Inl IoError)
                       | WriteFailed n \<Rightarrow> (files(file_path \<mapsto> take n buf), Inl IoError)
                       | CreateOk \<Rightarrow>
                           (files(file_path \<mapsto> buf),
                            Inr \<lparr>cwr_chunk_id = chunk_id,
                                 cwr_chunk_meta = \<lparr>cm_file_path = file_path,
                                                   cm_file_size = word_of_nat (length buf)\<rparr>,
                                 cwr_series_results = series_results\<rparr>))"

end
