(* ===== verification/Chunk_Reader.thy ===== *)
theory Chunk_Reader
  imports Chunk_Writer
begin

section \<open>Chunk reader (chunk/reader.rs)\<close>

text \<open>
  Reading back a chunk file: the checks on magic number and checksum, the header, the linear
  scan of the directory, the decompression of two columns, and the bloom filter at the end of
  the file. Every access goes through the bounds-checked \<open>slice\<close>.
\<close>

subsection \<open>Bounds-checked access\<close>

text \<open>\<open>offset + len\<close> wraps; a wrapped end is below \<open>offset\<close> and \<open>get\<close> returns nothing.\<close>

definition slice :: "bytes \<Rightarrow> nat \<Rightarrow> nat \<Rightarrow> bytes result" where
  "slice bs offset len =
     (let e = (offset + len) mod 2 ^ 64
      in if offset \<le> e \<and> e \<le> length bs then Inr (take (e - offset) (drop offset bs))
         else Inl (ChunkTruncated len offset (length bs)))"

definition read_u32 :: "bytes \<Rightarrow> nat \<Rightarrow> u32 result" where
  "read_u32 bs offset = rbind (slice bs offset U32_SIZE) u32_from_le_bytes"

definition read_u64 :: "bytes \<Rightarrow> nat \<Rightarrow> u64 result" where
  "read_u64 bs offset = rbind (slice bs offset U64_SIZE) u64_from_le_bytes"

definition read_i64 :: "bytes \<Rightarrow> nat \<Rightarrow> i64 result" where
  "read_i64 bs offset = rbind (slice bs offset I64_SIZE) i64_from_le_bytes"


subsection \<open>Validation and header\<close>

definition is_checksum_valid :: "('h, 'b, 'z) chunk_crates_scheme \<Rightarrow> bytes \<Rightarrow> unit result" where
  "is_checksum_valid c bs =
     rbind (ensure (CHECKSUM_SIZE \<le> length bs) (ChecksumTooSmall (length bs))) (\<lambda>_.
       let data = take (length bs - CHECKSUM_SIZE) bs;
           stored = drop (length bs - CHECKSUM_SIZE) bs;
           computed_checksum = crc32 c data
       in rbind (u32_from_le_bytes stored) (\<lambda>stored_checksum.
            ensure (computed_checksum = stored_checksum)
              (CrcMismatch computed_checksum stored_checksum)))"

definition is_magic_valid :: "bytes \<Rightarrow> unit result" where
  "is_magic_valid bs = rbind (read_u32 bs 0) (\<lambda>magic. ensure (magic = MAGIC) (InvalidMagic magic))"

definition is_within_global_range :: "i64 \<Rightarrow> i64 \<Rightarrow> chunk_header \<Rightarrow> bool" where
  "is_within_global_range time_start_ns time_end_ns h \<longleftrightarrow>
     \<not> (ch_time_end_ns h < time_start_ns \<or> time_end_ns < ch_time_start_ns h)"

definition parse_header :: "bytes \<Rightarrow> chunk_header result" where
  "parse_header bs =
     rbind (ensure (HEADER_SIZE \<le> length bs) HeaderTooSmall) (\<lambda>_.
     rbind (read_u32 bs 0) (\<lambda>magic.
     rbind (slice bs 4 1) (\<lambda>v.
     rbind (case v of [] \<Rightarrow> Inl MissingVersionByte | b # _ \<Rightarrow> Inr b) (\<lambda>version.
     rbind (slice bs 5 3) (\<lambda>padding.
     rbind (if length padding = 3 then Inr () else Inl TryFromSliceError) (\<lambda>_.
     rbind (read_u64 bs 8) (\<lambda>chunk_id.
     rbind (read_i64 bs 16) (\<lambda>time_start_ns.
     rbind (read_i64 bs 24) (\<lambda>time_end_ns.
     rbind (read_u32 bs 32) (\<lambda>series_count.
     rbind (read_u32 bs 36) (\<lambda>total_entries.
     rbind (read_u64 bs 40) (\<lambda>col_data_offset.
       Inr \<lparr>ch_magic = magic, ch_version = version, ch_padding = padding, ch_chunk_id = chunk_id,
            ch_time_start_ns = time_start_ns, ch_time_end_ns = time_end_ns,
            ch_series_count = series_count, ch_total_entries = total_entries,
            ch_col_data_offset = col_data_offset\<rparr>))))))))))))"


subsection \<open>Bloom filter\<close>

definition parse_bloom_from_buf :: "('h, 'b, 'z) chunk_crates_scheme \<Rightarrow> bytes \<Rightarrow> 'b result" where
  "parse_bloom_from_buf c buf =
     rbind (ensure (BLOOM_HEADER_SIZE \<le> length buf) (BloomHeaderOutOfBounds (length buf))) (\<lambda>_.
     rbind (read_u64 buf 0) (\<lambda>bitmap_bits.
     rbind (read_u32 buf 8) (\<lambda>k_num.
     rbind (read_u64 buf 12) (\<lambda>k0.
     rbind (read_u64 buf 20) (\<lambda>k1.
     rbind (read_u64 buf 28) (\<lambda>k2.
     rbind (read_u64 buf 36) (\<lambda>k3.
     rbind (read_u32 buf (12 + BLOOM_SIP_KEYS_SIZE)) (\<lambda>bloom_len.
       let cursor = 16 + BLOOM_SIP_KEYS_SIZE
       in rbind (ensure (cursor + unat bloom_len \<le> length buf) BloomBitmapOutOfBounds) (\<lambda>_.
          rbind (slice buf cursor (unat bloom_len)) (\<lambda>bitmap.
            Inr (bloom_from_existing c bitmap bitmap_bits k_num ((k0, k1), (k2, k3)))))))))))))"

text \<open>
  \<open>check_bloom\<close> trusts \<open>footer_offset\<close>: a value near \<open>2 ^ 64\<close> wraps past the bounds check,
  and then the seek to it fails.
\<close>

definition check_bloom_bytes ::
    "('h, 'b, 'z) chunk_crates_scheme \<Rightarrow> bytes \<Rightarrow> series_key \<Rightarrow> bool result" where
  "check_bloom_bytes c file series_key =
     (let file_size = length file
      in rbind (ensure (FOOTER_TAIL_SIZE \<le> file_size) (FooterTooSmall file_size)) (\<lambda>_.
         let tail = drop (file_size - FOOTER_TAIL_SIZE) file
         in rbind (u64_from_le_bytes (take FOOTER_OFFSET_SIZE tail)) (\<lambda>w.
            let footer_offset = unat w
            in rbind (ensure ((CHECKSUM_SIZE + footer_offset) mod 2 ^ 64 \<le> file_size)
                        FooterOutOfBounds) (\<lambda>_.
               if file_size < footer_offset then Inl IoError
               else let bloom_section_len = file_size - CHECKSUM_SIZE - footer_offset
                    in rbind (parse_bloom_from_buf c (take bloom_section_len (drop footer_offset file)))
                         (\<lambda>bloom. Inr (bloom_check c bloom (to_bytes series_key)))))))"


subsection \<open>Directory scan and columns\<close>

fun find_series_loop :: "bytes \<Rightarrow> bytes \<Rightarrow> nat \<Rightarrow> nat \<Rightarrow> (nat \<times> nat) option result" where
  "find_series_loop bs key_bytes cursor 0 = Inr None"
| "find_series_loop bs key_bytes cursor (Suc n) =
     rbind (read_u32 bs cursor) (\<lambda>w.
       let key_len = unat w
       in rbind (if length key_bytes = key_len
                 then rbind (slice bs (cursor + U32_SIZE) key_len) (\<lambda>k. Inr (key_bytes = k))
                 else Inr False) (\<lambda>found.
          if found then
            let ts_cursor = cursor + U32_SIZE + key_len + U32_SIZE
            in rbind (read_u64 bs ts_cursor) (\<lambda>ts_col_offset.
               rbind (read_u64 bs (ts_cursor + U64_SIZE)) (\<lambda>val_col_offset.
                 Inr (Some (unat ts_col_offset, unat val_col_offset))))
          else find_series_loop bs key_bytes (cursor + (key_len + DIR_ENTRY_FIXED_SIZE)) n))"

definition find_series :: "bytes \<Rightarrow> nat \<Rightarrow> series_key \<Rightarrow> (nat \<times> nat) option result" where
  "find_series bs series_count series_key =
     find_series_loop bs (to_bytes series_key) HEADER_SIZE series_count"

definition decompress ::
    "('h, 'b, 'z) chunk_crates_scheme \<Rightarrow> bytes \<Rightarrow> bytes result" where
  "decompress c bs =
     (case decompress_size_prepended c bs of None \<Rightarrow> Inl DecompressError | Some d \<Rightarrow> Inr d)"

definition read_column ::
    "('h, 'b, 'z) chunk_crates_scheme \<Rightarrow> bytes \<Rightarrow> nat \<Rightarrow> bytes result" where
  "read_column c bs offset =
     rbind (read_u32 bs offset) (\<lambda>len.
     rbind (slice bs (offset + COL_LEN_SIZE) (unat len)) (decompress c))"

fun unwrap_or :: "'a option \<Rightarrow> 'a \<Rightarrow> 'a" where
  "unwrap_or None d = d"
| "unwrap_or (Some x) d = x"

definition retrieve_data ::
    "('h, 'b, 'z) chunk_crates_scheme \<Rightarrow> bytes \<Rightarrow> series_key \<Rightarrow> nat \<Rightarrow> nat \<Rightarrow>
     i64 option \<Rightarrow> i64 option \<Rightarrow> data_point list result" where
  "retrieve_data c bs series_key ts_offset val_offset time_start_ns time_end_ns =
     rbind (read_column c bs ts_offset) (\<lambda>ts_decompressed.
     rbind (read_column c bs val_offset) (\<lambda>val_decompressed.
     rbind (ensure (length val_decompressed = length ts_decompressed) ColumnLengthMismatch) (\<lambda>_.
     rbind (bytes_to_i64_slice ts_decompressed) (\<lambda>ts_deltas.
     rbind (bytes_to_f64_slice val_decompressed) (\<lambda>val_decoded.
       Inr (map (point_of series_key)
         (filter (\<lambda>(ts, _). unwrap_or time_start_ns I64_MIN \<le> ts \<and> ts \<le> unwrap_or time_end_ns I64_MAX)
           (zip (delta_decode ts_deltas) val_decoded))))))))"


subsection \<open>The entry points\<close>

definition check_bloom ::
    "('h, 'b, 'z) chunk_crates_scheme \<Rightarrow> fs \<Rightarrow> path \<Rightarrow> series_key \<Rightarrow> bool result" where
  "check_bloom c files p series_key =
     rbind (read_file files p) (\<lambda>file. check_bloom_bytes c file series_key)"

definition read_series ::
    "('h, 'b, 'z) chunk_crates_scheme \<Rightarrow> fs \<Rightarrow> path \<Rightarrow> series_key \<Rightarrow> i64 \<Rightarrow> i64 \<Rightarrow>
     data_point list option result" where
  "read_series c files p series_key time_start_ns time_end_ns =
     rbind (read_file files p) (\<lambda>bs.
     rbind (is_magic_valid bs) (\<lambda>_.
     rbind (is_checksum_valid c bs) (\<lambda>_.
     rbind (parse_header bs) (\<lambda>header.
       if \<not> is_within_global_range time_start_ns time_end_ns header then Inr None
       else rbind (find_series bs (unat (ch_series_count header)) series_key) (\<lambda>found.
         case found of
           None \<Rightarrow> Inr None
         | Some (ts_offset, val_offset) \<Rightarrow>
             rbind (retrieve_data c bs series_key ts_offset val_offset
                      (Some time_start_ns) (Some time_end_ns)) (\<lambda>data. Inr (Some data)))))))"

fun read_chunk_loop ::
    "('h, 'b, 'z) chunk_crates_scheme \<Rightarrow> bytes \<Rightarrow> nat \<Rightarrow> nat \<Rightarrow> data_point list \<Rightarrow>
     data_point list result" where
  "read_chunk_loop c bs cursor 0 data = Inr data"
| "read_chunk_loop c bs cursor (Suc n) data =
     rbind (read_u32 bs cursor) (\<lambda>w.
       let key_len = unat w
       in rbind (slice bs (cursor + U32_SIZE) key_len) (\<lambda>key_bytes.
          rbind (from_bytes key_bytes) (\<lambda>series_key.
            let ts_cursor = cursor + U32_SIZE + key_len + U32_SIZE
            in rbind (read_u64 bs ts_cursor) (\<lambda>ts_col_offset.
               rbind (read_u64 bs (ts_cursor + U64_SIZE)) (\<lambda>val_col_offset.
               rbind (retrieve_data c bs series_key (unat ts_col_offset) (unat val_col_offset)
                        None None) (\<lambda>series.
                 read_chunk_loop c bs (cursor + (key_len + DIR_ENTRY_FIXED_SIZE)) n
                   (data @ series)))))))"

definition read_chunk ::
    "('h, 'b, 'z) chunk_crates_scheme \<Rightarrow> fs \<Rightarrow> path \<Rightarrow> data_point list result" where
  "read_chunk c files p =
     rbind (read_file files p) (\<lambda>bs.
     rbind (is_magic_valid bs) (\<lambda>_.
     rbind (is_checksum_valid c bs) (\<lambda>_.
     rbind (parse_header bs) (\<lambda>header.
       read_chunk_loop c bs HEADER_SIZE (unat (ch_series_count header)) []))))"

end
