(* ===== verification/Chunk_Roundtrip.thy ===== *)
theory Chunk_Roundtrip
  imports Chunk_Reader
begin

section \<open>What the reader finds in a file of the writer\<close>

text \<open>
  The layout lemmas that connect chunk/writer.rs and chunk/reader.rs: a relation
  \<open>seg_at\<close> (these bytes are at this offset), the closed form of the writer's passes, and the
  reader's loops on a file in which the writer's parts are at their offsets. The properties of
  the pair are at the end.
\<close>

subsection \<open>Bytes at an offset\<close>

definition seg_at :: "bytes \<Rightarrow> nat \<Rightarrow> bytes \<Rightarrow> bool" where
  "seg_at bs off seg \<longleftrightarrow> off + length seg \<le> length bs \<and> take (length seg) (drop off bs) = seg"

lemma seg_at_append [layout_simps]:
  "seg_at bs off (a @ b) \<longleftrightarrow> seg_at bs off a \<and> seg_at bs (off + length a) b"
proof (cases "off + (length a + length b) \<le> length bs")
  case True
  then have "length (take (length a) (drop off bs)) = length a" by simp
  then have "take (length a) (drop off bs) @ take (length b) (drop (off + length a) bs) = a @ b \<longleftrightarrow>
      take (length a) (drop off bs) = a \<and> take (length b) (drop (off + length a) bs) = b"
    by (rule append_eq_append_conv [OF disjI1])
  with True show ?thesis
    by (simp add: seg_at_def take_add add.commute [of "length a" off])
next
  case False
  then show ?thesis by (simp add: seg_at_def)
qed

lemma seg_at_Nil [simp]: "seg_at bs off [] \<longleftrightarrow> off \<le> length bs"
  by (simp add: seg_at_def)

lemma seg_at_self [simp]: "seg_at bs 0 bs"
  by (simp add: seg_at_def)

lemma seg_at_length: "seg_at bs off seg \<Longrightarrow> off + length seg \<le> length bs"
  by (simp add: seg_at_def)

lemma slice_seg_at:
  assumes "length bs < 2 ^ 64" "seg_at bs off seg" "n = length seg"
  shows "slice bs off n = Inr seg"
  using assms by (simp add: slice_def seg_at_def)

lemma read_u32_seg_at:
  "length bs < 2 ^ 64 \<Longrightarrow> seg_at bs off (u32_to_le_bytes w) \<Longrightarrow> read_u32 bs off = Inr w"
  by (simp add: read_u32_def slice_seg_at)

lemma read_u64_seg_at:
  "length bs < 2 ^ 64 \<Longrightarrow> seg_at bs off (u64_to_le_bytes w) \<Longrightarrow> read_u64 bs off = Inr w"
  by (simp add: read_u64_def slice_seg_at)

lemma read_i64_seg_at:
  "length bs < 2 ^ 64 \<Longrightarrow> seg_at bs off (i64_to_le_bytes w) \<Longrightarrow> read_i64 bs off = Inr w"
  by (simp add: read_i64_def slice_seg_at)

lemmas read_seg_at = read_u32_seg_at read_u64_seg_at read_i64_seg_at

lemma parse_header_seg_at:
  assumes "length bs < 2 ^ 64" "header_type_ok h" "seg_at bs 0 (header_to_bytes h)"
  shows "parse_header bs = Inr h"
proof -
  have pad: "length (ch_padding h) = 3" using assms(2) by (simp add: header_type_ok_def)
  have len: "HEADER_SIZE \<le> length bs"
    using seg_at_length [OF assms(3)] length_header_to_bytes [OF assms(2)] by simp
  have segs: "seg_at bs 0 (u32_to_le_bytes (ch_magic h))" "seg_at bs 4 [ch_version h]"
    "seg_at bs 5 (ch_padding h)" "seg_at bs 8 (u64_to_le_bytes (ch_chunk_id h))"
    "seg_at bs 16 (i64_to_le_bytes (ch_time_start_ns h))"
    "seg_at bs 24 (i64_to_le_bytes (ch_time_end_ns h))"
    "seg_at bs 32 (u32_to_le_bytes (ch_series_count h))"
    "seg_at bs 36 (u32_to_le_bytes (ch_total_entries h))"
    "seg_at bs 40 (u64_to_le_bytes (ch_col_data_offset h))"
    using assms(3) [unfolded header_to_bytes_def seg_at_append] by (simp_all add: pad)
  have v: "slice bs 4 1 = Inr [ch_version h]" and p: "slice bs 5 3 = Inr (ch_padding h)"
    using segs pad by (auto intro!: slice_seg_at [OF assms(1)])
  have "read_u32 bs 0 = Inr (ch_magic h)" "read_u64 bs 8 = Inr (ch_chunk_id h)"
    "read_i64 bs 16 = Inr (ch_time_start_ns h)" "read_i64 bs 24 = Inr (ch_time_end_ns h)"
    "read_u32 bs 32 = Inr (ch_series_count h)" "read_u32 bs 36 = Inr (ch_total_entries h)"
    "read_u64 bs 40 = Inr (ch_col_data_offset h)"
    using segs by (auto intro!: read_seg_at [OF assms(1)])
  then show ?thesis
    using len pad v p by (simp add: parse_header_def)
qed


subsection \<open>Closed form of the writer's passes\<close>

text \<open>The series the writer keeps, and what it encodes of one.\<close>

definition live :: "series_map \<Rightarrow> series_map" where
  "live data = filter (\<lambda>(k, points). points \<noteq> []) data"

definition enc :: "('h, 'b, 'z) chunk_crates_scheme \<Rightarrow> series_key \<times> points \<Rightarrow> encoded_series" where
  "enc c e = encode_series c (fst e) (snd e) (the (from_values (map snd (snd e))))"

definition pass1_final ::
    "('h, 'b, 'z) chunk_crates_scheme \<Rightarrow> series_map \<Rightarrow> 'b pass1 \<Rightarrow> 'b pass1" where
  "pass1_final c data st =
     (let ss = map (enc c) (live data)
      in \<lparr>p1_encoded = p1_encoded st @ ss,
          p1_min_ts = foldl min (p1_min_ts st) (map es_time_start_ns ss),
          p1_max_ts = foldl max (p1_max_ts st) (map es_time_end_ns ss),
          p1_total_entries = p1_total_entries st + sum_list (map es_entry_count ss),
          p1_bloom = foldl (bloom_set c) (p1_bloom st) (map es_key_bytes ss)\<rparr>)"

lemma es_entry_count_enc [simp]: "es_entry_count (enc c (k, ps)) = word_of_nat (length ps)"
  by (simp add: enc_def encode_series_def)

text \<open>Pass 1 never fails: the statistics of a non-empty column exist.\<close>

lemma pass1_loop_eq: "pass1_loop c data st = Inr (pass1_final c data st)"
proof (induction data arbitrary: st)
  case Nil
  then show ?case by (simp add: pass1_final_def live_def)
next
  case (Cons e data)
  obtain k ps where e: "e = (k, ps)" by (cases e)
  show ?case
  proof (cases "ps = []")
    case True
    then show ?thesis using Cons.IH by (simp add: e pass1_final_def live_def)
  next
    case False
    then obtain stats where stats: "from_values (map snd ps) = Some stats"
      using from_values_Some_iff [of "map snd ps"] by auto
    then have "enc c (k, ps) = encode_series c k ps stats" by (simp add: enc_def)
    then show ?thesis
      using False stats Cons.IH
      by (simp add: e pass1_final_def live_def Let_def add.assoc)
         (simp add: encode_series_def)
  qed
qed

definition pass1_init :: "('h, 'b, 'z) chunk_crates_scheme \<Rightarrow> series_map \<Rightarrow> 'b pass1" where
  "pass1_init c data =
     \<lparr>p1_encoded = [], p1_min_ts = I64_MAX, p1_max_ts = I64_MIN, p1_total_entries = 0,
      p1_bloom = bloom_new c (max (length data) 1)\<rparr>"

definition encoded_of :: "('h, 'b, 'z) chunk_crates_scheme \<Rightarrow> series_map \<Rightarrow> encoded_series list" where
  "encoded_of c data = map (enc c) (live data)"

definition offsets_of :: "('h, 'b, 'z) chunk_crates_scheme \<Rightarrow> u64 \<Rightarrow> series_map \<Rightarrow> (u64 \<times> u64) list" where
  "offsets_of c chunk_id data =
     fst (pass2_loop c chunk_id (HEADER_SIZE + dir_size (encoded_of c data)) (encoded_of c data))"

text \<open>The bytes of the file the writer makes of \<open>data\<close>.\<close>

definition file_of :: "('h, 'b, 'z) chunk_crates_scheme \<Rightarrow> u64 \<Rightarrow> series_map \<Rightarrow> bytes" where
  "file_of c chunk_id data =
     chunk_file c chunk_id (pass1_final c data (pass1_init c data)) (offsets_of c chunk_id data)"

lemma p1_encoded_final [simp]: "p1_encoded (pass1_final c data (pass1_init c data)) = encoded_of c data"
  by (simp add: pass1_final_def pass1_init_def encoded_of_def)

lemma cw_encode_eq:
  "cw_encode c chunk_id data =
     Inr (file_of c chunk_id data,
          snd (pass2_loop c chunk_id (HEADER_SIZE + dir_size (encoded_of c data)) (encoded_of c data)))"
  unfolding cw_encode_def pass1_init_def [symmetric]
  by (simp add: pass1_loop_eq file_of_def offsets_of_def Let_def)

lemma length_pass2_loop [simp]:
  "length (fst (pass2_loop c chunk_id off ss)) = length ss"
  "length (snd (pass2_loop c chunk_id off ss)) = length ss"
  by (induction ss arbitrary: off) (simp_all add: Let_def)

lemma length_build_directory_entry [simp]:
  "length (build_directory_entry s t v) = DIR_ENTRY_FIXED_SIZE + length (es_key_bytes s)"
  by (simp add: build_directory_entry_def)

lemma directory_bytes_Nil [simp]: "directory_bytes [] offs = []"
  by (simp add: directory_bytes_def)

lemma directory_bytes_Cons [simp]:
  "directory_bytes (s # ss) ((t, v) # offs) = build_directory_entry s t v @ directory_bytes ss offs"
  by (simp add: directory_bytes_def)

lemma length_directory_bytes [simp]:
  "length ss = length offs \<Longrightarrow> length (directory_bytes ss offs) = dir_size ss"
  by (induction ss offs rule: list_induct2) (auto simp: dir_size_def directory_bytes_def)


subsection \<open>The parts of a file at their offsets\<close>

text \<open>The columns of an encoded series are at the two offsets of its directory entry.\<close>

definition cols_at :: "bytes \<Rightarrow> encoded_series \<Rightarrow> u64 \<times> u64 \<Rightarrow> bool" where
  "cols_at bs s tv \<longleftrightarrow>
     seg_at bs (unat (fst tv))
       (u32_to_le_bytes (word_of_nat (length (es_ts_compressed s))) @ es_ts_compressed s) \<and>
     seg_at bs (unat (snd tv))
       (u32_to_le_bytes (word_of_nat (length (es_val_compressed s))) @ es_val_compressed s)"

lemma unat_word_of_nat_u64: "n < 2 ^ 64 \<Longrightarrow> unat (word_of_nat n :: u64) = n"
  by (simp add: unat_of_nat)

lemma unat_word_of_nat_u32: "n < 2 ^ 32 \<Longrightarrow> unat (word_of_nat n :: u32) = n"
  by (simp add: unat_of_nat)

lemma cols_at_pass2:
  assumes "length bs < 2 ^ 64"
  shows "seg_at bs off (concat (map column_bytes ss)) \<Longrightarrow>
    list_all2 (cols_at bs) ss (fst (pass2_loop c chunk_id off ss))"
proof (induction ss arbitrary: off)
  case Nil
  then show ?case by simp
next
  case (Cons s ss)
  let ?val = "off + 4 + length (es_ts_compressed s)"
  let ?next = "?val + 4 + length (es_val_compressed s)"
  have parts: "seg_at bs off (u32_to_le_bytes (word_of_nat (length (es_ts_compressed s))) @ es_ts_compressed s)"
    "seg_at bs ?val (u32_to_le_bytes (word_of_nat (length (es_val_compressed s))) @ es_val_compressed s)"
    "seg_at bs ?next (concat (map column_bytes ss))"
    using Cons.prems by (simp_all add: column_bytes_def [of s] seg_at_append add_ac)
  have "off < 2 ^ 64" "?val < 2 ^ 64"
    using parts(1,2) [THEN seg_at_length] assms by simp_all
  then have "cols_at bs s (word_of_nat off, word_of_nat ?val)"
    unfolding cols_at_def fst_conv snd_conv using parts(1,2) by (simp only: unat_word_of_nat_u64)
  then show ?case
    using Cons.IH [OF parts(3)] by (simp add: Let_def)
qed

definition bloom_of :: "('h, 'b, 'z) chunk_crates_scheme \<Rightarrow> series_map \<Rightarrow> 'b" where
  "bloom_of c data =
     foldl (bloom_set c) (bloom_new c (max (length data) 1)) (map es_key_bytes (encoded_of c data))"

definition header_of :: "('h, 'b, 'z) chunk_crates_scheme \<Rightarrow> u64 \<Rightarrow> series_map \<Rightarrow> chunk_header" where
  "header_of c chunk_id data = chunk_header_of chunk_id (pass1_final c data (pass1_init c data))"

lemma header_of_ok [simp]: "header_type_ok (header_of c chunk_id data)"
  by (simp add: header_of_def chunk_header_of_def header_type_ok_def)

lemma header_of_fields [simp]:
  "ch_series_count (header_of c chunk_id data) = word_of_nat (length (encoded_of c data))"
  "ch_magic (header_of c chunk_id data) = MAGIC"
  "ch_chunk_id (header_of c chunk_id data) = chunk_id"
  "ch_time_start_ns (header_of c chunk_id data) =
     foldl min I64_MAX (map es_time_start_ns (encoded_of c data))"
  "ch_time_end_ns (header_of c chunk_id data) =
     foldl max I64_MIN (map es_time_end_ns (encoded_of c data))"
  by (simp_all add: header_of_def chunk_header_of_def)
     (simp_all add: pass1_final_def pass1_init_def encoded_of_def Let_def)

lemma p1_bloom_final [simp]: "p1_bloom (pass1_final c data (pass1_init c data)) = bloom_of c data"
  by (simp add: pass1_final_def pass1_init_def encoded_of_def bloom_of_def Let_def)

lemma length_offsets_of [simp]: "length (offsets_of c chunk_id data) = length (encoded_of c data)"
  by (simp add: offsets_of_def)

definition body_of :: "('h, 'b, 'z) chunk_crates_scheme \<Rightarrow> u64 \<Rightarrow> series_map \<Rightarrow> bytes" where
  "body_of c chunk_id data =
     header_to_bytes (header_of c chunk_id data) @
     directory_bytes (encoded_of c data) (offsets_of c chunk_id data) @
     concat (map column_bytes (encoded_of c data))"

definition covered_of :: "('h, 'b, 'z) chunk_crates_scheme \<Rightarrow> u64 \<Rightarrow> series_map \<Rightarrow> bytes" where
  "covered_of c chunk_id data =
     body_of c chunk_id data @ bloom_bytes c (bloom_of c data) @
     u64_to_le_bytes (word_of_nat (length (body_of c chunk_id data)))"

lemma file_of_eq:
  "file_of c chunk_id data =
     covered_of c chunk_id data @ u32_to_le_bytes (crc32 c (covered_of c chunk_id data))"
  by (simp add: file_of_def chunk_file_def chunk_body_def covered_of_def body_of_def header_of_def
      Let_def)

lemma file_of_parts:
  "seg_at (file_of c chunk_id data) 0 (header_to_bytes (header_of c chunk_id data))"
  "seg_at (file_of c chunk_id data) HEADER_SIZE
     (directory_bytes (encoded_of c data) (offsets_of c chunk_id data))"
  "seg_at (file_of c chunk_id data) (HEADER_SIZE + dir_size (encoded_of c data))
     (concat (map column_bytes (encoded_of c data)))"
proof -
  have "seg_at f 0 (file_of c chunk_id data) \<Longrightarrow>
      seg_at f 0 (header_to_bytes (header_of c chunk_id data)) \<and>
      seg_at f HEADER_SIZE (directory_bytes (encoded_of c data) (offsets_of c chunk_id data)) \<and>
      seg_at f (HEADER_SIZE + dir_size (encoded_of c data))
        (concat (map column_bytes (encoded_of c data)))" for f
    by (simp add: file_of_eq covered_of_def body_of_def seg_at_append length_header_to_bytes)
  from this [OF seg_at_self] show
    "seg_at (file_of c chunk_id data) 0 (header_to_bytes (header_of c chunk_id data))"
    "seg_at (file_of c chunk_id data) HEADER_SIZE
       (directory_bytes (encoded_of c data) (offsets_of c chunk_id data))"
    "seg_at (file_of c chunk_id data) (HEADER_SIZE + dir_size (encoded_of c data))
       (concat (map column_bytes (encoded_of c data)))" by blast+
qed


subsection \<open>The reader's loops on such a file\<close>

text \<open>The lengths fit the widths the format gives them.\<close>

definition enc_fits :: "encoded_series \<Rightarrow> bool" where
  "enc_fits s \<longleftrightarrow> length (es_key_bytes s) < 2 ^ 32 \<and>
     length (es_ts_compressed s) < 2 ^ 32 \<and> length (es_val_compressed s) < 2 ^ 32"

lemma directory_entry_at:
  assumes len: "length bs < 2 ^ 64" and fits: "enc_fits s"
    and at: "seg_at bs cursor (build_directory_entry s t v)"
  shows "\<exists>w. read_u32 bs cursor = Inr w \<and> unat w = length (es_key_bytes s)"
    "slice bs (cursor + U32_SIZE) (length (es_key_bytes s)) = Inr (es_key_bytes s)"
    "read_u64 bs (cursor + U32_SIZE + length (es_key_bytes s) + U32_SIZE) = Inr t"
    "read_u64 bs (cursor + U32_SIZE + length (es_key_bytes s) + U32_SIZE + U64_SIZE) = Inr v"
proof -
  let ?n = "length (es_key_bytes s)"
  have segs: "seg_at bs cursor (u32_to_le_bytes (word_of_nat ?n))"
    "seg_at bs (cursor + 4) (es_key_bytes s)"
    "seg_at bs (cursor + 4 + ?n + 4) (u64_to_le_bytes t)"
    "seg_at bs (cursor + 4 + ?n + 4 + 8) (u64_to_le_bytes v)"
    using at [unfolded build_directory_entry_def seg_at_append] by (simp_all add: add_ac)
  have "unat (word_of_nat ?n :: u32) = ?n"
    using fits unat_word_of_nat_u32 by (simp only: enc_fits_def)
  then show "\<exists>w. read_u32 bs cursor = Inr w \<and> unat w = ?n"
    using read_u32_seg_at [OF len segs(1)] by blast
  show "slice bs (cursor + U32_SIZE) ?n = Inr (es_key_bytes s)"
    using slice_seg_at [OF len segs(2) refl] by simp
  show "read_u64 bs (cursor + U32_SIZE + ?n + U32_SIZE) = Inr t"
    using read_u64_seg_at [OF len segs(3)] by simp
  show "read_u64 bs (cursor + U32_SIZE + ?n + U32_SIZE + U64_SIZE) = Inr v"
    using read_u64_seg_at [OF len segs(4)] by simp
qed

lemma find_series_loop_directory:
  assumes len: "length bs < 2 ^ 64"
  shows "length ss = length offs \<Longrightarrow> \<forall>s \<in> set ss. enc_fits s \<Longrightarrow>
    seg_at bs cursor (directory_bytes ss offs) \<Longrightarrow>
    find_series_loop bs kb cursor (length ss) =
      Inr (map_option (\<lambda>(t, v). (unat t, unat v)) (map_of (zip (map es_key_bytes ss) offs) kb))"
proof (induction ss offs arbitrary: cursor rule: list_induct2)
  case Nil
  then show ?case by simp
next
  case (Cons s ss tv offs)
  obtain t v where tv: "tv = (t, v)" by (cases tv)
  let ?n = "length (es_key_bytes s)"
  have at: "seg_at bs cursor (build_directory_entry s t v)"
    and rest: "seg_at bs (cursor + (?n + DIR_ENTRY_FIXED_SIZE)) (directory_bytes ss offs)"
    using Cons.prems(2) by (simp_all add: tv seg_at_append add_ac)
  have fits: "enc_fits s" using Cons.prems(1) by simp
  note entry = directory_entry_at [OF len fits at]
  obtain w where w: "read_u32 bs cursor = Inr w" "unat w = ?n" using entry(1) by blast
  have IH: "find_series_loop bs kb (cursor + (?n + DIR_ENTRY_FIXED_SIZE)) (length ss) =
      Inr (map_option (\<lambda>(t, v). (unat t, unat v)) (map_of (zip (map es_key_bytes ss) offs) kb))"
    using Cons.IH rest Cons.prems(1) by simp
  show ?case
  proof (cases "kb = es_key_bytes s")
    case True
    then show ?thesis using w entry(2-4) by (simp add: tv Let_def)
  next
    case False
    then show ?thesis using w entry(2) IH by (cases "length kb = ?n") (simp_all add: tv Let_def)
  qed
qed

text \<open>Reading the columns of an encoded series gives its points back.\<close>

lemma read_column_seg_at:
  assumes "length bs < 2 ^ 64" "lz4_lossless c" "n = length (compress_prepend_size c d)" "n < 2 ^ 32"
    "seg_at bs off (u32_to_le_bytes (word_of_nat n) @ compress_prepend_size c d)"
  shows "read_column c bs off = Inr d"
proof -
  have at: "seg_at bs off (u32_to_le_bytes (word_of_nat n))"
    "seg_at bs (off + 4) (compress_prepend_size c d)"
    using assms(5) by (simp_all add: seg_at_append)
  have "unat (word_of_nat n :: u32) = n" using assms(4) by (rule unat_word_of_nat_u32)
  then show ?thesis
    using read_u32_seg_at [OF assms(1) at(1)] slice_seg_at [OF assms(1) at(2) assms(3)] assms(2)
    by (simp add: read_column_def decompress_def lz4_lossless_def)
qed

definition in_range :: "i64 option \<Rightarrow> i64 option \<Rightarrow> i64 \<Rightarrow> bool" where
  "in_range lo hi ts \<longleftrightarrow> unwrap_or lo I64_MIN \<le> ts \<and> ts \<le> unwrap_or hi I64_MAX"

lemma retrieve_data_enc:
  assumes "length bs < 2 ^ 64" "lz4_lossless c" "enc_fits (enc c (k, ps))"
    "cols_at bs (enc c (k, ps)) (t, v)"
  shows "retrieve_data c bs key (unat t) (unat v) lo hi =
    Inr (map (point_of key) (filter (\<lambda>p. in_range lo hi (fst p)) ps))"
proof -
  have "read_column c bs (unat t) = Inr (i64_slice_to_bytes (delta_encode (map fst ps)))"
    "read_column c bs (unat v) = Inr (f64_slice_to_bytes (map snd ps))"
    using assms(3,4)
    by (auto intro!: read_column_seg_at [OF assms(1,2) refl]
        simp: cols_at_def enc_fits_def enc_def encode_series_def)
  moreover have "zip (map fst ps) (map snd ps) = ps" by (rule zip_map_fst_snd)
  ultimately show ?thesis
    by (simp add: retrieve_data_def in_range_def case_prod_unfold)
qed


subsection \<open>The entry points on a file of the writer\<close>

definition chunk_fits :: "('h, 'b, 'z) chunk_crates_scheme \<Rightarrow> u64 \<Rightarrow> series_map \<Rightarrow> bool" where
  "chunk_fits c chunk_id data \<longleftrightarrow>
     length (file_of c chunk_id data) < 2 ^ 64 \<and> length (live data) < 2 ^ 32 \<and>
     (\<forall>e \<in> set (live data). enc_fits (enc c e))"

lemma is_magic_valid_header:
  assumes "length bs < 2 ^ 64" "seg_at bs 0 (header_to_bytes h)"
  shows "is_magic_valid bs = ensure (ch_magic h = MAGIC) (InvalidMagic (ch_magic h))"
proof -
  have "seg_at bs 0 (u32_to_le_bytes (ch_magic h))"
    using assms(2) by (simp add: header_to_bytes_def seg_at_append)
  from read_u32_seg_at [OF assms(1) this] show ?thesis by (simp add: is_magic_valid_def)
qed

lemma is_checksum_valid_append [simp]:
  "is_checksum_valid c (data @ u32_to_le_bytes w) = ensure (crc32 c data = w) (CrcMismatch (crc32 c data) w)"
  by (simp add: is_checksum_valid_def Let_def)

lemma file_of_checks:
  assumes "length (file_of c chunk_id data) < 2 ^ 64"
  shows "is_magic_valid (file_of c chunk_id data) = Inr ()"
    "is_checksum_valid c (file_of c chunk_id data) = Inr ()"
    "parse_header (file_of c chunk_id data) = Inr (header_of c chunk_id data)"
proof -
  show "is_magic_valid (file_of c chunk_id data) = Inr ()"
    using is_magic_valid_header [OF assms file_of_parts(1)] by simp
  show "is_checksum_valid c (file_of c chunk_id data) = Inr ()"
    by (simp add: file_of_eq)
  show "parse_header (file_of c chunk_id data) = Inr (header_of c chunk_id data)"
    by (rule parse_header_seg_at [OF assms header_of_ok file_of_parts(1)])
qed

lemma encoded_of_cols:
  assumes "chunk_fits c chunk_id data"
  shows "list_all2 (\<lambda>e tv. enc_fits (enc c e) \<and> cols_at (file_of c chunk_id data) (enc c e) tv)
    (live data) (offsets_of c chunk_id data)"
proof -
  have "list_all2 (cols_at (file_of c chunk_id data)) (encoded_of c data) (offsets_of c chunk_id data)"
    unfolding offsets_of_def
    using assms by (intro cols_at_pass2 file_of_parts) (simp add: chunk_fits_def)
  then show ?thesis
    using assms by (auto simp: encoded_of_def list_all2_conv_all_nth chunk_fits_def)
qed

lemma es_key_bytes_enc [simp]: "es_key_bytes (enc c e) = to_bytes (fst e)"
  by (simp add: enc_def encode_series_def)

text \<open>The compaction reader returns the points of every series, in order.\<close>

lemma read_chunk_loop_directory:
  assumes len: "length bs < 2 ^ 64" and lz4: "lz4_lossless c"
  shows "list_all2 (\<lambda>e tv. enc_fits (enc c e) \<and> cols_at bs (enc c e) tv) es offs \<Longrightarrow>
    \<forall>e \<in> set es. from_bytes (to_bytes (fst e)) = Inr (fst e) \<Longrightarrow>
    seg_at bs cursor (directory_bytes (map (enc c) es) offs) \<Longrightarrow>
    read_chunk_loop c bs cursor (length es) acc =
      Inr (acc @ concat (map (\<lambda>(k, ps). map (point_of k) ps) es))"
proof (induction es offs arbitrary: cursor acc rule: list_all2_induct)
  case Nil
  then show ?case by simp
next
  case (Cons e es tv offs)
  obtain k ps where e: "e = (k, ps)" by (cases e)
  obtain t v where tv: "tv = (t, v)" by (cases tv)
  let ?n = "length (to_bytes k)"
  have at: "seg_at bs cursor (build_directory_entry (enc c e) t v)"
    and rest: "seg_at bs (cursor + (?n + DIR_ENTRY_FIXED_SIZE)) (directory_bytes (map (enc c) es) offs)"
    using Cons.prems(2) by (simp_all add: e tv seg_at_append add_ac)
  have fits: "enc_fits (enc c e)" and cols: "cols_at bs (enc c e) (t, v)"
    using Cons.hyps(1) by (simp_all add: tv)
  note entry = directory_entry_at [OF len fits at, simplified es_key_bytes_enc e fst_conv]
  obtain w where w: "read_u32 bs cursor = Inr w" "unat w = ?n" using entry(1) by blast
  have data: "retrieve_data c bs k (unat t) (unat v) None None = Inr (map (point_of k) ps)"
    using retrieve_data_enc [OF len lz4 fits [unfolded e] cols [unfolded e]]
    by (simp add: in_range_def)
  have key: "from_bytes (to_bytes k) = Inr k" using Cons.prems(1) by (simp add: e)
  show ?case
    using w entry(2-4) key data Cons.IH [OF _ rest] Cons.prems(1) by (simp add: e Let_def)
qed

lemma read_chunk_file_of:
  assumes "lz4_lossless c" "chunk_fits c chunk_id data" "files p = Some (file_of c chunk_id data)"
    "\<forall>e \<in> set (live data). from_bytes (to_bytes (fst e)) = Inr (fst e)"
  shows "read_chunk c files p = Inr (concat (map (\<lambda>(k, ps). map (point_of k) ps) data))"
proof -
  have len: "length (file_of c chunk_id data) < 2 ^ 64" and cnt: "length (live data) < 2 ^ 32"
    using assms(2) by (simp_all add: chunk_fits_def)
  have n: "unat (word_of_nat (length (encoded_of c data)) :: u32) = length (live data)"
    using unat_word_of_nat_u32 [OF cnt] by (simp add: encoded_of_def)
  have "concat (map (\<lambda>(k, ps). map (point_of k) ps) (live data)) =
      concat (map (\<lambda>(k, ps). map (point_of k) ps) data)"
    by (induction data) (auto simp: live_def)
  then show ?thesis
    using read_chunk_loop_directory [OF len assms(1) encoded_of_cols [OF assms(2)] assms(4)
        file_of_parts(2) [unfolded encoded_of_def], of "[]"] file_of_checks [OF len] assms(3)
    by (simp add: read_chunk_def read_file_def n)
qed


text \<open>The header's time range covers every point.\<close>

lemma foldl_min_le: "x \<in> set xs \<Longrightarrow> foldl min (a :: 'a :: linorder) xs \<le> x"
  by (induction xs rule: rev_induct) (auto simp: min.coboundedI1)

lemma foldl_max_ge: "x \<in> set xs \<Longrightarrow> x \<le> foldl max (a :: 'a :: linorder) xs"
  by (induction xs rule: rev_induct) (auto simp: max.coboundedI1)

lemma bt_inv_bounds:
  assumes "bt_inv ps" "p \<in> set ps"
  shows "fst (ps ! 0) \<le> fst p" "fst p \<le> fst (ps ! (length ps - 1))"
proof -
  obtain i where i: "i < length ps" "p = ps ! i" using assms(2) by (auto simp: in_set_conv_nth)
  have sorted: "sorted (map fst ps)"
    using assms(1) by (simp add: bt_inv_def strict_sorted_iff)
  have "0 < length ps" "length ps - 1 < length ps" "i \<le> length ps - 1" using i(1) by linarith+
  then show "fst (ps ! 0) \<le> fst p" "fst p \<le> fst (ps ! (length ps - 1))"
    using sorted_nth_mono [OF sorted, of 0 i] sorted_nth_mono [OF sorted, of i "length ps - 1"] i
      nth_map [of 0 ps fst] nth_map [of i ps fst] nth_map [of "length ps - 1" ps fst]
    by (simp_all del: nth_map)
qed

lemma enc_times:
  assumes "bt_inv ps" "p \<in> set ps"
  shows "es_time_start_ns (enc c (k, ps)) \<le> fst p" "fst p \<le> es_time_end_ns (enc c (k, ps))"
proof -
  have "0 < length ps" "length ps - 1 < length ps"
    using length_pos_if_in_set [OF assms(2)] by linarith+
  from this [THEN nth_map, of fst]
  show "es_time_start_ns (enc c (k, ps)) \<le> fst p" "fst p \<le> es_time_end_ns (enc c (k, ps))"
    using bt_inv_bounds [OF assms] by (simp_all add: enc_def encode_series_def)
qed

lemma header_of_covers:
  assumes "(k, ps) \<in> set data" "bt_inv ps" "p \<in> set ps"
  shows "ch_time_start_ns (header_of c chunk_id data) \<le> fst p"
    "fst p \<le> ch_time_end_ns (header_of c chunk_id data)"
proof -
  have mem: "enc c (k, ps) \<in> set (encoded_of c data)"
    using assms by (auto simp: encoded_of_def live_def)
  show "ch_time_start_ns (header_of c chunk_id data) \<le> fst p"
    unfolding header_of_fields using mem
    by (intro order_trans [OF foldl_min_le enc_times(1) [OF assms(2,3), of c k]]) simp
  show "fst p \<le> ch_time_end_ns (header_of c chunk_id data)"
    unfolding header_of_fields using mem
    by (intro order_trans [OF enc_times(2) [OF assms(2,3), of c k] foldl_max_ge]) simp
qed

lemma find_series_file_of:
  assumes "chunk_fits c chunk_id data"
  shows "find_series (file_of c chunk_id data) (length (live data)) key =
    Inr (map_option (\<lambda>(t, v). (unat t, unat v))
      (map_of (zip (map (to_bytes \<circ> fst) (live data)) (offsets_of c chunk_id data)) (to_bytes key)))"
proof -
  have "map es_key_bytes (map (enc c) (live data)) = map to_bytes (map fst (live data))"
    by simp
  moreover have "\<forall>s \<in> set (encoded_of c data). enc_fits s" "length (file_of c chunk_id data) < 2 ^ 64"
    using assms by (auto simp: chunk_fits_def encoded_of_def)
  ultimately show ?thesis
    using find_series_loop_directory [OF _ _ _ file_of_parts(2), of c chunk_id data "to_bytes key"]
    by (simp add: find_series_def encoded_of_def flip: map_map)
qed

lemma map_of_zip_mem:
  assumes "map_of (zip ks vs) k = Some v" "length ks = length vs"
  shows "\<exists>i < length ks. ks ! i = k \<and> vs ! i = v"
  using map_of_SomeD [OF assms(1)] assms(2) by (auto simp: set_zip)

lemma sm_vec_live:
  assumes "distinct (map fst data)" "inj_on to_bytes (insert key (fst ` set data))"
    "i < length (live data)" "to_bytes (fst (live data ! i)) = to_bytes key"
  shows "live data ! i = (key, sm_vec data key)" "(key, sm_vec data key) \<in> set data"
proof -
  have mem: "live data ! i \<in> set data" using nth_mem [OF assms(3)] by (simp add: live_def)
  then have "fst (live data ! i) = key" using inj_onD [OF assms(2,4)] by simp
  then obtain ps where e: "live data ! i = (key, ps)" by (metis prod.collapse)
  with mem have "map_of data key = Some ps" using assms(1) by simp
  with e mem show "live data ! i = (key, sm_vec data key)" "(key, sm_vec data key) \<in> set data"
    by (simp_all add: sm_vec_def)
qed

lemma sm_vec_absent:
  assumes "to_bytes key \<notin> set (map (to_bytes \<circ> fst) (live data))"
  shows "sm_vec data key = []"
proof (rule ccontr)
  assume ne: "sm_vec data key \<noteq> []"
  then obtain ps where "map_of data key = Some ps" "ps \<noteq> []"
    by (auto simp: sm_vec_def split: option.splits)
  then have "(key, ps) \<in> set (live data)" by (auto simp: live_def dest: map_of_SomeD)
  with assms show False by force
qed


lemma sm_vec_out_of_range:
  assumes "\<forall>e \<in> set data. bt_inv (snd e)" "\<not> is_within_global_range lo hi (header_of c chunk_id data)"
  shows "filter (\<lambda>p. lo \<le> fst p \<and> fst p \<le> hi) (sm_vec data key) = []"
proof (rule ccontr)
  assume "\<not> ?thesis"
  then obtain q where q: "q \<in> set (sm_vec data key)" "lo \<le> fst q" "fst q \<le> hi"
    by (auto simp: filter_empty_conv)
  then have "(key, sm_vec data key) \<in> set data"
    by (auto simp: sm_vec_def split: option.splits dest: map_of_SomeD)
  then have "ch_time_start_ns (header_of c chunk_id data) \<le> fst q"
    "fst q \<le> ch_time_end_ns (header_of c chunk_id data)"
    using header_of_covers [OF _ _ q(1)] assms(1) by fastforce+
  with q assms(2) show False by (auto simp: is_within_global_range_def simp del: header_of_fields)
qed

text \<open>The query reader returns exactly the points of the series in the range.\<close>

lemma read_series_file_of:
  assumes "lz4_lossless c" "chunk_fits c chunk_id data" "files p = Some (file_of c chunk_id data)"
    and inv: "bt_inv data" "\<forall>e \<in> set data. bt_inv (snd e)"
    and inj: "inj_on to_bytes (insert key (fst ` set data))"
  shows "\<exists>r. read_series c files p key lo hi = Inr r \<and>
    (case r of None \<Rightarrow> [] | Some ps \<Rightarrow> ps) =
      map (point_of key) (filter (\<lambda>p. lo \<le> fst p \<and> fst p \<le> hi) (sm_vec data key))"
proof -
  let ?f = "file_of c chunk_id data" and ?h = "header_of c chunk_id data"
  let ?offs = "offsets_of c chunk_id data"
  have len: "length ?f < 2 ^ 64" and cnt: "length (live data) < 2 ^ 32"
    using assms(2) by (simp_all add: chunk_fits_def)
  have n: "unat (word_of_nat (length (encoded_of c data)) :: u32) = length (live data)"
    using unat_word_of_nat_u32 [OF cnt] by (simp add: encoded_of_def)
  note checks = file_of_checks [OF len]
  have dist: "distinct (map fst data)" using inv(1) by (rule bt_inv_distinct)
  show ?thesis
  proof (cases "is_within_global_range lo hi ?h")
    case False
    then show ?thesis
      using sm_vec_out_of_range [OF inv(2) False] checks assms(3)
      by (simp add: read_series_def read_file_def)
  next
    case True
    let ?m = "map_of (zip (map (to_bytes \<circ> fst) (live data)) ?offs) (to_bytes key)"
    have step: "read_series c files p key lo hi =
        (case map_option (\<lambda>(t, v). (unat t, unat v)) ?m of
           None \<Rightarrow> Inr None
         | Some (t, v) \<Rightarrow> rbind (retrieve_data c ?f key t v (Some lo) (Some hi)) (\<lambda>d. Inr (Some d)))"
      using checks True assms(3) find_series_file_of [OF assms(2), of key]
      by (simp add: read_series_def read_file_def n)
    show ?thesis
    proof (cases ?m)
      case None
      then have "to_bytes key \<notin> set (map (to_bytes \<circ> fst) (live data))"
        using map_of_zip_is_None [of "map (to_bytes \<circ> fst) (live data)" ?offs] by (simp add: encoded_of_def)
      then show ?thesis using step None sm_vec_absent by simp
    next
      case (Some tv)
      obtain t v where tv: "tv = (t, v)" by (cases tv)
      obtain i where i: "i < length (live data)" "to_bytes (fst (live data ! i)) = to_bytes key"
        "?offs ! i = (t, v)"
        using map_of_zip_mem [OF Some [unfolded tv]] by (auto simp: encoded_of_def)
      note entry = sm_vec_live [OF dist inj i(1,2)]
      have "enc_fits (enc c (live data ! i))" "cols_at ?f (enc c (live data ! i)) (?offs ! i)"
        using list_all2_nthD [OF encoded_of_cols [OF assms(2)] i(1)] by simp_all
      then have "retrieve_data c ?f key (unat t) (unat v) (Some lo) (Some hi) =
          Inr (map (point_of key) (filter (\<lambda>p. in_range (Some lo) (Some hi) (fst p)) (sm_vec data key)))"
        using retrieve_data_enc [OF len assms(1)] by (simp add: entry(1) i(3))
      then show ?thesis using step Some by (simp add: tv in_range_def)
    qed
  qed
qed


subsection \<open>The bloom filter of such a file\<close>

lemma length_bloom_bytes:
  "length (bloom_bytes c b) = BLOOM_HEADER_SIZE + length (bloom_bitmap c b)"
  by (simp add: bloom_bytes_def split: prod.splits)

lemma parse_bloom_bytes:
  assumes len: "length (bloom_bytes c b @ rest) < 2 ^ 64" and fits: "length (bloom_bitmap c b) < 2 ^ 32"
  shows "parse_bloom_from_buf c (bloom_bytes c b @ rest) =
    Inr (bloom_from_existing c (bloom_bitmap c b) (bloom_number_of_bits c b)
      (bloom_number_of_hash_functions c b) (bloom_sip_keys c b))"
proof -
  let ?buf = "bloom_bytes c b @ rest" and ?n = "length (bloom_bitmap c b)"
  obtain k0 k1 k2 k3 where keys: "bloom_sip_keys c b = ((k0, k1), (k2, k3))"
    by (metis prod.collapse)
  have "seg_at buf 0 (bloom_bytes c b) \<Longrightarrow>
      seg_at buf 0 (u64_to_le_bytes (bloom_number_of_bits c b)) \<and>
      seg_at buf 8 (u32_to_le_bytes (bloom_number_of_hash_functions c b)) \<and>
      seg_at buf 12 (u64_to_le_bytes k0) \<and> seg_at buf 20 (u64_to_le_bytes k1) \<and>
      seg_at buf 28 (u64_to_le_bytes k2) \<and> seg_at buf 36 (u64_to_le_bytes k3) \<and>
      seg_at buf 44 (u32_to_le_bytes (word_of_nat ?n)) \<and> seg_at buf 48 (bloom_bitmap c b)" for buf
    by (simp add: bloom_bytes_def keys seg_at_append)
  moreover have "seg_at ?buf 0 (bloom_bytes c b)"
    using seg_at_self [of ?buf] by (simp only: seg_at_append)
  ultimately have segs: "seg_at ?buf 0 (u64_to_le_bytes (bloom_number_of_bits c b))"
    "seg_at ?buf 8 (u32_to_le_bytes (bloom_number_of_hash_functions c b))"
    "seg_at ?buf 12 (u64_to_le_bytes k0)" "seg_at ?buf 20 (u64_to_le_bytes k1)"
    "seg_at ?buf 28 (u64_to_le_bytes k2)" "seg_at ?buf 36 (u64_to_le_bytes k3)"
    "seg_at ?buf 44 (u32_to_le_bytes (word_of_nat ?n))" "seg_at ?buf 48 (bloom_bitmap c b)"
    by blast+
  note reads = read_u64_seg_at [OF len segs(1)] read_u32_seg_at [OF len segs(2)]
    read_u64_seg_at [OF len segs(3)] read_u64_seg_at [OF len segs(4)]
    read_u64_seg_at [OF len segs(5)] read_u64_seg_at [OF len segs(6)]
    read_u32_seg_at [OF len segs(7)] slice_seg_at [OF len segs(8) refl]
  have "unat (word_of_nat ?n :: u32) = ?n" using fits by (rule unat_word_of_nat_u32)
  then show ?thesis
    using reads by (simp add: parse_bloom_from_buf_def keys Let_def length_bloom_bytes)
qed

lemma check_bloom_file_of:
  assumes len: "length (file_of c chunk_id data) < 2 ^ 64"
    and fits: "length (bloom_bitmap c (bloom_of c data)) < 2 ^ 32"
    and stored: "files p = Some (file_of c chunk_id data)" and sound: "bloom_sound c"
  shows "check_bloom c files p key = Inr (bloom_check c (bloom_of c data) (to_bytes key))"
proof -
  let ?body = "body_of c chunk_id data" and ?bb = "bloom_bytes c (bloom_of c data)"
  let ?w = "u64_to_le_bytes (word_of_nat (length ?body))"
  let ?crc = "u32_to_le_bytes (crc32 c (covered_of c chunk_id data))"
  have f: "file_of c chunk_id data = ?body @ ?bb @ ?w @ ?crc"
    by (simp add: file_of_eq covered_of_def)
  have body: "length ?body < 2 ^ 64 - 4" and buf: "length (?bb @ ?w) < 2 ^ 64"
    using len by (simp_all add: f)
  then have off: "unat (word_of_nat (length ?body) :: u64) = length ?body"
    by (intro unat_word_of_nat_u64) simp
  show ?thesis
    using off body stored sound parse_bloom_bytes [OF buf fits]
    by (simp add: check_bloom_def check_bloom_bytes_def read_file_def f Let_def bloom_sound_def)
qed

lemma bloom_check_foldl:
  assumes "bloom_sound c" "x \<in> set xs"
  shows "bloom_check c (foldl (bloom_set c) b xs) x"
  using assms by (induction xs rule: rev_induct) (auto simp: bloom_sound_def)


subsection \<open>What a write leaves behind\<close>

lemma cw_write_Inr:
  assumes "cw_write c dir now io data files = (files', Inr res)"
  shows "data \<noteq> []" "cwr_chunk_id res = new_chunk_id now"
    "cm_file_path (cwr_chunk_meta res) = chunk_path dir (new_chunk_id now)"
    "files (chunk_path dir (new_chunk_id now)) = None"
    "files' = files(chunk_path dir (new_chunk_id now) \<mapsto> file_of c (new_chunk_id now) data)"
    "cwr_series_results res =
       snd (pass2_loop c (new_chunk_id now) (HEADER_SIZE + dir_size (encoded_of c data)) (encoded_of c data))"
  using assms
  by (auto simp: cw_write_def cw_encode_eq Let_def split: if_splits create_outcome.splits)

text \<open>The index data of a kept series.\<close>

definition result_of :: "('h, 'b, 'z) chunk_crates_scheme \<Rightarrow> u64 \<Rightarrow> encoded_series \<Rightarrow> series_write_result" where
  "result_of c chunk_id s =
     \<lparr>swr_series_key = es_key s,
      swr_entry =
        \<lparr>sce_chunk_id = chunk_id, sce_series_id = xxh64 c (es_key_bytes s),
         sce_time_start_ns = es_time_start_ns s, sce_time_end_ns = es_time_end_ns s,
         sce_size_bytes = word_of_nat
           (length (es_ts_compressed s) + length (es_val_compressed s) + U32_SIZE * 2)\<rparr>,
      swr_stats = es_stats s\<rparr>"

lemma pass2_loop_results: "snd (pass2_loop c chunk_id off ss) = map (result_of c chunk_id) ss"
  by (induction ss arbitrary: off) (simp_all add: Let_def result_of_def)


subsection \<open>A concrete instance of the crates\<close>

text \<open>
  No compression, the byte sum as checksum, and a one-byte bloom filter with one hash
  function (the length of the key).
\<close>

definition plain_crates :: "(bytes, byte) chunk_crates" where
  "plain_crates =
     \<lparr>xxh64 = (\<lambda>bs. word_of_nat (length bs)), hasher_new = [],
      hasher_update = (@), hasher_digest = (\<lambda>bs. word_of_nat (length bs)),
      crc32 = (\<lambda>bs. word_of_nat (sum_list (map unat bs))),
      compress_prepend_size = (\<lambda>bs. bs), decompress_size_prepended = Some,
      bloom_new = (\<lambda>n. 0), bloom_set = (\<lambda>b x. set_bit (length x mod 8) b),
      bloom_check = (\<lambda>b x. bit b (length x mod 8)),
      bloom_number_of_bits = (\<lambda>b. 8), bloom_number_of_hash_functions = (\<lambda>b. 1),
      bloom_sip_keys = (\<lambda>b. ((0, 0), (0, 0))), bloom_bitmap = (\<lambda>b. [b]),
      bloom_from_existing = (\<lambda>bm bits k keys. hd bm)\<rparr>"

lemma plain_crates_lossless: "lz4_lossless plain_crates"
  by (simp add: lz4_lossless_def plain_crates_def)

lemma plain_crates_bloom: "bloom_sound plain_crates"
  by (simp add: bloom_sound_def plain_crates_def bit_set_bit_iff)

text \<open>Two series, the first with two points.\<close>

abbreviation two_series :: series_map where
  "two_series \<equiv>
     [(SeriesKey ''cpu'' [(''host'', ''a'')], [(I64 1, F64 10), (I64 5, F64 20)]),
      (SeriesKey ''mem'' [], [(I64 3, F64 30)])]"

lemma two_series_fits: "chunk_fits plain_crates 7 two_series"
  by (simp add: chunk_fits_def live_def enc_fits_def enc_def encode_series_def file_of_eq
      covered_of_def body_of_def length_header_to_bytes encoded_of_def length_bloom_bytes
      column_bytes_def dir_size_def plain_crates_def to_bytes_def)


lemma two_series_inv: "sm_inv two_series"
  by (simp add: sm_inv_def less_series_key_def sk_pair_def less_i64_def i64_int_def less_char_def)


subsection \<open>Properties\<close>

text \<open>
  C6.  Writing a drained memtable to a chunk file and reading the whole file back, as
  compaction does, returns exactly the points written, series by series and in order,
  provided the names are free of the separators and the lengths fit the format's widths.
\<close>

theorem chunk_roundtrip:
  assumes "lz4_lossless c" "cw_write c dir now io data files = (files', Inr res)"
    "chunk_fits c (cwr_chunk_id res) data"
    "\<forall>(k, ps) \<in> set data. key_type_ok k \<and> key_unambiguous k"
  shows "read_chunk c files' (cm_file_path (cwr_chunk_meta res)) =
    Inr (concat (map (\<lambda>(k, ps). map (point_of k) ps) data))"
proof -
  note w = cw_write_Inr [OF assms(2)]
  have "\<forall>e \<in> set (live data). from_bytes (to_bytes (fst e)) = Inr (fst e)"
    using assms(4) by (auto simp: live_def from_bytes_to_bytes)
  then show ?thesis
    using read_chunk_file_of [OF assms(1)] assms(3) by (simp add: w)
qed

lemma cw_write_two_series:
  "\<exists>files' res. cw_write plain_crates [''chunks''] 7 CreateOk two_series Map.empty = (files', Inr res) \<and>
     cwr_chunk_id res = 7"
  by (simp add: cw_write_def cw_encode_eq new_chunk_id_def Let_def)

theorem chunk_roundtrip_witness:
  "\<exists>files' res.
     cw_write plain_crates [''chunks''] 7 CreateOk two_series Map.empty = (files', Inr res) \<and>
     read_chunk plain_crates files' (cm_file_path (cwr_chunk_meta res)) =
       Inr [point_of (SeriesKey ''cpu'' [(''host'', ''a'')]) (I64 1, F64 10),
            point_of (SeriesKey ''cpu'' [(''host'', ''a'')]) (I64 5, F64 20),
            point_of (SeriesKey ''mem'' []) (I64 3, F64 30)]"
proof -
  obtain files' res where w:
    "cw_write plain_crates [''chunks''] 7 CreateOk two_series Map.empty = (files', Inr res)"
    "cwr_chunk_id res = 7" using cw_write_two_series by blast
  have "read_chunk plain_crates files' (cm_file_path (cwr_chunk_meta res)) =
      Inr (concat (map (\<lambda>(k, ps). map (point_of k) ps) two_series))"
    by (rule chunk_roundtrip [OF plain_crates_lossless w(1)])
      (simp_all only: w(2) two_series_fits,
       simp add: key_type_ok_def key_unambiguous_def str_ok_def as_bytes_def byte_of_char_def
         utf8_ascii_def bt_inv_def)
  with w(1) show ?thesis by auto
qed

text \<open>
  C7.  A time-range query of one series on a written chunk file returns exactly the points of
  that series whose timestamp is in the closed range, in order; \<open>None\<close> counts as no points.
  In particular the skip on the header's time range and the directory scan lose nothing.
\<close>

theorem chunk_read_series_exact:
  assumes "lz4_lossless c" "cw_write c dir now io data files = (files', Inr res)"
    "chunk_fits c (cwr_chunk_id res) data" "sm_inv data"
    "inj_on to_bytes (insert key (fst ` set data))"
  shows "\<exists>r. read_series c files' (cm_file_path (cwr_chunk_meta res)) key lo hi = Inr r \<and>
    (case r of None \<Rightarrow> [] | Some ps \<Rightarrow> ps) =
      map (point_of key) (filter (\<lambda>p. lo \<le> fst p \<and> fst p \<le> hi) (sm_vec data key))"
proof -
  note w = cw_write_Inr [OF assms(2)]
  have "bt_inv data" "\<forall>e \<in> set data. bt_inv (snd e)"
    using assms(4) by (auto simp: sm_inv_def)
  then show ?thesis
    using read_series_file_of [OF assms(1) _ _ _ _ assms(5)] assms(3) by (simp add: w)
qed

theorem chunk_read_series_exact_witness:
  "\<exists>files' res r.
     cw_write plain_crates [''chunks''] 7 CreateOk two_series Map.empty = (files', Inr res) \<and>
     read_series plain_crates files' (cm_file_path (cwr_chunk_meta res))
       (SeriesKey ''cpu'' [(''host'', ''a'')]) (I64 2) (I64 9) = Inr r \<and>
     (case r of None \<Rightarrow> [] | Some ps \<Rightarrow> ps) =
       [point_of (SeriesKey ''cpu'' [(''host'', ''a'')]) (I64 5, F64 20)]"
proof -
  let ?k = "SeriesKey ''cpu'' [(''host'', ''a'')]"
  obtain files' res where w:
    "cw_write plain_crates [''chunks''] 7 CreateOk two_series Map.empty = (files', Inr res)"
    "cwr_chunk_id res = 7" using cw_write_two_series by blast
  have inj: "inj_on to_bytes (insert ?k (fst ` set two_series))"
    by (simp add: to_bytes_def as_bytes_def byte_of_char_def)
  obtain r where "read_series plain_crates files' (cm_file_path (cwr_chunk_meta res)) ?k (I64 2) (I64 9)
      = Inr r" "(case r of None \<Rightarrow> [] | Some ps \<Rightarrow> ps) =
      map (point_of ?k) (filter (\<lambda>p. I64 2 \<le> fst p \<and> fst p \<le> I64 9) (sm_vec two_series ?k))"
    using chunk_read_series_exact [OF plain_crates_lossless w(1) _ two_series_inv inj, unfolded w(2),
        OF two_series_fits] by blast
  with w(1) show ?thesis
    by (auto simp: sm_vec_def less_eq_i64_def i64_int_def)
qed


text \<open>
  C31.  The bloom filter of a written chunk file never answers "absent" for a series that has
  points in the file.
\<close>

theorem chunk_bloom_no_false_negative:
  assumes "bloom_sound c" "cw_write c dir now io data files = (files', Inr res)"
    "chunk_fits c (cwr_chunk_id res) data" "length (bloom_bitmap c (bloom_of c data)) < 2 ^ 32"
    "(key, ps) \<in> set data" "ps \<noteq> []"
  shows "check_bloom c files' (cm_file_path (cwr_chunk_meta res)) key = Inr True"
proof -
  note w = cw_write_Inr [OF assms(2)]
  have "to_bytes key \<in> set (map es_key_bytes (encoded_of c data))"
    using assms(5,6) by (force simp: encoded_of_def live_def)
  then have "bloom_check c (bloom_of c data) (to_bytes key)"
    using bloom_check_foldl [OF assms(1)] by (simp only: bloom_of_def)
  then show ?thesis
    using check_bloom_file_of [OF _ assms(4) _ assms(1), of "new_chunk_id now"] assms(3)
    by (simp add: w chunk_fits_def)
qed

theorem chunk_bloom_no_false_negative_witness:
  "\<exists>files' res.
     cw_write plain_crates [''chunks''] 7 CreateOk two_series Map.empty = (files', Inr res) \<and>
     check_bloom plain_crates files' (cm_file_path (cwr_chunk_meta res)) (SeriesKey ''mem'' []) = Inr True"
proof -
  obtain files' res where w:
    "cw_write plain_crates [''chunks''] 7 CreateOk two_series Map.empty = (files', Inr res)"
    "cwr_chunk_id res = 7" using cw_write_two_series by blast
  have "check_bloom plain_crates files' (cm_file_path (cwr_chunk_meta res)) (SeriesKey ''mem'' []) = Inr True"
    by (rule chunk_bloom_no_false_negative [OF plain_crates_bloom w(1), where ps = "[(I64 3, F64 30)]"])
      (simp_all only: w(2) two_series_fits, simp_all add: plain_crates_def)
  with w(1) show ?thesis by blast
qed

text \<open>
  C32.  The index data a write returns is exact: one result per series with points, in order,
  whose identifier is the hash of the key, whose time range is the range of its timestamps and
  whose statistics are those of its values.
\<close>

theorem chunk_write_index_data:
  assumes "cw_write c dir now io data files = (files', Inr res)" "sm_inv data"
  shows "map swr_series_key (cwr_series_results res) = map fst data \<and>
    (\<forall>i < length data. let r = cwr_series_results res ! i; ps = snd (data ! i) in
       sce_chunk_id (swr_entry r) = cwr_chunk_id res \<and>
       sce_series_id (swr_entry r) = series_id c (fst (data ! i)) \<and>
       sce_time_start_ns (swr_entry r) = Min (fst ` set ps) \<and>
       sce_time_end_ns (swr_entry r) = Max (fst ` set ps) \<and>
       from_values (map snd ps) = Some (swr_stats r))"
proof -
  note w = cw_write_Inr [OF assms(1)]
  have live: "live data = data" using assms(2) by (auto simp: live_def sm_inv_def filter_id_conv)
  have res: "cwr_series_results res = map (\<lambda>e. result_of c (cwr_chunk_id res) (enc c e)) data"
    by (simp add: w pass2_loop_results encoded_of_def live)
  have entry: "let r = result_of c (cwr_chunk_id res) (enc c e); ps = snd e in
       sce_chunk_id (swr_entry r) = cwr_chunk_id res \<and>
       sce_series_id (swr_entry r) = series_id c (fst e) \<and>
       sce_time_start_ns (swr_entry r) = Min (fst ` set ps) \<and>
       sce_time_end_ns (swr_entry r) = Max (fst ` set ps) \<and>
       from_values (map snd ps) = Some (swr_stats r)" if mem: "e \<in> set data" for e
  proof -
    obtain k ps where e: "e = (k, ps)" by (cases e)
    have ps: "bt_inv ps" "ps \<noteq> []" using assms(2) mem by (auto simp: e sm_inv_def)
    have "es_time_start_ns (enc c (k, ps)) \<in> fst ` set ps" "es_time_end_ns (enc c (k, ps)) \<in> fst ` set ps"
      using ps(2) nth_mem [of 0 "map fst ps"] nth_mem [of "length ps - 1" "map fst ps"]
      by (simp_all add: enc_def encode_series_def)
    then have "Min (fst ` set ps) = es_time_start_ns (enc c (k, ps))"
      "Max (fst ` set ps) = es_time_end_ns (enc c (k, ps))"
      using enc_times [OF ps(1)] by (auto intro!: Min_eqI Max_eqI)
    moreover obtain st where "from_values (map snd ps) = Some st"
      using ps(2) from_values_Some_iff [of "map snd ps"] by auto
    ultimately show ?thesis
      by (simp add: e result_of_def series_id_def Let_def) (simp add: enc_def encode_series_def)
  qed
  show ?thesis
    using entry by (simp add: res) (simp add: result_of_def enc_def encode_series_def)
qed

theorem chunk_write_index_data_witness:
  "\<exists>files' res.
     cw_write plain_crates [''chunks''] 7 CreateOk two_series Map.empty = (files', Inr res) \<and>
     map swr_series_key (cwr_series_results res) =
       [SeriesKey ''cpu'' [(''host'', ''a'')], SeriesKey ''mem'' []] \<and>
     sce_time_end_ns (swr_entry (cwr_series_results res ! 0)) = I64 5"
proof -
  obtain files' res where w:
    "cw_write plain_crates [''chunks''] 7 CreateOk two_series Map.empty = (files', Inr res)"
    using cw_write_two_series by blast
  have keys: "map swr_series_key (cwr_series_results res) = map fst two_series"
    and ends: "sce_time_end_ns (swr_entry (cwr_series_results res ! 0)) =
      Max (fst ` set (snd (two_series ! 0)))"
    using chunk_write_index_data [OF w two_series_inv] by (auto simp: Let_def)
  have "Max (fst ` set (snd (two_series ! 0))) = I64 5"
    by (simp add: max_def less_eq_i64_def i64_int_def)
  with w keys ends show ?thesis by auto
qed

text \<open>
  A chunk write never changes an existing file, whether it succeeds, fails to open its
  file or fails in the middle of the write: chunks are immutable once written.
\<close>

theorem chunk_write_keeps_files:
  assumes "files p = Some bs"
  shows "fst (cw_write c dir now io data files) p = Some bs"
  using assms
  by (auto simp: cw_write_def cw_encode_eq Let_def split: create_outcome.splits)

theorem chunk_write_keeps_files_witness:
  "fst (cw_write plain_crates [''chunks''] 7 CreateOk two_series
      [chunk_path [''chunks''] 7 \<mapsto> [1]]) (chunk_path [''chunks''] 7) = Some [1]"
  by (rule chunk_write_keeps_files) simp


lemma is_checksum_valid_Inr:
  assumes "is_checksum_valid c bs = Inr u"
  shows "\<exists>data. bs = data @ u32_to_le_bytes (crc32 c data)"
proof -
  let ?d = "take (length bs - 4) bs" and ?s = "drop (length bs - 4) bs"
  obtain w where w: "u32_from_le_bytes ?s = Inr w" "crc32 c ?d = w"
    using assms by (auto simp: is_checksum_valid_def Let_def result_simps)
  then have "bs = ?d @ u32_to_le_bytes (crc32 c ?d)"
    using u32_from_le_bytes_Inr [OF w(1)] by (metis append_take_drop_id)
  then show ?thesis by blast
qed

lemma is_magic_valid_Inr:
  assumes "is_magic_valid bs = Inr u"
  shows "take 4 bs = u32_to_le_bytes MAGIC"
proof -
  obtain seg w where "slice bs 0 4 = Inr seg" "u32_from_le_bytes seg = Inr w" "w = MAGIC"
    using assms by (auto simp: is_magic_valid_def read_u32_def result_simps)
  then show ?thesis
    using u32_from_le_bytes_Inr by (auto simp: slice_def Let_def split: if_splits)
qed

text \<open>
  C33.  No read returns anything from a corrupt file: when a query or a compaction read of a
  file succeeds, even with no points, the file starts with the magic number and ends with
  the checksum of all bytes before it.
\<close>

theorem chunk_read_checks_file:
  assumes "(\<exists>r. read_series c files p key lo hi = Inr r) \<or> (\<exists>ds. read_chunk c files p = Inr ds)"
  shows "\<exists>data. files p = Some (data @ u32_to_le_bytes (crc32 c data)) \<and>
    take 4 (data @ u32_to_le_bytes (crc32 c data)) = u32_to_le_bytes MAGIC"
proof -
  obtain bs u v where bs: "files p = Some bs" "is_magic_valid bs = Inr u" "is_checksum_valid c bs = Inr v"
    using assms
    by (auto simp: read_series_def read_chunk_def read_file_def result_simps split: option.splits)
  then show ?thesis using is_checksum_valid_Inr is_magic_valid_Inr by blast
qed

theorem chunk_read_checks_file_witness:
  "\<exists>data. file_of plain_crates 7 two_series = data @ u32_to_le_bytes (crc32 plain_crates data) \<and>
    take 4 (data @ u32_to_le_bytes (crc32 plain_crates data)) = u32_to_le_bytes MAGIC"
proof -
  let ?files = "[[''f''] \<mapsto> file_of plain_crates 7 two_series]"
  have "\<exists>r. read_series plain_crates ?files [''f''] (SeriesKey ''cpu'' []) (I64 100) (I64 100) = Inr r"
    using file_of_checks [of plain_crates 7 two_series] two_series_fits
    by (simp add: read_series_def read_file_def chunk_fits_def is_within_global_range_def
        encoded_of_def live_def enc_def encode_series_def less_i64_def less_eq_i64_def i64_int_def
        I64_MIN_def max_def)
  then have "\<exists>data. ?files [''f''] = Some (data @ u32_to_le_bytes (crc32 plain_crates data)) \<and>
      take 4 (data @ u32_to_le_bytes (crc32 plain_crates data)) = u32_to_le_bytes MAGIC"
    by (intro chunk_read_checks_file disjI1)
  then show ?thesis by simp
qed

end
