(* ===== verification/Chunk_Index.thy ===== *)
theory Chunk_Index
  imports Types
begin

section \<open>Chunk index (index/chunk_index.rs)\<close>

text \<open>
  The in-memory index over the chunk files: the registry of series, the per-series map from
  start time to chunk entry, the inverted tag index, the value statistics, the files, and the
  watermarks of the last snapshot. A \<open>HashMap\<close> is its entries in iteration order, a
  \<open>HashSet\<close> of ids a list without repetitions; the lemmas do not depend on that order.
\<close>

subsection \<open>State and operations\<close>

record chunk_index =
  ci_series_registry :: "(u64 \<times> series_key) list"
  ci_time_index :: "(u64 \<times> (i64 \<times> series_chunk_entry) list) list"
  ci_tag_index :: "((string \<times> string) \<times> u64 list) list"
  ci_chunk_stats :: "((u64 \<times> u64) \<times> series_chunk_stats) list"
  ci_chunk_files :: "(u64 \<times> chunk_meta) list"
  ci_shard_watermarks :: "u64 list"

definition ci_new :: chunk_index where
  "ci_new =
     \<lparr>ci_series_registry = [], ci_time_index = [], ci_tag_index = [], ci_chunk_stats = [],
      ci_chunk_files = [], ci_shard_watermarks = []\<rparr>"

text \<open>\<open>tag_index.entry((k, v)).or_default().insert(id)\<close> for every tag of a series.\<close>

definition tag_insert ::
    "u64 \<Rightarrow> tag_map \<Rightarrow> ((string \<times> string) \<times> u64 list) list \<Rightarrow> ((string \<times> string) \<times> u64 list) list" where
  "tag_insert sid tags ti = fold (\<lambda>(tk, tv). hm_modify (tk, tv) [] (List.insert sid)) tags ti"

definition ci_register ::
    "('h, 'z) xxh64_crate_scheme \<Rightarrow> series_key \<Rightarrow> series_chunk_entry \<Rightarrow> series_chunk_stats \<Rightarrow>
     chunk_meta \<Rightarrow> chunk_index \<Rightarrow> chunk_index \<times> u64" where
  "ci_register h key entry stats meta ix =
     (let sid = series_id h key;
          chunk_id = sce_chunk_id entry;
          time_start_ns = sce_time_start_ns entry
      in (ix\<lparr>ci_series_registry := hm_insert sid key (ci_series_registry ix),
             ci_tag_index :=
               (if map_of (ci_series_registry ix) sid = None
                then tag_insert sid (sk_tags key) (ci_tag_index ix) else ci_tag_index ix),
             ci_time_index :=
               hm_modify sid [] (bt_insert time_start_ns entry) (ci_time_index ix),
             ci_chunk_stats := hm_insert (chunk_id, sid) stats (ci_chunk_stats ix),
             ci_chunk_files := hm_insert chunk_id meta (ci_chunk_files ix)\<rparr>, sid))"

definition ci_deregister :: "u64 \<Rightarrow> u64 \<Rightarrow> i64 \<Rightarrow> chunk_index \<Rightarrow> chunk_index" where
  "ci_deregister sid chunk_id time_start_ns ix =
     (let time_index =
            (case map_of (ci_time_index ix) sid of
               None \<Rightarrow> ci_time_index ix
             | Some time_map \<Rightarrow>
                 if map_option sce_chunk_id (map_of time_map time_start_ns) = Some chunk_id
                 then hm_insert sid (bt_remove time_start_ns time_map) (ci_time_index ix)
                 else ci_time_index ix);
          stats = hm_remove (chunk_id, sid) (ci_chunk_stats ix);
          chunk_still_referenced = list_ex (\<lambda>e. fst (fst e) = chunk_id) stats
      in ix\<lparr>ci_time_index := time_index, ci_chunk_stats := stats,
            ci_chunk_files :=
              (if chunk_still_referenced then ci_chunk_files ix
               else hm_remove chunk_id (ci_chunk_files ix))\<rparr>)"

text \<open>The loop over the remaining filters, with its two early returns.\<close>

fun resolve_loop ::
    "((string \<times> string) \<times> u64 list) list \<Rightarrow> (string \<times> string) list \<Rightarrow> u64 list \<Rightarrow> u64 list option" where
  "resolve_loop ti [] candidate_ids = Some candidate_ids"
| "resolve_loop ti (f # fs) candidate_ids =
     (case map_of ti f of
        None \<Rightarrow> None
      | Some ids \<Rightarrow>
          (let kept = filter (\<lambda>i. i \<in> set ids) candidate_ids
           in if kept = [] then None else resolve_loop ti fs kept))"

definition has_metric :: "chunk_index \<Rightarrow> string \<Rightarrow> u64 \<Rightarrow> bool" where
  "has_metric ix metric sid =
     (case map_of (ci_series_registry ix) sid of None \<Rightarrow> False | Some sk \<Rightarrow> sk_metric_name sk = metric)"

definition ci_resolve_series :: "chunk_index \<Rightarrow> string \<Rightarrow> (string \<times> string) list \<Rightarrow> u64 list" where
  "ci_resolve_series ix metric tag_filters =
     (case tag_filters of
        [] \<Rightarrow> map fst (filter (\<lambda>(_, sk). sk_metric_name sk = metric) (ci_series_registry ix))
      | f # fs \<Rightarrow>
          (case map_of (ci_tag_index ix) f of
             None \<Rightarrow> []
           | Some first_set \<Rightarrow>
               (let candidate_ids = filter (has_metric ix metric) first_set
                in if candidate_ids = [] then []
                   else case resolve_loop (ci_tag_index ix) fs candidate_ids of
                          None \<Rightarrow> []
                        | Some ids \<Rightarrow> filter (has_metric ix metric) ids)))"

definition ci_prune_chunks ::
    "chunk_index \<Rightarrow> u64 \<Rightarrow> i64 \<Rightarrow> i64 \<Rightarrow> value_predicate option \<Rightarrow> series_chunk_entry list" where
  "ci_prune_chunks ix sid time_start_ns time_end_ns predicate =
     (case map_of (ci_time_index ix) sid of
        None \<Rightarrow> []
      | Some time_map \<Rightarrow>
          map snd
            (filter (\<lambda>(_, meta).
                case predicate of
                  None \<Rightarrow> True
                | Some p \<Rightarrow>
                    (case map_of (ci_chunk_stats ix) (sce_chunk_id meta, sce_series_id meta) of
                       None \<Rightarrow> True
                     | Some stats \<Rightarrow> matches p (scs_min_value stats) (scs_max_value stats)))
              (filter (\<lambda>(_, meta). time_start_ns \<le> sce_time_end_ns meta)
                (bt_range_to time_end_ns time_map))))"

definition ci_series_count :: "chunk_index \<Rightarrow> nat" where
  "ci_series_count ix = length (ci_series_registry ix)"

definition ci_series_chunk_count :: "chunk_index \<Rightarrow> nat" where
  "ci_series_chunk_count ix = length (ci_chunk_stats ix)"

definition ci_chunk_file_count :: "chunk_index \<Rightarrow> nat" where
  "ci_chunk_file_count ix = length (ci_chunk_files ix)"


subsection \<open>Views and invariant\<close>

text \<open>The entry of a series at a start time, and the series with a tag.\<close>

definition ci_entry :: "chunk_index \<Rightarrow> u64 \<Rightarrow> i64 \<Rightarrow> series_chunk_entry option" where
  "ci_entry ix sid t =
     (case map_of (ci_time_index ix) sid of None \<Rightarrow> None | Some time_map \<Rightarrow> map_of time_map t)"

definition tagged :: "((string \<times> string) \<times> u64 list) list \<Rightarrow> string \<times> string \<Rightarrow> u64 set" where
  "tagged ti f = (case map_of ti f of None \<Rightarrow> {} | Some ids \<Rightarrow> set ids)"

definition ci_maps_ok :: "chunk_index \<Rightarrow> bool" where
  "ci_maps_ok ix \<longleftrightarrow>
     hm_inv (ci_series_registry ix) \<and> hm_inv (ci_time_index ix) \<and> hm_inv (ci_chunk_stats ix) \<and>
     hm_inv (ci_chunk_files ix) \<and> (\<forall>e \<in> set (ci_time_index ix). bt_inv (snd e)) \<and>
     (\<forall>e \<in> set (ci_series_registry ix). bt_inv (sk_tags (snd e)))"

text \<open>The tag index is exactly the inversion of the registry.\<close>

definition ci_tags_ok :: "chunk_index \<Rightarrow> bool" where
  "ci_tags_ok ix \<longleftrightarrow>
     (\<forall>f. tagged (ci_tag_index ix) f =
        {sid. \<exists>sk. map_of (ci_series_registry ix) sid = Some sk \<and> f \<in> set (sk_tags sk)})"

definition ci_registry_ok :: "('h, 'z) xxh64_crate_scheme \<Rightarrow> chunk_index \<Rightarrow> bool" where
  "ci_registry_ok h ix \<longleftrightarrow>
     (\<forall>sid sk. map_of (ci_series_registry ix) sid = Some sk \<longrightarrow> sid = series_id h sk)"

text \<open>A file is listed exactly while some series references its chunk.\<close>

definition ci_files_ok :: "chunk_index \<Rightarrow> bool" where
  "ci_files_ok ix \<longleftrightarrow>
     fst ` set (ci_chunk_files ix) = (\<lambda>e. fst (fst e)) ` set (ci_chunk_stats ix)"

text \<open>Every entry is filed under its series and its start time.\<close>

definition ci_times_ok :: "chunk_index \<Rightarrow> bool" where
  "ci_times_ok ix \<longleftrightarrow>
     (\<forall>sid t e. ci_entry ix sid t = Some e \<longrightarrow> sce_time_start_ns e = t \<and> sce_series_id e = sid)"

definition ci_inv :: "('h, 'z) xxh64_crate_scheme \<Rightarrow> chunk_index \<Rightarrow> bool" where
  "ci_inv h ix \<longleftrightarrow>
     ci_maps_ok ix \<and> ci_tags_ok ix \<and> ci_registry_ok h ix \<and> ci_files_ok ix \<and> ci_times_ok ix"

text \<open>The part of the invariant that holds whatever keys are registered.\<close>

definition ci_base :: "('h, 'z) xxh64_crate_scheme \<Rightarrow> chunk_index \<Rightarrow> bool" where
  "ci_base h ix \<longleftrightarrow> ci_maps_ok ix \<and> ci_registry_ok h ix \<and> ci_files_ok ix \<and> ci_times_ok ix"

lemma ci_inv_base: "ci_inv h ix \<longleftrightarrow> ci_base h ix \<and> ci_tags_ok ix"
  by (auto simp: ci_inv_def ci_base_def)


subsection \<open>Effect of the operations on the views\<close>

lemma tagged_modify:
  "tagged (hm_modify g [] (List.insert sid) ti) f = tagged ti f \<union> (if f = g then {sid} else {})"
  by (auto simp: tagged_def map_of_hm_modify split: option.splits)

lemma tagged_tag_insert:
  "tagged (tag_insert sid tags ti) f = tagged ti f \<union> (if f \<in> set tags then {sid} else {})"
proof (induction tags arbitrary: ti)
  case Nil
  then show ?case by (simp add: tag_insert_def)
next
  case (Cons t tags)
  obtain tk tv where t: "t = (tk, tv)" by (cases t)
  show ?case
    using Cons.IH [of "hm_modify (tk, tv) [] (List.insert sid) ti"]
    by (auto simp: tag_insert_def t tagged_modify split: if_splits)
qed

lemma ci_entry_register:
  "ci_entry (fst (ci_register h key entry stats meta ix)) sid t =
     (if sid = series_id h key \<and> t = sce_time_start_ns entry then Some entry else ci_entry ix sid t)"
  by (auto simp: ci_entry_def ci_register_def Let_def map_of_hm_modify map_of_bt_insert
      split: option.splits)

lemma ci_entry_deregister:
  "ci_entry (ci_deregister sid' chunk_id t' ix) sid t =
     (if sid = sid' \<and> t = t' \<and> map_option sce_chunk_id (ci_entry ix sid t) = Some chunk_id then None
      else ci_entry ix sid t)"
  by (auto simp: ci_entry_def ci_deregister_def Let_def map_of_hm_insert bt_remove_def
      map_of_filter_neq split: option.splits)

lemma stats_register:
  "map_of (ci_chunk_stats (fst (ci_register h key entry stats meta ix))) =
     (map_of (ci_chunk_stats ix))((sce_chunk_id entry, series_id h key) \<mapsto> stats)"
  by (simp add: ci_register_def Let_def map_of_hm_insert)

lemma stats_deregister:
  "map_of (ci_chunk_stats (ci_deregister sid chunk_id t ix)) =
     (map_of (ci_chunk_stats ix))((chunk_id, sid) := None)"
  by (simp add: ci_deregister_def Let_def hm_remove_def map_of_filter_neq)

lemma registry_register:
  "map_of (ci_series_registry (fst (ci_register h key entry stats meta ix))) =
     (map_of (ci_series_registry ix))(series_id h key \<mapsto> key)"
  by (simp add: ci_register_def Let_def map_of_hm_insert)

lemma registry_deregister [simp]:
  "ci_series_registry (ci_deregister sid chunk_id t ix) = ci_series_registry ix"
  "ci_tag_index (ci_deregister sid chunk_id t ix) = ci_tag_index ix"
  by (simp_all add: ci_deregister_def Let_def)


subsection \<open>The invariant is kept\<close>

lemma set_hm_insert_subset: "set (hm_insert k v m) \<subseteq> insert (k, v) (set m)"
  by (induction m) auto

lemma ci_inv_new: "ci_inv h ci_new"
  by (simp add: ci_inv_def ci_maps_ok_def ci_tags_ok_def ci_registry_ok_def ci_files_ok_def
      ci_times_ok_def ci_new_def ci_entry_def tagged_def)

lemma bt_inv_time_map:
  assumes "ci_maps_ok ix"
  shows "bt_inv (case map_of (ci_time_index ix) sid of None \<Rightarrow> [] | Some m \<Rightarrow> m)"
  using assms by (fastforce simp: ci_maps_ok_def split: option.splits dest: map_of_SomeD)

lemma ci_maps_ok_register:
  assumes "ci_maps_ok ix" "bt_inv (sk_tags key)"
  shows "ci_maps_ok (fst (ci_register h key entry stats meta ix))"
proof -
  let ?tm = "case map_of (ci_time_index ix) (series_id h key) of None \<Rightarrow> [] | Some m \<Rightarrow> m"
  have "bt_inv (bt_insert (sce_time_start_ns entry) entry ?tm)"
    using bt_inv_time_map [OF assms(1)] by (rule bt_inv_insert)
  then show ?thesis
    using assms set_hm_insert_subset [of "series_id h key" key "ci_series_registry ix"]
      set_hm_insert_subset [of "series_id h key" "bt_insert (sce_time_start_ns entry) entry ?tm"
        "ci_time_index ix"]
    by (auto simp: ci_maps_ok_def ci_register_def Let_def hm_inv_insert hm_modify_def)
qed

lemma ci_maps_ok_deregister:
  assumes "ci_maps_ok ix"
  shows "ci_maps_ok (ci_deregister sid chunk_id t ix)"
proof (cases "map_of (ci_time_index ix) sid")
  case None
  with assms show ?thesis
    by (simp add: ci_maps_ok_def ci_deregister_def Let_def hm_remove_def hm_inv_filter)
next
  case (Some tm)
  then have "bt_inv (bt_remove t tm)"
    using bt_inv_time_map [OF assms, of sid] by (simp add: bt_remove_def bt_inv_filter)
  with assms Some set_hm_insert_subset [of sid "bt_remove t tm" "ci_time_index ix"] show ?thesis
    by (auto simp: ci_maps_ok_def ci_deregister_def Let_def hm_remove_def hm_inv_filter hm_inv_insert)
qed

text \<open>Registering keeps the tag index exact unless the id already belongs to another key.\<close>

definition no_collision :: "('h, 'z) xxh64_crate_scheme \<Rightarrow> series_key \<Rightarrow> chunk_index \<Rightarrow> bool" where
  "no_collision h key ix \<longleftrightarrow>
     (case map_of (ci_series_registry ix) (series_id h key) of None \<Rightarrow> True | Some sk \<Rightarrow> sk = key)"

lemma ci_tags_ok_register:
  assumes "ci_tags_ok ix" "no_collision h key ix"
  shows "ci_tags_ok (fst (ci_register h key entry stats meta ix))"
proof (cases "map_of (ci_series_registry ix) (series_id h key)")
  case None
  then have "ci_tag_index (fst (ci_register h key entry stats meta ix)) =
      tag_insert (series_id h key) (sk_tags key) (ci_tag_index ix)"
    by (simp add: ci_register_def Let_def)
  with None assms(1) show ?thesis
    by (auto simp: ci_tags_ok_def registry_register tagged_tag_insert)
next
  case (Some sk)
  then have "sk = key" using assms(2) by (simp add: no_collision_def)
  moreover have "ci_tag_index (fst (ci_register h key entry stats meta ix)) = ci_tag_index ix"
    using Some by (simp add: ci_register_def Let_def)
  ultimately show ?thesis
    using Some assms(1) by (auto simp: ci_tags_ok_def registry_register)
qed

lemma ci_files_ok_register:
  "ci_files_ok ix \<Longrightarrow> ci_files_ok (fst (ci_register h key entry stats meta ix))"
proof -
  assume "ci_files_ok ix"
  moreover have "(\<lambda>e. fst (fst e)) ` set m = fst ` fst ` set m" for m :: "((u64 \<times> u64) \<times> series_chunk_stats) list"
    by (simp add: image_image)
  ultimately show ?thesis
    by (simp add: ci_files_ok_def ci_register_def Let_def set_hm_insert_fst)
qed

lemma ci_files_ok_deregister:
  assumes "ci_files_ok ix"
  shows "ci_files_ok (ci_deregister sid chunk_id t ix)"
proof -
  let ?stats = "filter (\<lambda>e. fst e \<noteq> (chunk_id, sid)) (ci_chunk_stats ix)"
  have image: "(\<lambda>e. fst (fst e)) ` set ?stats =
      (if chunk_id \<in> (\<lambda>e. fst (fst e)) ` set ?stats then fst ` set (ci_chunk_files ix)
       else fst ` set (ci_chunk_files ix) - {chunk_id})" (is "?lhs = ?rhs")
  proof (rule set_eqI)
    fix i
    have "i \<in> ?lhs \<longleftrightarrow> i \<in> (\<lambda>e. fst (fst e)) ` set (ci_chunk_stats ix)" if "i \<noteq> chunk_id"
      using that by force
    then show "i \<in> ?lhs \<longleftrightarrow> i \<in> ?rhs"
      using assms by (cases "i = chunk_id") (auto simp: ci_files_ok_def)
  qed
  have removed: "fst ` set (filter (\<lambda>e. fst e \<noteq> chunk_id) (ci_chunk_files ix)) =
      fst ` set (ci_chunk_files ix) - {chunk_id}" by force
  have referenced: "list_ex (\<lambda>e. fst (fst e) = chunk_id) ?stats \<longleftrightarrow>
      chunk_id \<in> (\<lambda>e. fst (fst e)) ` set ?stats" by (force simp: list_ex_iff)
  show ?thesis
    unfolding ci_files_ok_def ci_deregister_def Let_def hm_remove_def referenced
    using image removed by (simp split: if_splits)
qed

lemma ci_base_register:
  assumes "ci_base h ix" "bt_inv (sk_tags key)" "sce_series_id entry = series_id h key"
  shows "ci_base h (fst (ci_register h key entry stats meta ix))"
  using assms
  by (simp add: ci_base_def ci_registry_ok_def registry_register ci_times_ok_def ci_entry_register
      ci_maps_ok_register ci_files_ok_register)

lemma ci_base_deregister: "ci_base h ix \<Longrightarrow> ci_base h (ci_deregister sid chunk_id t ix)"
  by (simp add: ci_base_def ci_registry_ok_def ci_times_ok_def ci_entry_deregister
      ci_maps_ok_deregister ci_files_ok_deregister)

lemma ci_tags_ok_deregister: "ci_tags_ok ix \<Longrightarrow> ci_tags_ok (ci_deregister sid chunk_id t ix)"
  by (simp add: ci_tags_ok_def)

lemma ci_inv_register:
  assumes "ci_inv h ix" "no_collision h key ix" "bt_inv (sk_tags key)"
    "sce_series_id entry = series_id h key"
  shows "ci_inv h (fst (ci_register h key entry stats meta ix))"
  using assms by (simp add: ci_inv_base ci_base_register ci_tags_ok_register)

lemma ci_inv_deregister: "ci_inv h ix \<Longrightarrow> ci_inv h (ci_deregister sid chunk_id t ix)"
  by (simp add: ci_inv_base ci_base_deregister ci_tags_ok_deregister)


subsection \<open>Queries\<close>

lemma resolve_loop_set:
  "set (case resolve_loop ti fs ids of None \<Rightarrow> [] | Some r \<Rightarrow> r) =
     {i \<in> set ids. \<forall>f \<in> set fs. i \<in> tagged ti f}"
proof (induction fs arbitrary: ids)
  case Nil
  then show ?case by simp
next
  case (Cons f fs)
  show ?case
  proof (cases "map_of ti f")
    case None
    then show ?thesis by (simp add: tagged_def)
  next
    case (Some s)
    let ?kept = "filter (\<lambda>i. i \<in> set s) ids"
    have "set ?kept = {i \<in> set ids. i \<in> tagged ti f}" using Some by (auto simp: tagged_def)
    then show ?thesis
      using Cons.IH [of ?kept] Some by (cases "?kept = []") (auto simp: Let_def filter_empty_conv)
  qed
qed

lemma has_metric_iff:
  "has_metric ix metric sid \<longleftrightarrow>
     (\<exists>sk. map_of (ci_series_registry ix) sid = Some sk \<and> sk_metric_name sk = metric)"
  by (simp add: has_metric_def split: option.splits)

lemma resolve_filtered:
  "set (ci_resolve_series ix metric (f # fs)) =
     {sid \<in> tagged (ci_tag_index ix) f. has_metric ix metric sid \<and>
        (\<forall>g \<in> set fs. sid \<in> tagged (ci_tag_index ix) g)}"
proof (cases "map_of (ci_tag_index ix) f")
  case None
  then show ?thesis by (simp add: ci_resolve_series_def tagged_def)
next
  case (Some first_set)
  let ?c = "filter (has_metric ix metric) first_set"
  have "set (case resolve_loop (ci_tag_index ix) fs ?c of None \<Rightarrow> [] | Some ids \<Rightarrow> filter (has_metric ix metric) ids) =
      {sid \<in> set ?c. \<forall>g \<in> set fs. sid \<in> tagged (ci_tag_index ix) g}"
    using resolve_loop_set [of "ci_tag_index ix" fs ?c] by (auto split: option.splits)
  with Some show ?thesis
    by (cases "?c = []") (auto simp: ci_resolve_series_def tagged_def filter_empty_conv)
qed

lemma tags_match_iff:
  assumes "bt_inv (sk_tags sk)" "hm_inv fs"
  shows "(\<forall>f \<in> set fs. f \<in> set (sk_tags sk)) \<longleftrightarrow> map_of fs \<subseteq>\<^sub>m map_of (sk_tags sk)"
proof -
  have "(\<forall>f \<in> set fs. f \<in> set (sk_tags sk)) \<longleftrightarrow>
      (\<forall>k v. map_of fs k = Some v \<longrightarrow> map_of (sk_tags sk) k = Some v)"
    by (auto simp: hm.mem_entries_iff [OF assms(2), symmetric] bt.mem_entries_iff [OF assms(1), symmetric])
  then show ?thesis by (auto simp: map_le_def dom_def)
qed

lemma mem_ci_resolve_series:
  assumes inv: "ci_inv h ix" and fs: "hm_inv fs"
  shows "sid \<in> set (ci_resolve_series ix metric fs) \<longleftrightarrow>
    (\<exists>sk. map_of (ci_series_registry ix) sid = Some sk \<and> sk_metric_name sk = metric \<and>
       map_of fs \<subseteq>\<^sub>m map_of (sk_tags sk))"
proof (cases fs)
  case Nil
  have "hm_inv (ci_series_registry ix)" using inv by (simp add: ci_inv_def ci_maps_ok_def)
  then show ?thesis
    using hm.mem_entries_iff [of "ci_series_registry ix"]
    by (force simp: Nil ci_resolve_series_def)
next
  case (Cons f gs)
  have tags: "tagged (ci_tag_index ix) g =
      {sid. \<exists>sk. map_of (ci_series_registry ix) sid = Some sk \<and> g \<in> set (sk_tags sk)}" for g
    using inv unfolding ci_inv_def ci_tags_ok_def by blast
  have sorted: "bt_inv (sk_tags sk)" if "map_of (ci_series_registry ix) sid = Some sk" for sk
    using inv map_of_SomeD [OF that] by (fastforce simp: ci_inv_def ci_maps_ok_def)
  have "sid \<in> set (ci_resolve_series ix metric fs) \<longleftrightarrow>
      (\<exists>sk. map_of (ci_series_registry ix) sid = Some sk \<and> sk_metric_name sk = metric \<and>
         (\<forall>g \<in> set fs. g \<in> set (sk_tags sk)))"
    by (auto simp: Cons resolve_filtered has_metric_iff tags)
  also have "\<dots> \<longleftrightarrow> (\<exists>sk. map_of (ci_series_registry ix) sid = Some sk \<and> sk_metric_name sk = metric \<and>
         map_of fs \<subseteq>\<^sub>m map_of (sk_tags sk))"
    using tags_match_iff [OF sorted fs] by blast
  finally show ?thesis .
qed

text \<open>Whether the statistics of an entry rule the predicate out.\<close>

definition stats_allow :: "chunk_index \<Rightarrow> value_predicate option \<Rightarrow> series_chunk_entry \<Rightarrow> bool" where
  "stats_allow ix predicate e \<longleftrightarrow>
     (\<forall>p st. predicate = Some p \<longrightarrow>
        map_of (ci_chunk_stats ix) (sce_chunk_id e, sce_series_id e) = Some st \<longrightarrow>
        matches p (scs_min_value st) (scs_max_value st))"

lemma mem_ci_prune_chunks:
  assumes "ci_maps_ok ix"
  shows "e \<in> set (ci_prune_chunks ix sid lo hi predicate) \<longleftrightarrow>
    (\<exists>t \<le> hi. ci_entry ix sid t = Some e \<and> lo \<le> sce_time_end_ns e \<and> stats_allow ix predicate e)"
proof (cases "map_of (ci_time_index ix) sid")
  case None
  then show ?thesis by (simp add: ci_prune_chunks_def ci_entry_def)
next
  case (Some tm)
  have "bt_inv tm" using bt_inv_time_map [OF assms, of sid] Some by simp
  then have mem: "(t, e) \<in> set tm \<longleftrightarrow> ci_entry ix sid t = Some e" for t
    using bt.mem_entries_iff by (simp add: ci_entry_def Some)
  have "e \<in> set (ci_prune_chunks ix sid lo hi predicate) \<longleftrightarrow>
      (\<exists>t. (t, e) \<in> set tm \<and> t \<le> hi \<and> lo \<le> sce_time_end_ns e \<and> stats_allow ix predicate e)"
    by (auto simp: ci_prune_chunks_def Some bt_range_to_def stats_allow_def image_iff
        split: option.splits)
  then show ?thesis using mem by auto
qed


subsection \<open>The index as a state machine\<close>

text \<open>
  A flush or a compaction registers the results of a chunk write, whose entries carry the
  identifier of their key; compaction deregisters. The state of a run is the index with the set
  of the keys registered so far.
\<close>

type_synonym ci_run = "series_key set \<times> chunk_index"

inductive ci_step :: "('h, 'z) xxh64_crate_scheme \<Rightarrow> ci_run \<Rightarrow> ci_run \<Rightarrow> bool"
  for h where
  step_register:
    "bt_inv (sk_tags key) \<Longrightarrow> sce_series_id entry = series_id h key \<Longrightarrow>
     ci_step h (keys, ix) (insert key keys, fst (ci_register h key entry stats meta ix))"
| step_deregister: "ci_step h (keys, ix) (keys, ci_deregister sid chunk_id t ix)"

text \<open>Registered keys come from the run, and without colliding identifiers the tags are exact.\<close>

definition ci_run_inv :: "('h, 'z) xxh64_crate_scheme \<Rightarrow> ci_run \<Rightarrow> bool" where
  "ci_run_inv h r \<longleftrightarrow>
     ci_base h (snd r) \<and> ran (map_of (ci_series_registry (snd r))) \<subseteq> fst r \<and>
     (inj_on (series_id h) (fst r) \<longrightarrow> ci_tags_ok (snd r))"

lemma ci_run_inv_register:
  assumes inv: "ci_run_inv h (keys, ix)" and key: "bt_inv (sk_tags key)" "sce_series_id entry = series_id h key"
  shows "ci_run_inv h (insert key keys, fst (ci_register h key entry stats meta ix))"
proof -
  have reg: "ran (map_of (ci_series_registry ix)) \<subseteq> keys" and base: "ci_base h ix"
    using inv by (simp_all add: ci_run_inv_def)
  have "ran (map_of (ci_series_registry (fst (ci_register h key entry stats meta ix)))) \<subseteq> insert key keys"
    using reg by (auto simp: registry_register ran_def)
  moreover have "ci_tags_ok (fst (ci_register h key entry stats meta ix))" if inj: "inj_on (series_id h) (insert key keys)"
  proof -
    have "inj_on (series_id h) keys" using inj by (rule inj_on_subset) auto
    then have "ci_tags_ok ix" using inv by (simp add: ci_run_inv_def)
    moreover have "no_collision h key ix"
    proof (cases "map_of (ci_series_registry ix) (series_id h key)")
      case (Some sk)
      then have "sk \<in> keys" using reg by (auto intro: ranI)
      moreover have "series_id h key = series_id h sk"
        using base Some by (simp add: ci_base_def ci_registry_ok_def)
      ultimately have "sk = key" using inj by (auto dest: inj_onD)
      with Some show ?thesis by (simp add: no_collision_def)
    qed (simp add: no_collision_def)
    ultimately show ?thesis by (rule ci_tags_ok_register)
  qed
  ultimately show ?thesis
    using ci_base_register [OF base key] by (simp add: ci_run_inv_def)
qed

lemma ci_run_inv_deregister: "ci_run_inv h (keys, ix) \<Longrightarrow> ci_run_inv h (keys, ci_deregister sid chunk_id t ix)"
  by (simp add: ci_run_inv_def ci_base_deregister ci_tags_ok_deregister)

lemma ci_run_inv_new: "ci_run_inv h ({}, ci_new)"
  using ci_inv_new [of h] by (simp add: ci_run_inv_def ci_inv_base) (simp add: ci_new_def)

interpretation ci: state_machine "\<lambda>r. r = ({}, ci_new)" "ci_step h" "ci_run_inv h"
  by unfold_locales
    (auto simp: ci_run_inv_new elim!: ci_step.cases intro: ci_run_inv_register ci_run_inv_deregister)

lemma reachable_base: "(ci_step h)\<^sup>*\<^sup>* ({}, ci_new) (keys, ix) \<Longrightarrow> ci_base h ix"
  using ci.inv_reachable [OF refl, of h "(keys, ix)"] by (simp add: ci_run_inv_def)

lemma reachable_inv:
  "(ci_step h)\<^sup>*\<^sup>* ({}, ci_new) (keys, ix) \<Longrightarrow> inj_on (series_id h) keys \<Longrightarrow> ci_inv h ix"
  using ci.inv_reachable [OF refl, of h "(keys, ix)"] by (simp add: ci_run_inv_def ci_inv_base)


subsection \<open>Two keys with one identifier\<close>

text \<open>
  Registering a key whose identifier another key already has replaces the key in the registry
  and leaves the tag index alone, so that a filter on a tag only the new key has does not find it.
\<close>

lemma collision_hides_series:
  assumes "map_of (ci_series_registry ix) (series_id h key) \<noteq> None" "f \<in> set tag_filters"
    "series_id h key \<notin> tagged (ci_tag_index ix) f" "ix' = fst (ci_register h key entry stats meta ix)"
  shows "map_of (ci_series_registry ix') (series_id h key) = Some key \<and>
    series_id h key \<notin> set (ci_resolve_series ix' metric tag_filters)"
proof -
  have "ci_tag_index ix' = ci_tag_index ix" using assms(1) by (auto simp: assms(4) ci_register_def Let_def)
  moreover obtain g fs where "tag_filters = g # fs" using assms(2) by (cases tag_filters) auto
  ultimately show ?thesis
    using assms(2,3) by (auto simp: assms(4) registry_register resolve_filtered)
qed


subsection \<open>Properties\<close>

text \<open>
  C17.  In every state the index can reach by registering and deregistering chunks, its maps
  have unique keys, every registered key is filed under its identifier, every entry under its
  series and start time, and a file is listed exactly while a series references its chunk. When
  no two of the keys registered so far share an identifier, the tag index is the inversion of
  the registry. (Keys that share an identifier break the last part: \<open>collision_hides_series\<close>.)
\<close>

theorem index_reachable_inv:
  assumes "(ci_step h)\<^sup>*\<^sup>* ({}, ci_new) (keys, ix)"
  shows "ci_maps_ok ix \<and> ci_registry_ok h ix \<and> ci_times_ok ix \<and> ci_files_ok ix \<and>
    (inj_on (series_id h) keys \<longrightarrow> ci_tags_ok ix)"
  using reachable_base [OF assms] reachable_inv [OF assms] by (simp add: ci_base_def ci_inv_base)

text \<open>One chunk with a tagged series, registered in the empty index.\<close>

abbreviation one_entry :: series_chunk_entry where
  "one_entry \<equiv>
     \<lparr>sce_chunk_id = 1, sce_series_id = 10, sce_time_start_ns = I64 5, sce_time_end_ns = I64 9,
      sce_size_bytes = 40\<rparr>"

abbreviation one_index :: chunk_index where
  "one_index \<equiv>
     fst (ci_register length_hasher (SeriesKey ''cpu'' [(''host'', ''a'')]) one_entry
       \<lparr>scs_min_value = F64 0, scs_max_value = F64 0, scs_null_count = 0\<rparr>
       \<lparr>cm_file_path = [''chunk-1''], cm_file_size = 200\<rparr> ci_new)"

lemma one_index_reachable:
  "(ci_step length_hasher)\<^sup>*\<^sup>* ({}, ci_new) ({SeriesKey ''cpu'' [(''host'', ''a'')]}, one_index)"
  by (rule r_into_rtranclp, rule step_register)
    (simp_all add: series_id_def length_hasher_def to_bytes_def)

theorem index_reachable_inv_witness:
  "ci_files_ok one_index \<and> tagged (ci_tag_index one_index) (''host'', ''a'') = {10}"
proof
  have inv: "ci_files_ok one_index" "ci_tags_ok one_index"
    using index_reachable_inv [OF one_index_reachable] by simp_all
  show "ci_files_ok one_index" by (rule inv(1))
  from inv(2) have "tagged (ci_tag_index one_index) (''host'', ''a'') =
      {sid. \<exists>sk. map_of (ci_series_registry one_index) sid = Some sk \<and> (''host'', ''a'') \<in> set (sk_tags sk)}"
    unfolding ci_tags_ok_def by blast
  also have "\<dots> = {10}"
    by (auto simp: ci_register_def ci_new_def Let_def series_id_def length_hasher_def to_bytes_def)
  finally show "tagged (ci_tag_index one_index) (''host'', ''a'') = {10}" .
qed

text \<open>
  C18.  Resolving a query finds exactly the registered series with the metric name whose tags
  include every filter, in every index reached by registering and deregistering in which no two
  of the keys registered so far share an identifier; the early returns of the intersection
  loop lose nothing. Without that condition it is false (\<open>collision_hides_series\<close>).
\<close>

theorem index_resolve_exact:
  assumes "(ci_step h)\<^sup>*\<^sup>* ({}, ci_new) (keys, ix)" "inj_on (series_id h) keys" "hm_inv tag_filters"
  shows "sid \<in> set (ci_resolve_series ix metric tag_filters) \<longleftrightarrow>
    (\<exists>sk. map_of (ci_series_registry ix) sid = Some sk \<and> sid = series_id h sk \<and>
       sk_metric_name sk = metric \<and> map_of tag_filters \<subseteq>\<^sub>m map_of (sk_tags sk))"
proof -
  have inv: "ci_inv h ix" by (rule reachable_inv [OF assms(1,2)])
  then show ?thesis
    using mem_ci_resolve_series [OF inv assms(3)] by (auto simp: ci_inv_def ci_registry_ok_def)
qed

theorem index_resolve_exact_witness:
  "10 \<in> set (ci_resolve_series one_index ''cpu'' [(''host'', ''a'')])"
  by (subst index_resolve_exact [OF one_index_reachable])
    (simp_all add: ci_register_def ci_new_def Let_def series_id_def length_hasher_def to_bytes_def
      map_le_def)

text \<open>
  C19.  Pruning is exact: of the entries of a series it returns those whose time range meets
  the closed query range and whose statistics do not rule the value predicate out.
\<close>

theorem index_prune_exact:
  assumes "(ci_step h)\<^sup>*\<^sup>* ({}, ci_new) (keys, ix)"
  shows "e \<in> set (ci_prune_chunks ix sid lo hi predicate) \<longleftrightarrow>
    ci_entry ix sid (sce_time_start_ns e) = Some e \<and> sce_time_start_ns e \<le> hi \<and>
    lo \<le> sce_time_end_ns e \<and> stats_allow ix predicate e"
proof -
  have "ci_maps_ok ix" "ci_times_ok ix" using reachable_base [OF assms] by (simp_all add: ci_base_def)
  then show ?thesis
    using mem_ci_prune_chunks [of ix e sid lo hi predicate] by (auto simp: ci_times_ok_def)
qed

theorem index_prune_exact_witness:
  "one_entry \<in> set (ci_prune_chunks one_index 10 (I64 9) (I64 20) None)"
  by (subst index_prune_exact [OF one_index_reachable])
    (simp add: ci_entry_register stats_allow_def series_id_def length_hasher_def to_bytes_def
      less_eq_i64_def i64_int_def)

text \<open>
  C34.  A later chunk hides an earlier one of the same series with the same start time. Let a
  chunk have one entry of a series in a reachable index; the unrestricted query finds it.
  After another chunk of the series with the same start time is registered, no query returns
  an entry of the first chunk, whatever its range and predicate, although the statistics and
  the file of that chunk stay listed as before.
\<close>

theorem index_same_start_hides_chunk:
  assumes "(ci_step h)\<^sup>*\<^sup>* ({}, ci_new) (keys, ix)" "ci_entry ix (series_id h key) t = Some e1"
    "\<forall>t' e. ci_entry ix (series_id h key) t' = Some e \<longrightarrow> sce_chunk_id e = sce_chunk_id e1 \<longrightarrow> t' = t"
    "bt_inv (sk_tags key)" "sce_time_start_ns e2 = t" "sce_chunk_id e2 \<noteq> sce_chunk_id e1"
    "ix2 = fst (ci_register h key e2 st meta ix)"
  shows "e1 \<in> set (ci_prune_chunks ix (series_id h key) I64_MIN I64_MAX None) \<and>
    (\<forall>lo hi p e. e \<in> set (ci_prune_chunks ix2 (series_id h key) lo hi p) \<longrightarrow> sce_chunk_id e \<noteq> sce_chunk_id e1) \<and>
    map_of (ci_chunk_stats ix2) (sce_chunk_id e1, series_id h key) =
      map_of (ci_chunk_stats ix) (sce_chunk_id e1, series_id h key) \<and>
    map_of (ci_chunk_files ix2) (sce_chunk_id e1) = map_of (ci_chunk_files ix) (sce_chunk_id e1)"
proof (intro conjI allI impI)
  have maps: "ci_maps_ok ix" using reachable_base [OF assms(1)] by (simp add: ci_base_def)
  show "e1 \<in> set (ci_prune_chunks ix (series_id h key) I64_MIN I64_MAX None)"
    using mem_ci_prune_chunks [OF maps] assms(2) by (auto simp: stats_allow_def)
  fix lo hi p e
  assume e: "e \<in> set (ci_prune_chunks ix2 (series_id h key) lo hi p)"
  have "ci_maps_ok ix2" unfolding assms(7) by (rule ci_maps_ok_register [OF maps assms(4)])
  from e [unfolded mem_ci_prune_chunks [OF this]] obtain t' where "ci_entry ix2 (series_id h key) t' = Some e" by blast
  then show "sce_chunk_id e \<noteq> sce_chunk_id e1"
    using assms(3,5,6) by (auto simp: assms(7) ci_entry_register split: if_splits)
next
  show "map_of (ci_chunk_stats ix2) (sce_chunk_id e1, series_id h key) =
      map_of (ci_chunk_stats ix) (sce_chunk_id e1, series_id h key)"
    "map_of (ci_chunk_files ix2) (sce_chunk_id e1) = map_of (ci_chunk_files ix) (sce_chunk_id e1)"
    using assms(6) by (simp_all add: assms(7) ci_register_def Let_def map_of_hm_insert)
qed

theorem index_same_start_hides_chunk_witness:
  "\<exists>ix2. ix2 = fst (ci_register length_hasher (SeriesKey ''cpu'' [(''host'', ''a'')]) (one_entry\<lparr>sce_chunk_id := 2\<rparr>)
       \<lparr>scs_min_value = F64 0, scs_max_value = F64 0, scs_null_count = 0\<rparr>
       \<lparr>cm_file_path = [''chunk-2''], cm_file_size = 200\<rparr> one_index) \<and>
     one_entry \<notin> set (ci_prune_chunks ix2 10 I64_MIN I64_MAX None) \<and> map_of (ci_chunk_files ix2) 1 \<noteq> None"
proof -
  let ?key = "SeriesKey ''cpu'' [(''host'', ''a'')]"
  define ix where "ix = one_index"
  let ?st = "\<lparr>scs_min_value = F64 0, scs_max_value = F64 0, scs_null_count = 0\<rparr>"
  let ?meta = "\<lparr>cm_file_path = [''chunk-2''], cm_file_size = 200\<rparr>"
  define ix2 where "ix2 = fst (ci_register length_hasher ?key (one_entry\<lparr>sce_chunk_id := 2\<rparr>) ?st ?meta ix)"
  have sid: "series_id length_hasher ?key = 10" by (simp add: series_id_def length_hasher_def to_bytes_def)
  have entry: "ci_entry ix 10 t = (if t = I64 5 then Some one_entry else None)" for t
    unfolding ix_def by (simp add: ci_entry_register sid) (simp add: ci_entry_def ci_new_def)
  have only: "\<forall>t' e. ci_entry ix 10 t' = Some e \<longrightarrow> sce_chunk_id e = sce_chunk_id one_entry \<longrightarrow> t' = I64 5"
    by (simp add: entry)
  have e1: "ci_entry ix 10 (I64 5) = Some one_entry" by (simp add: entry)
  have hidden: "\<forall>lo hi p e. e \<in> set (ci_prune_chunks ix2 10 lo hi p) \<longrightarrow> sce_chunk_id e \<noteq> sce_chunk_id one_entry"
      "map_of (ci_chunk_files ix2) (sce_chunk_id one_entry) = map_of (ci_chunk_files ix) (sce_chunk_id one_entry)"
    using index_same_start_hides_chunk [OF one_index_reachable [folded ix_def], unfolded sid,
        OF e1 [folded sid] only [folded sid] _ _ _ ix2_def, unfolded sid]
    by simp_all
  have "map_of (ci_chunk_files ix) 1 \<noteq> None" by (simp add: ix_def ci_register_def Let_def map_of_hm_insert)
  then have "map_of (ci_chunk_files ix2) 1 \<noteq> None" using hidden(2) by simp
  moreover have "one_entry \<notin> set (ci_prune_chunks ix2 10 I64_MIN I64_MAX None)" using hidden(1) by blast
  ultimately show ?thesis unfolding ix2_def ix_def by (intro exI conjI) (rule refl)
qed

end
