(* ===== verification/Chunk_Store.thy ===== *)
theory Chunk_Store
  imports Chunk_Roundtrip Chunk_Index
begin

section \<open>The store of chunks: files and index together\<close>

text \<open>
  What the chunk files and the index hold together, as an abstract database: for every chunk
  its series. A flush adds a chunk to it, compaction replaces some chunks by one, and the
  chunk stage of a query returns its points. \<open>store_ok\<close> is the invariant between the
  database, the files and the index.
\<close>

subsection \<open>Registering a written chunk, dropping old entries\<close>

definition register_results ::
    "('h, 'b, 'z) chunk_crates_scheme \<Rightarrow> chunk_write_result \<Rightarrow> chunk_index \<Rightarrow> chunk_index" where
  "register_results c result ix =
     fold (\<lambda>s ix. fst (ci_register c (swr_series_key s) (swr_entry s) (swr_stats s) (cwr_chunk_meta result) ix))
       (cwr_series_results result) ix"

definition deregister_all :: "(u64 \<times> u64 \<times> i64) list \<Rightarrow> chunk_index \<Rightarrow> chunk_index" where
  "deregister_all ds ix = fold (\<lambda>(sid, chunk_id, t). ci_deregister sid chunk_id t) ds ix"


subsection \<open>The invariant\<close>

type_synonym chunk_db = "u64 \<rightharpoonup> series_map"

definition has_series :: "chunk_db \<Rightarrow> u64 \<Rightarrow> series_key \<Rightarrow> points \<Rightarrow> bool" where
  "has_series db cid k ps \<longleftrightarrow> (\<exists>data. db cid = Some data \<and> (k, ps) \<in> set data)"

definition data_ok :: "('h, 'b, 'z) chunk_crates_scheme \<Rightarrow> u64 \<Rightarrow> series_map \<Rightarrow> bool" where
  "data_ok c cid data \<longleftrightarrow>
     sm_inv data \<and> chunk_fits c cid data \<and> (\<forall>k \<in> fst ` set data. key_type_ok k \<and> key_unambiguous k)"

text \<open>Every chunk is a listed file that holds its series.\<close>

definition store_files ::
    "('h, 'b, 'z) chunk_crates_scheme \<Rightarrow> path \<Rightarrow> chunk_index \<Rightarrow> fs \<Rightarrow> chunk_db \<Rightarrow> bool" where
  "store_files c dir ix files db \<longleftrightarrow>
     dom db = dom (map_of (ci_chunk_files ix)) \<and>
     (\<forall>cid meta. map_of (ci_chunk_files ix) cid = Some meta \<longrightarrow> cm_file_path meta = chunk_path dir cid) \<and>
     (\<forall>cid data. db cid = Some data \<longrightarrow>
        data_ok c cid data \<and> files (chunk_path dir cid) = Some (file_of c cid data))"

text \<open>Every series of a chunk is registered and has an entry and statistics, and nothing else has.\<close>

definition store_index :: "('h, 'b, 'z) chunk_crates_scheme \<Rightarrow> chunk_index \<Rightarrow> chunk_db \<Rightarrow> bool" where
  "store_index c ix db \<longleftrightarrow>
     (\<forall>cid k ps. has_series db cid k ps \<longrightarrow>
        map_of (ci_series_registry ix) (series_id c k) = Some k \<and>
        (\<exists>e. ci_entry ix (series_id c k) (fst (hd ps)) = Some e \<and> sce_chunk_id e = cid)) \<and>
     (\<forall>sid t e. ci_entry ix sid t = Some e \<longrightarrow>
        (\<exists>k ps. has_series db (sce_chunk_id e) k ps \<and> sid = series_id c k \<and> t = fst (hd ps) \<and>
           sce_time_end_ns e = fst (last ps))) \<and>
     (\<forall>cid sid. map_of (ci_chunk_stats ix) (cid, sid) \<noteq> None \<longleftrightarrow>
        (\<exists>k ps. has_series db cid k ps \<and> sid = series_id c k))"

definition store_ok ::
    "('h, 'b, 'z) chunk_crates_scheme \<Rightarrow> path \<Rightarrow> chunk_index \<Rightarrow> fs \<Rightarrow> chunk_db \<Rightarrow> bool" where
  "store_ok c dir ix files db \<longleftrightarrow> ci_inv c ix \<and> store_files c dir ix files db \<and> store_index c ix db"

text \<open>The points of the database.\<close>

definition db_points :: "chunk_db \<Rightarrow> (series_key \<times> i64 \<times> f64) set" where
  "db_points db = {(k, t, v). \<exists>cid data. db cid = Some data \<and> sm_get data k t = Some v}"

lemma store_ok_new: "store_ok c dir ci_new files Map.empty"
proof -
  have "dom (map_of (ci_chunk_files ci_new)) = {}" by (simp add: ci_new_def)
  then show ?thesis
    by (simp add: store_ok_def ci_inv_new store_files_def store_index_def has_series_def)
      (simp add: ci_new_def ci_entry_def)
qed

lemma chunk_path_inject [simp]: "chunk_path dir a = chunk_path dir b \<longleftrightarrow> a = b"
proof -
  have "unat a < 16 ^ 16" "unat b < 16 ^ 16" using unat_u64_less [of a] unat_u64_less [of b] by simp_all
  from fixed_digits_less(2) [OF _ _ this] show ?thesis by (simp add: chunk_path_def word_unat_eq_iff)
qed

lemma sm_get_mem:
  assumes "sm_inv data"
  shows "sm_get data k t = Some v \<longleftrightarrow> (\<exists>ps. (k, ps) \<in> set data \<and> (t, v) \<in> set ps)"
proof -
  have d: "bt_inv data" "\<forall>e \<in> set data. bt_inv (snd e)" using assms by (auto simp: sm_inv_def)
  have "map_of data k = Some ps \<longleftrightarrow> (k, ps) \<in> set data" for ps
    using bt_inv_distinct [OF d(1)] by simp
  moreover have "map_of ps t = Some v \<longleftrightarrow> (t, v) \<in> set ps" if "(k, ps) \<in> set data" for ps
    using bt_inv_distinct [of ps] d(2) that by force
  moreover have "sm_get data k t = Some v \<longleftrightarrow> (\<exists>ps. map_of data k = Some ps \<and> map_of ps t = Some v)"
    by (simp add: sm_get_def split: option.splits)
  ultimately show ?thesis by blast
qed


subsection \<open>What registering does to the views\<close>

text \<open>The index data of a written series.\<close>

abbreviation written :: "('h, 'b, 'z) chunk_crates_scheme \<Rightarrow> u64 \<Rightarrow> series_key \<times> points \<Rightarrow> series_write_result" where
  "written c cid e \<equiv> result_of c cid (enc c e)"

lemma written_fields:
  "swr_series_key (written c cid (k, ps)) = k"
  "sce_chunk_id (swr_entry (written c cid (k, ps))) = cid"
  "sce_series_id (swr_entry (written c cid (k, ps))) = series_id c k"
  "ps \<noteq> [] \<Longrightarrow> sce_time_start_ns (swr_entry (written c cid (k, ps))) = fst (hd ps)"
  "ps \<noteq> [] \<Longrightarrow> sce_time_end_ns (swr_entry (written c cid (k, ps))) = fst (last ps)"
  by (simp_all add: result_of_def enc_def encode_series_def series_id_def hd_conv_nth last_conv_nth)

definition register_data ::
    "('h, 'b, 'z) chunk_crates_scheme \<Rightarrow> u64 \<Rightarrow> chunk_meta \<Rightarrow> series_map \<Rightarrow> chunk_index \<Rightarrow> chunk_index" where
  "register_data c cid meta data ix =
     fold (\<lambda>e ix. fst (ci_register c (fst e) (swr_entry (written c cid e)) (swr_stats (written c cid e)) meta ix))
       data ix"

lemma register_results_write:
  assumes "cw_write c dir now io data files = (files', Inr res)" "sm_inv data"
  shows "register_results c res ix = register_data c (new_chunk_id now) (cwr_chunk_meta res) data ix"
proof -
  note w = cw_write_Inr [OF assms(1)]
  have live: "live data = data" using assms(2) by (auto simp: live_def sm_inv_def filter_id_conv)
  have results: "cwr_series_results res = map (written c (new_chunk_id now)) data"
    by (simp add: w pass2_loop_results encoded_of_def live)
  have "fold (\<lambda>s ix. fst (ci_register c (swr_series_key s) (swr_entry s) (swr_stats s) m ix))
      (map (written c cid) es) ix =
    fold (\<lambda>e ix. fst (ci_register c (fst e) (swr_entry (written c cid e)) (swr_stats (written c cid e)) m ix)) es ix"
    for es cid m ix
    by (induction es arbitrary: ix) (simp_all add: written_fields split_paired_all)
  then show ?thesis by (simp add: register_results_def register_data_def results)
qed

text \<open>Keys that hash apart, also from the registered ones.\<close>

definition keys_apart :: "('h, 'b, 'z) chunk_crates_scheme \<Rightarrow> series_map \<Rightarrow> chunk_index \<Rightarrow> bool" where
  "keys_apart c data ix \<longleftrightarrow>
     inj_on (series_id c) (fst ` set data) \<and> (\<forall>k \<in> fst ` set data. no_collision c k ix)"

lemma keys_apart_Cons:
  assumes "keys_apart c (e # data) ix"
  shows "no_collision c (fst e) ix"
    "keys_apart c data (fst (ci_register c (fst e) entry stats meta ix))"
  using assms
  by (auto simp: keys_apart_def no_collision_def registry_register inj_on_def)

lemma register_data_simps [simp]:
  "register_data c cid meta [] ix = ix"
  "register_data c cid meta (e # data) ix = register_data c cid meta data
     (fst (ci_register c (fst e) (swr_entry (written c cid e)) (swr_stats (written c cid e)) meta ix))"
  by (simp_all add: register_data_def)

lemma ci_inv_register_data:
  "ci_inv c ix \<Longrightarrow> keys_apart c data ix \<Longrightarrow> \<forall>k \<in> fst ` set data. key_type_ok k \<Longrightarrow>
   ci_inv c (register_data c cid meta data ix)"
proof (induction data arbitrary: ix)
  case (Cons e data)
  obtain k ps where e: "e = (k, ps)" by (cases e)
  note apart = keys_apart_Cons [OF Cons.prems(2)]
  have "ci_inv c (fst (ci_register c k (swr_entry (written c cid e)) (swr_stats (written c cid e)) meta ix))"
    using Cons.prems(1,3) apart(1)
    by (intro ci_inv_register) (simp_all add: e written_fields key_type_ok_def)
  with Cons.IH [OF _ apart(2)] Cons.prems(3) show ?case by (simp add: e)
qed simp

text \<open>Later bindings of a list of updates win; with distinct keys each binding is there.\<close>

lemma map_add_rev_Some:
  assumes "distinct (map fst xs)"
  shows "(m ++ map_of (rev xs)) x = Some y \<longleftrightarrow> (x, y) \<in> set xs \<or> (x \<notin> fst ` set xs \<and> m x = Some y)"
proof -
  have "distinct (map fst (rev xs))" using assms by (simp add: rev_map [symmetric])
  then have "map_of (rev xs) x = Some z \<longleftrightarrow> (x, z) \<in> set xs" for z by simp
  moreover have "map_of (rev xs) x = None \<longleftrightarrow> x \<notin> fst ` set xs" by (simp add: map_of_eq_None_iff)
  ultimately show ?thesis by (auto simp: map_add_Some_iff)
qed

lemma registry_register_data:
  "map_of (ci_series_registry (register_data c cid meta data ix)) =
     map_of (ci_series_registry ix) ++ map_of (rev (map (\<lambda>e. (series_id c (fst e), fst e)) data))"
  by (induction data arbitrary: ix) (simp_all add: registry_register)

lemma stats_register_data:
  "map_of (ci_chunk_stats (register_data c cid meta data ix)) =
     map_of (ci_chunk_stats ix) ++
     map_of (rev (map (\<lambda>e. ((cid, series_id c (fst e)), swr_stats (written c cid e))) data))"
  by (induction data arbitrary: ix) (simp_all add: stats_register written_fields split_paired_all)

lemma files_register_data:
  "map_of (ci_chunk_files (register_data c cid meta data ix)) =
     (if data = [] then map_of (ci_chunk_files ix) else (map_of (ci_chunk_files ix))(cid \<mapsto> meta))"
  by (induction data arbitrary: ix)
    (simp_all add: ci_register_def Let_def map_of_hm_insert written_fields split_paired_all)

lemma watermarks_register_data [simp]:
  "ci_shard_watermarks (register_data c cid meta data ix) = ci_shard_watermarks ix"
  by (induction data arbitrary: ix) (simp_all add: ci_register_def Let_def)

lemma entry_register_data:
  "\<forall>e \<in> set data. snd e \<noteq> [] \<Longrightarrow>
   (\<lambda>(sid, t). ci_entry (register_data c cid meta data ix) sid t) =
     (\<lambda>(sid, t). ci_entry ix sid t) ++
     map_of (rev (map (\<lambda>e. ((series_id c (fst e), fst (hd (snd e))), swr_entry (written c cid e))) data))"
proof (induction data arbitrary: ix)
  case Nil
  then show ?case by simp
next
  case (Cons e data)
  let ?ix = "fst (ci_register c (fst e) (swr_entry (written c cid e)) (swr_stats (written c cid e)) meta ix)"
  have "sce_time_start_ns (swr_entry (written c cid e)) = fst (hd (snd e))"
    using Cons.prems written_fields(4) [of "snd e" c cid "fst e"] by simp
  then have "(\<lambda>(sid, t). ci_entry ?ix sid t) = (\<lambda>(sid, t). ci_entry ix sid t)
      ((series_id c (fst e), fst (hd (snd e))) \<mapsto> swr_entry (written c cid e))"
    by (auto simp: ci_entry_register)
  with Cons show ?case by simp
qed


subsection \<open>What dropping entries does to the views\<close>

lemma deregister_all_simps [simp]:
  "deregister_all [] ix = ix"
  "deregister_all ((sid, cid, t) # ds) ix = deregister_all ds (ci_deregister sid cid t ix)"
  by (simp_all add: deregister_all_def)

lemma ci_inv_deregister_all: "ci_inv c ix \<Longrightarrow> ci_inv c (deregister_all ds ix)"
  by (induction ds arbitrary: ix) (auto simp: ci_inv_deregister)

lemma registry_deregister_all [simp]:
  "ci_series_registry (deregister_all ds ix) = ci_series_registry ix"
  "ci_shard_watermarks (deregister_all ds ix) = ci_shard_watermarks ix"
  by (induction ds arbitrary: ix) (auto simp: ci_deregister_def Let_def)

lemma entry_deregister_all:
  "ci_entry (deregister_all ds ix) sid t =
     (case ci_entry ix sid t of None \<Rightarrow> None
      | Some e \<Rightarrow> if (sid, sce_chunk_id e, t) \<in> set ds then None else Some e)"
proof (induction ds arbitrary: ix)
  case Nil
  then show ?case by (simp split: option.splits)
next
  case (Cons d ds)
  obtain sid' cid t' where d: "d = (sid', cid, t')" by (cases d)
  show ?case
    by (auto simp: d Cons.IH ci_entry_deregister split: option.splits)
qed

lemma stats_deregister_all:
  "map_of (ci_chunk_stats (deregister_all ds ix)) (cid, sid) =
     (if \<exists>t. (sid, cid, t) \<in> set ds then None else map_of (ci_chunk_stats ix) (cid, sid))"
proof (induction ds arbitrary: ix)
  case (Cons d ds)
  obtain sid' cid' t' where d: "d = (sid', cid', t')" by (cases d)
  show ?case by (auto simp: d Cons.IH stats_deregister)
qed simp

lemma files_deregister:
  "map_of (ci_chunk_files (ci_deregister sid cid t ix)) \<subseteq>\<^sub>m map_of (ci_chunk_files ix)"
  by (auto simp: ci_deregister_def Let_def hm_remove_def map_of_filter_neq map_le_def)

lemma files_deregister_all:
  "map_of (ci_chunk_files (deregister_all ds ix)) \<subseteq>\<^sub>m map_of (ci_chunk_files ix)"
proof (induction ds arbitrary: ix)
  case (Cons d ds)
  obtain sid cid t where d: "d = (sid, cid, t)" by (cases d)
  show ?case
    using map_le_trans [OF Cons.IH files_deregister [of sid cid t ix]] by (simp add: d)
qed simp

text \<open>The listed files are those some series has statistics for.\<close>

lemma files_dom:
  assumes "ci_inv c ix"
  shows "dom (map_of (ci_chunk_files ix)) = {cid. \<exists>sid. map_of (ci_chunk_stats ix) (cid, sid) \<noteq> None}"
proof -
  have "dom (map_of (ci_chunk_files ix)) = fst ` dom (map_of (ci_chunk_stats ix))"
    using assms by (simp add: ci_inv_def ci_files_ok_def dom_map_of_conv_image_fst image_image)
  then show ?thesis by (force simp: dom_def image_iff)
qed


subsection \<open>Replacing chunks by one\<close>

text \<open>
  A new chunk is written and registered, and the entries of the chunks \<open>G\<close> are dropped. A
  flush is the case of no chunk dropped. Where a new series starts at the time of an existing
  entry, that entry must be one that is dropped.
\<close>

definition replacement ::
    "('h, 'b, 'z) chunk_crates_scheme \<Rightarrow> path \<Rightarrow> chunk_index \<Rightarrow> fs \<Rightarrow> chunk_db \<Rightarrow> u64 \<Rightarrow> chunk_meta \<Rightarrow>
     series_map \<Rightarrow> u64 set \<Rightarrow> (u64 \<times> u64 \<times> i64) list \<Rightarrow> fs \<Rightarrow> bool" where
  "replacement c dir ix files db cid meta data G ds files' \<longleftrightarrow>
     db cid = None \<and> G \<subseteq> dom db \<and> data_ok c cid data \<and> data \<noteq> [] \<and>
     cm_file_path meta = chunk_path dir cid \<and> keys_apart c data ix \<and>
     (\<forall>(k, ps) \<in> set data. \<forall>e. ci_entry ix (series_id c k) (fst (hd ps)) = Some e \<longrightarrow> sce_chunk_id e \<in> G) \<and>
     (\<forall>sid g t. (sid, g, t) \<in> set ds \<longleftrightarrow> g \<in> G \<and> (\<exists>e. ci_entry ix sid t = Some e \<and> sce_chunk_id e = g)) \<and>
     files' (chunk_path dir cid) = Some (file_of c cid data) \<and>
     (\<forall>g \<in> dom db - G. files' (chunk_path dir g) = files (chunk_path dir g))"

abbreviation replaced_index ::
    "('h, 'b, 'z) chunk_crates_scheme \<Rightarrow> u64 \<Rightarrow> chunk_meta \<Rightarrow> series_map \<Rightarrow> (u64 \<times> u64 \<times> i64) list \<Rightarrow>
     chunk_index \<Rightarrow> chunk_index" where
  "replaced_index c cid meta data ds ix \<equiv> deregister_all ds (register_data c cid meta data ix)"

abbreviation replaced_db :: "u64 \<Rightarrow> series_map \<Rightarrow> u64 set \<Rightarrow> chunk_db \<Rightarrow> chunk_db" where
  "replaced_db cid data G db \<equiv> (db |` (- G))(cid \<mapsto> data)"

lemma data_okD:
  assumes "data_ok c cid data"
  shows "sm_inv data" "distinct (map fst data)" "\<forall>e \<in> set data. snd e \<noteq> []"
    "\<forall>k \<in> fst ` set data. key_type_ok k"
  using assms by (auto simp: data_ok_def sm_inv_def bt_inv_distinct)

lemma has_series_replaced:
  "db cid = None \<Longrightarrow> has_series (replaced_db cid data G db) g k ps \<longleftrightarrow>
     (g = cid \<and> (k, ps) \<in> set data) \<or> (g \<notin> G \<and> has_series db g k ps)"
  by (auto simp: has_series_def restrict_map_def)

lemma registry_replaced:
  assumes "keys_apart c data ix" "distinct (map fst data)"
  shows "k \<in> fst ` set data \<Longrightarrow>
      map_of (ci_series_registry (replaced_index c cid meta data ds ix)) (series_id c k) = Some k"
    "map_of (ci_series_registry ix) sid = Some k \<Longrightarrow>
      map_of (ci_series_registry (replaced_index c cid meta data ds ix)) sid = Some k"
proof -
  have inj: "inj_on (series_id c) (fst ` set data)"
    and apart: "\<And>k. k \<in> fst ` set data \<Longrightarrow> no_collision c k ix"
    using assms(1) by (auto simp: keys_apart_def)
  have "distinct (map fst (map (\<lambda>e. (series_id c (fst e), fst e)) data))"
    using inj assms(2) by (simp add: comp_def distinct_map inj_on_def)
  from map_add_rev_Some [OF this]
  have reg: "map_of (ci_series_registry (replaced_index c cid meta data ds ix)) sid = Some k \<longleftrightarrow>
      (k \<in> fst ` set data \<and> sid = series_id c k) \<or>
      (sid \<notin> series_id c ` fst ` set data \<and> map_of (ci_series_registry ix) sid = Some k)" for sid k
    unfolding registry_deregister_all registry_register_data by (auto simp: image_image)
  show "map_of (ci_series_registry (replaced_index c cid meta data ds ix)) (series_id c k) = Some k"
    if "k \<in> fst ` set data" unfolding reg using that by blast
  show "map_of (ci_series_registry (replaced_index c cid meta data ds ix)) sid = Some k"
    if old: "map_of (ci_series_registry ix) sid = Some k"
  proof (cases "sid \<in> series_id c ` fst ` set data")
    case True
    then obtain k' where k': "k' \<in> fst ` set data" "sid = series_id c k'" by blast
    with old apart [OF k'(1)] show ?thesis unfolding reg by (simp add: no_collision_def)
  next
    case False
    with old show ?thesis unfolding reg by blast
  qed
qed


lemma entry_replaced:
  assumes "replacement c dir ix files db cid meta data G ds files'"
  shows "ci_entry (replaced_index c cid meta data ds ix) sid t = Some e \<longleftrightarrow>
    (\<exists>k ps. (k, ps) \<in> set data \<and> sid = series_id c k \<and> t = fst (hd ps) \<and>
       e = swr_entry (written c cid (k, ps))) \<or>
    (ci_entry ix sid t = Some e \<and> sce_chunk_id e \<notin> G)"
proof -
  let ?new = "map (\<lambda>e. ((series_id c (fst e), fst (hd (snd e))), swr_entry (written c cid e))) data"
  have data: "data_ok c cid data" and apart: "keys_apart c data ix" and cid: "db cid = None" "G \<subseteq> dom db"
    and over: "\<And>k ps e. (k, ps) \<in> set data \<Longrightarrow> ci_entry ix (series_id c k) (fst (hd ps)) = Some e \<Longrightarrow> sce_chunk_id e \<in> G"
    and drops: "\<And>sid g t. (sid, g, t) \<in> set ds \<longleftrightarrow> g \<in> G \<and> (\<exists>e. ci_entry ix sid t = Some e \<and> sce_chunk_id e = g)"
    using assms unfolding replacement_def by blast+
  have "inj_on (series_id c) (fst ` set data)" using apart by (simp add: keys_apart_def)
  then have "distinct (map (series_id c \<circ> fst) data)"
    using data_okD(2) [OF data] by (simp add: distinct_map comp_inj_on)
  then have "distinct (map fst (map fst ?new))" by (simp add: comp_def)
  then have dist: "distinct (map fst ?new)" by (rule distinct_map [THEN iffD1, THEN conjunct1])
  have E1: "ci_entry (register_data c cid meta data ix) sid t = Some e \<longleftrightarrow>
      ((sid, t), e) \<in> set ?new \<or> ((sid, t) \<notin> fst ` set ?new \<and> ci_entry ix sid t = Some e)" for sid t e
    using map_add_rev_Some [OF dist, of "\<lambda>(sid, t). ci_entry ix sid t" "(sid, t)" e]
      fun_cong [OF entry_register_data [OF data_okD(3) [OF data], of c cid meta ix], of "(sid, t)"]
    by simp
  have new: "((sid, t), e) \<in> set ?new \<longleftrightarrow> (\<exists>k ps. (k, ps) \<in> set data \<and> sid = series_id c k \<and>
      t = fst (hd ps) \<and> e = swr_entry (written c cid (k, ps)))" for sid t e by force
  define N where "N = set ?new"
  note new = new [folded N_def] and E1 = E1 [folded N_def]
  have "cid \<notin> G" using cid by auto
  then have not_dropped: "(sid, sce_chunk_id e, t) \<notin> set ds" if "((sid, t), e) \<in> N" for e
    using that by (auto simp: drops new written_fields)
  have "ci_entry (replaced_index c cid meta data ds ix) sid t = Some e \<longleftrightarrow>
      ((sid, t), e) \<in> N \<or> (ci_entry ix sid t = Some e \<and> sce_chunk_id e \<notin> G)"
  proof (cases "(sid, t) \<in> fst ` N")
    case True
    then obtain e0 where e0: "((sid, t), e0) \<in> N" by auto
    then have R: "ci_entry (register_data c cid meta data ix) sid t = Some e0" using E1 by blast
    have "((sid, t), e) \<in> N \<longleftrightarrow> e0 = e" using e0 R E1 [of sid t e] by auto
    moreover have "sce_chunk_id e \<in> G" if "ci_entry ix sid t = Some e"
      using e0 that over by (auto simp: new)
    ultimately show ?thesis using not_dropped [OF e0] by (auto simp: entry_deregister_all R)
  next
    case False
    then have "((sid, t), e) \<notin> N" for e by force
    with False have "ci_entry (register_data c cid meta data ix) sid t = Some e \<longleftrightarrow> ci_entry ix sid t = Some e" for e
      using E1 by blast
    then have R: "ci_entry (register_data c cid meta data ix) sid t = ci_entry ix sid t"
      by (metis not_None_eq)
    show ?thesis
      using \<open>\<And>e. ((sid, t), e) \<notin> N\<close> drops [of sid _ t]
      by (cases "ci_entry ix sid t") (auto simp: entry_deregister_all R)
  qed
  with new show ?thesis by simp
qed


lemma map_add_rev_dom: "(m ++ map_of (rev xs)) x \<noteq> None \<longleftrightarrow> x \<in> fst ` set xs \<or> m x \<noteq> None"
  using map_of_eq_None_iff [of "rev xs" x] by simp

lemma stats_register_data_dom:
  "map_of (ci_chunk_stats (register_data c cid meta data ix)) (g, sid) \<noteq> None \<longleftrightarrow>
     (g = cid \<and> sid \<in> series_id c ` fst ` set data) \<or> map_of (ci_chunk_stats ix) (g, sid) \<noteq> None"
  unfolding stats_register_data map_add_rev_dom by force

lemma stats_replaced:
  assumes "replacement c dir ix files db cid meta data G ds files'" "store_index c ix db"
  shows "map_of (ci_chunk_stats (replaced_index c cid meta data ds ix)) (g, sid) \<noteq> None \<longleftrightarrow>
    (\<exists>k ps. has_series (replaced_db cid data G db) g k ps \<and> sid = series_id c k)"
proof -
  have cid: "db cid = None" "G \<subseteq> dom db"
    and drops: "\<And>sid g t. (sid, g, t) \<in> set ds \<longleftrightarrow> g \<in> G \<and> (\<exists>e. ci_entry ix sid t = Some e \<and> sce_chunk_id e = g)"
    using assms(1) unfolding replacement_def by blast+
  have entries: "\<exists>t e. ci_entry ix sid t = Some e \<and> sce_chunk_id e = g"
    if "has_series db g k ps" "sid = series_id c k" for sid g k ps
    using assms(2) that unfolding store_index_def by blast
  have series: "\<exists>k ps. has_series db g k ps \<and> sid = series_id c k"
    if "ci_entry ix sid t = Some e" "sce_chunk_id e = g" for sid t e g
    using assms(2) that unfolding store_index_def by blast
  have dropped: "(\<exists>t. (sid, g, t) \<in> set ds) \<longleftrightarrow> g \<in> G \<and> (\<exists>k ps. has_series db g k ps \<and> sid = series_id c k)"
    unfolding drops using entries series by blast
  have old: "map_of (ci_chunk_stats ix) (g, sid) \<noteq> None \<longleftrightarrow> (\<exists>k ps. has_series db g k ps \<and> sid = series_id c k)"
    using assms(2) unfolding store_index_def by blast
  have "cid \<notin> G" using cid by auto
  moreover have "sid \<in> series_id c ` fst ` set data \<longleftrightarrow> (\<exists>k ps. (k, ps) \<in> set data \<and> sid = series_id c k)"
    by force
  moreover have "map_of (ci_chunk_stats (replaced_index c cid meta data ds ix)) (g, sid) \<noteq> None \<longleftrightarrow>
      \<not> (\<exists>t. (sid, g, t) \<in> set ds) \<and> map_of (ci_chunk_stats (register_data c cid meta data ix)) (g, sid) \<noteq> None"
    unfolding stats_deregister_all by simp
  ultimately show ?thesis
    unfolding stats_register_data_dom dropped old has_series_replaced [where db = db, OF cid(1)] by blast
qed

lemma store_ok_replaced:
  assumes r: "replacement c dir ix files db cid meta data G ds files'" and ok: "store_ok c dir ix files db"
  shows "store_ok c dir (replaced_index c cid meta data ds ix) files' (replaced_db cid data G db)"
proof -
  let ?ix = "replaced_index c cid meta data ds ix" and ?db = "replaced_db cid data G db"
  have inv: "ci_inv c ix" and index: "store_index c ix db" and store: "store_files c dir ix files db"
    using ok by (simp_all add: store_ok_def)
  have cid: "db cid = None" "G \<subseteq> dom db" and data: "data_ok c cid data" "data \<noteq> []"
    and meta: "cm_file_path meta = chunk_path dir cid" and apart: "keys_apart c data ix"
    and new: "files' (chunk_path dir cid) = Some (file_of c cid data)"
    and old: "\<And>g. g \<in> dom db - G \<Longrightarrow> files' (chunk_path dir g) = files (chunk_path dir g)"
    using r unfolding replacement_def by blast+
  note entry = entry_replaced [OF r] and stats = stats_replaced [OF r index]
    and series = has_series_replaced [where db = db and data = data and G = G, OF cid(1)]
  have inv': "ci_inv c ?ix"
    using data_okD(4) [OF data(1)] by (intro ci_inv_deregister_all ci_inv_register_data [OF inv apart])
  have "cid \<notin> G" using cid by auto
  have index': "store_index c ?ix ?db"
    unfolding store_index_def
  proof (intro conjI allI impI stats)
    fix g k ps
    assume h: "has_series ?db g k ps"
    then consider "g = cid" "(k, ps) \<in> set data" | "g \<notin> G" "has_series db g k ps"
      unfolding series by blast
    then show "map_of (ci_series_registry ?ix) (series_id c k) = Some k"
    proof cases
      case 1
      then have "k \<in> fst ` set data" by force
      then show ?thesis by (rule registry_replaced(1) [OF apart data_okD(2) [OF data(1)]])
    next
      case 2
      then have "map_of (ci_series_registry ix) (series_id c k) = Some k"
        using index unfolding store_index_def by blast
      then show ?thesis by (rule registry_replaced(2) [OF apart data_okD(2) [OF data(1)]])
    qed
    show "\<exists>e. ci_entry ?ix (series_id c k) (fst (hd ps)) = Some e \<and> sce_chunk_id e = g"
    proof (cases "g = cid \<and> (k, ps) \<in> set data")
      case True
      then have "ci_entry ?ix (series_id c k) (fst (hd ps)) = Some (swr_entry (written c cid (k, ps)))"
        unfolding entry by blast
      with True show ?thesis by (simp add: written_fields)
    next
      case False
      then have "has_series db g k ps" "g \<notin> G" using h series by blast+
      then show ?thesis using index unfolding entry store_index_def by blast
    qed
  next
    fix sid t e
    assume "ci_entry ?ix sid t = Some e"
    then consider k ps where "(k, ps) \<in> set data" "sid = series_id c k" "t = fst (hd ps)"
        "e = swr_entry (written c cid (k, ps))"
      | "ci_entry ix sid t = Some e" "sce_chunk_id e \<notin> G" unfolding entry by blast
    then show "\<exists>k ps. has_series ?db (sce_chunk_id e) k ps \<and> sid = series_id c k \<and> t = fst (hd ps) \<and>
        sce_time_end_ns e = fst (last ps)"
    proof cases
      case 1
      then have "ps \<noteq> []" using data_okD(3) [OF data(1)] by force
      with 1 show ?thesis unfolding series by (auto simp: written_fields)
    next
      case 2
      then show ?thesis using index unfolding series store_index_def by blast
    qed
  qed
  have "dom (map_of (ci_chunk_files ?ix)) = {g. \<exists>k ps. has_series ?db g k ps}"
    unfolding files_dom [OF inv'] stats by blast
  also have "\<dots> = dom ?db"
  proof -
    have "dom db = {g. \<exists>k ps. has_series db g k ps}"
    proof -
      have "dom db = {g. \<exists>sid. map_of (ci_chunk_stats ix) (g, sid) \<noteq> None}"
        using store unfolding store_files_def files_dom [OF inv] by blast
      moreover have "map_of (ci_chunk_stats ix) (g, sid) \<noteq> None \<longleftrightarrow>
          (\<exists>k ps. has_series db g k ps \<and> sid = series_id c k)" for g sid
        using index unfolding store_index_def by blast
      ultimately show ?thesis by auto
    qed
    moreover have "\<exists>k ps. (k, ps) \<in> set data" using data(2) by (cases data) auto
    ultimately show ?thesis using \<open>cid \<notin> G\<close> unfolding series by auto
  qed
  finally have doms: "dom ?db = dom (map_of (ci_chunk_files ?ix))" by simp
  have metas: "map_of (ci_chunk_files ?ix) \<subseteq>\<^sub>m (map_of (ci_chunk_files ix))(cid \<mapsto> meta)"
    using files_deregister_all [of ds "register_data c cid meta data ix"] data(2)
    by (simp add: files_register_data)
  have "store_files c dir ?ix files' ?db"
    unfolding store_files_def
  proof (intro conjI allI impI doms)
    fix g m
    assume "map_of (ci_chunk_files ?ix) g = Some m"
    then have "((map_of (ci_chunk_files ix))(cid \<mapsto> meta)) g = Some m"
      using metas by (metis domI map_le_def)
    then show "cm_file_path m = chunk_path dir g"
      using store meta by (auto simp: store_files_def split: if_splits)
  next
    fix g d
    assume "?db g = Some d"
    then consider "g = cid" "d = data" | "g \<in> dom db - G" "db g = Some d"
      by (auto simp: restrict_map_def split: if_splits)
    then have "data_ok c g d \<and> files' (chunk_path dir g) = Some (file_of c g d)"
    proof cases
      case 1
      then show ?thesis using data(1) new by simp
    next
      case 2
      then show ?thesis using old [OF 2(1)] store unfolding store_files_def by simp
    qed
    then show "data_ok c g d" "files' (chunk_path dir g) = Some (file_of c g d)" by simp_all
  qed
  with inv' index' show ?thesis by (simp add: store_ok_def)
qed


text \<open>Writing a chunk and registering it: nothing is dropped.\<close>

definition starts_free :: "('h, 'b, 'z) chunk_crates_scheme \<Rightarrow> series_map \<Rightarrow> chunk_index \<Rightarrow> bool" where
  "starts_free c data ix \<longleftrightarrow> (\<forall>(k, ps) \<in> set data. ci_entry ix (series_id c k) (fst (hd ps)) = None)"

lemma store_ok_path:
  assumes "store_ok c dir ix files db" "files (chunk_path dir cid) = None"
  shows "db cid = None"
  using assms by (cases "db cid") (auto simp: store_ok_def store_files_def)

lemma store_ok_add:
  assumes ok: "store_ok c dir ix files db" and new: "db cid = None" and data: "data_ok c cid data" "data \<noteq> []"
    and meta: "cm_file_path meta = chunk_path dir cid" and apart: "keys_apart c data ix"
    and free: "starts_free c data ix"
  shows "store_ok c dir (register_data c cid meta data ix) (files(chunk_path dir cid \<mapsto> file_of c cid data))
    (db(cid \<mapsto> data))"
proof -
  have "replacement c dir ix files db cid meta data {} [] (files(chunk_path dir cid \<mapsto> file_of c cid data))"
    using new data meta apart free by (auto simp: replacement_def starts_free_def)
  moreover have restrict_all: "db |` (- {}) = db" by (rule ext) (simp add: restrict_map_def)
  ultimately show ?thesis
    using store_ok_replaced [OF _ ok, of cid meta data "{}" "[]"] unfolding restrict_all by simp
qed

lemma store_ok_write:
  assumes ok: "store_ok c dir ix files db" and w: "cw_write c dir now io data files = (files', Inr res)"
    and data: "data_ok c (new_chunk_id now) data" and apart: "keys_apart c data ix"
    and free: "starts_free c data ix"
  shows "store_ok c dir (register_results c res ix) files' (db(new_chunk_id now \<mapsto> data))"
    "db (new_chunk_id now) = None"
proof -
  note written = cw_write_Inr [OF w]
  show new: "db (new_chunk_id now) = None" using store_ok_path [OF ok written(4)] .
  from store_ok_add [OF ok new data written(1) _ apart free, of "cwr_chunk_meta res"] written(3,5)
  show "store_ok c dir (register_results c res ix) files' (db(new_chunk_id now \<mapsto> data))"
    by (simp add: register_results_write [OF w data_okD(1) [OF data]])
qed

lemma db_points_upd:
  assumes "db cid = None"
  shows "db_points (db(cid \<mapsto> data)) = db_points db \<union> {(k, t, v). sm_get data k t = Some v}"
proof -
  have "g \<noteq> cid" if "db g = Some d" for g d using assms that by auto
  then show ?thesis unfolding db_points_def by (fastforce split: if_splits)
qed

declare register_data_simps [simp del]

end
