(* ===== verification/Compaction.thy ===== *)
theory Compaction
  imports Float_Ratio Chunk_Store "HOL-Library.Sublist"
begin

section \<open>Compaction (compaction/mod.rs)\<close>

text \<open>
  The compaction worker: grouping the chunk files by size, merging the files of a group into
  one chunk, replacing their index entries and deleting them. The code holds the index lock
  while it selects the candidates and, again, while it replaces the entries of a group, and
  releases it in between, so that a flush can register chunks during a cycle. The definitions
  below run a cycle with nothing in between: \<open>compact_once\<close> and its properties are about cycles
  during which no flush registers a chunk. The clock, the write and the deletions are arguments.
\<close>

subsection \<open>Worker and candidates\<close>

record compaction_worker =
  wk_min_threshold :: usize
  wk_size_ratio :: f64
  wk_chunk_dir :: path

record compaction_result =
  cr_chunks_merged :: u32
  cr_bytes_freed :: u64

record merge_group =
  mg_chunks :: "(u64 \<times> path) list"
  mg_deregister :: "(u64 \<times> u64 \<times> i64) list"

definition F64_ONE :: f64 where
  "F64_ONE = F64 0x3FF0000000000000"

text \<open>\<open>CompactionWorker::new\<close>; \<open>None\<close> is the panic of its assertion.\<close>

definition compaction_worker_new :: "path \<Rightarrow> usize \<Rightarrow> f64 \<Rightarrow> compaction_worker option" where
  "compaction_worker_new chunk_dir min_threshold size_ratio =
     (if f64_le F64_ONE size_ratio
      then Some \<lparr>wk_min_threshold = min_threshold, wk_size_ratio = size_ratio, wk_chunk_dir = chunk_dir\<rparr>
      else None)"

fun group_loop ::
    "usize \<Rightarrow> f64 \<Rightarrow> (u64 \<times> path \<times> u64) list \<Rightarrow> (u64 \<times> path) list \<Rightarrow> u64 \<Rightarrow>
     (u64 \<times> path) list list \<Rightarrow> (u64 \<times> path) list list" where
  "group_loop min_threshold size_ratio [] current group_min_size raw_groups =
     (if unat min_threshold \<le> length current then raw_groups @ [current] else raw_groups)"
| "group_loop min_threshold size_ratio ((cid, path, sz) # files) current group_min_size raw_groups =
     (if current = [] then group_loop min_threshold size_ratio files [(cid, path)] sz raw_groups
      else if f64_le (f64_div_pos (f64_of_u64 sz) (f64_of_u64 group_min_size)) size_ratio
      then group_loop min_threshold size_ratio files (current @ [(cid, path)]) group_min_size raw_groups
      else group_loop min_threshold size_ratio files [(cid, path)] sz
             (if unat min_threshold \<le> length current then raw_groups @ [current] else raw_groups))"

definition sized_files :: "chunk_index \<Rightarrow> (u64 \<times> path \<times> u64) list" where
  "sized_files ix =
     sort_key (\<lambda>(_, _, sz). sz)
       (map (\<lambda>(cid, meta). (cid, cm_file_path meta, cm_file_size meta))
          (filter (\<lambda>(_, meta). 0 < cm_file_size meta) (ci_chunk_files ix)))"

definition deregister_list :: "chunk_index \<Rightarrow> u64 set \<Rightarrow> (u64 \<times> u64 \<times> i64) list" where
  "deregister_list ix chunk_ids =
     concat (map (\<lambda>(sid, time_map).
         map (\<lambda>(time_start_ns, entry). (sid, sce_chunk_id entry, time_start_ns))
           (filter (\<lambda>(_, entry). sce_chunk_id entry \<in> chunk_ids) time_map))
       (ci_time_index ix))"

definition find_candidates :: "compaction_worker \<Rightarrow> chunk_index \<Rightarrow> merge_group list" where
  "find_candidates w ix =
     map (\<lambda>chunks. \<lparr>mg_chunks = chunks, mg_deregister = deregister_list ix (fst ` set chunks)\<rparr>)
       (group_loop (wk_min_threshold w) (wk_size_ratio w) (sized_files ix) [] 0 [])"


subsection \<open>Merging a group\<close>

text \<open>Adding one point to the merged series, as the loop body does.\<close>

definition merge_point :: "data_point \<Rightarrow> series_map \<Rightarrow> series_map" where
  "merge_point point entries =
     (let key = SeriesKey (dp_metric_name point) (dp_tags point);
          vec = (case map_of entries key of None \<Rightarrow> [] | Some vec \<Rightarrow> vec)
      in case binary_search (map fst vec) (dp_timestamp_ns point) of
           Inr pos \<Rightarrow> bt_insert key (vec[pos := (fst (vec ! pos), dp_value point)]) entries
         | Inl pos \<Rightarrow> bt_insert key (vec_insert pos (dp_timestamp_ns point, dp_value point) vec) entries)"

fun merge_read ::
    "('h, 'b, 'z) chunk_crates_scheme \<Rightarrow> fs \<Rightarrow> (u64 \<times> path) list \<Rightarrow> series_map \<Rightarrow> series_map result" where
  "merge_read c files [] entries = Inr entries"
| "merge_read c files ((_, path) # chunks) entries =
     rbind (read_chunk c files path) (\<lambda>points.
       merge_read c files chunks (fold merge_point points entries))"

text \<open>\<open>remove_file\<close> on each path; \<open>ok\<close> says which of the calls succeed.\<close>

definition remove_files :: "(path \<Rightarrow> bool) \<Rightarrow> path list \<Rightarrow> fs \<Rightarrow> fs" where
  "remove_files ok paths files = fold (\<lambda>p fs. if ok p then fs(p := None) else fs) paths files"

record merge_env =
  me_now :: nat
  me_write :: create_outcome
  me_removed :: "path \<Rightarrow> bool"

definition merge_group_step ::
    "('h, 'b, 'z) chunk_crates_scheme \<Rightarrow> compaction_worker \<Rightarrow> merge_env \<Rightarrow> merge_group \<Rightarrow>
     chunk_index \<Rightarrow> fs \<Rightarrow> chunk_index \<times> fs \<times> chunk_write_result result" where
  "merge_group_step c w env grp ix files =
     (case merge_read c files (mg_chunks grp) [] of
        Inl e \<Rightarrow> (ix, files, Inl e)
      | Inr entries \<Rightarrow>
          (case cw_write c (wk_chunk_dir w) (me_now env) (me_write env) entries files of
             (files1, Inl e) \<Rightarrow> (ix, files1, Inl e)
           | (files1, Inr result) \<Rightarrow>
               (deregister_all (mg_deregister grp) (register_results c result ix),
                remove_files (me_removed env) (map snd (mg_chunks grp)) files1,
                Inr result)))"


subsection \<open>One cycle\<close>

definition old_bytes :: "chunk_index \<Rightarrow> merge_group list \<Rightarrow> u64" where
  "old_bytes ix groups =
     sum_list (map (\<lambda>grp. sum_list
       (map cm_file_size (List.map_filter (\<lambda>(cid, _). map_of (ci_chunk_files ix) cid) (mg_chunks grp)))) groups)"

text \<open>The loop over the groups; \<open>env i\<close> is the environment of the \<open>i\<close>-th merge.\<close>

fun merge_groups ::
    "('h, 'b, 'z) chunk_crates_scheme \<Rightarrow> compaction_worker \<Rightarrow> (nat \<Rightarrow> merge_env) \<Rightarrow> nat \<Rightarrow> merge_group list \<Rightarrow>
     chunk_index \<Rightarrow> fs \<Rightarrow> u64 \<Rightarrow> nat \<Rightarrow> chunk_index \<times> fs \<times> (u64 \<times> nat) result" where
  "merge_groups c w env i [] ix files new_bytes chunks_merged = (ix, files, Inr (new_bytes, chunks_merged))"
| "merge_groups c w env i (grp # groups) ix files new_bytes chunks_merged =
     (case merge_group_step c w (env i) grp ix files of
        (ix1, files1, Inl e) \<Rightarrow> (ix1, files1, Inl e)
      | (ix1, files1, Inr result) \<Rightarrow>
          merge_groups c w env (Suc i) groups ix1 files1
            (new_bytes + cm_file_size (cwr_chunk_meta result)) (chunks_merged + length (mg_chunks grp)))"

definition compact_once ::
    "('h, 'b, 'z) chunk_crates_scheme \<Rightarrow> compaction_worker \<Rightarrow> (nat \<Rightarrow> merge_env) \<Rightarrow> chunk_index \<Rightarrow> fs \<Rightarrow>
     chunk_index \<times> fs \<times> compaction_result result" where
  "compact_once c w env ix files =
     (let candidates = find_candidates w ix; old = old_bytes ix candidates
      in if candidates = [] then (ix, files, Inr \<lparr>cr_chunks_merged = 0, cr_bytes_freed = 0\<rparr>)
         else case merge_groups c w env 0 candidates ix files 0 0 of
                (ix1, files1, Inl e) \<Rightarrow> (ix1, files1, Inl e)
              | (ix1, files1, Inr (new_bytes, chunks_merged)) \<Rightarrow>
                  (ix1, files1,
                   Inr \<lparr>cr_chunks_merged = word_of_nat chunks_merged,
                        cr_bytes_freed = (if new_bytes \<le> old then old - new_bytes else 0)\<rparr>))"


subsection \<open>Selecting the groups\<close>

lemma subseq_set: "subseq xs ys \<Longrightarrow> set xs \<subseteq> set ys"
  by (metis set_nths_subset subseq_conv_nths)

lemma subseq_keeps_distinct: "subseq xs ys \<Longrightarrow> distinct ys \<Longrightarrow> distinct xs"
  by (metis distinct_nthsI subseq_conv_nths)

text \<open>The groups are consecutive runs of the files in order of size, so no file is in two groups.\<close>

lemma group_loop_subseq:
  "subseq (concat (group_loop thr ratio files current gmin raw))
     (concat raw @ current @ map (\<lambda>(cid, p, sz). (cid, p)) files)"
proof (induction thr ratio files current gmin raw rule: group_loop.induct)
  case (1 thr ratio current gmin raw)
  have "subseq (concat raw) (concat raw @ current)" by (rule subseq_rev_drop_many) simp
  then show ?case by simp
next
  case (2 thr ratio cid p sz files current gmin raw)
  let ?rest = "(cid, p) # map (\<lambda>(cid, p, sz). (cid, p)) files"
  let ?fits = "f64_le (f64_div_pos (f64_of_u64 sz) (f64_of_u64 gmin)) ratio"
  let ?raw = "if unat thr \<le> length current then raw @ [current] else raw"
  have "subseq (concat ?raw) (concat raw @ current)" by (simp add: subseq_rev_drop_many)
  then have "subseq (concat ?raw @ ?rest) ((concat raw @ current) @ ?rest)"
    by (rule list_emb_append_mono) simp
  then have cut: "subseq (concat ?raw @ ?rest) (concat raw @ current @ ?rest)" by simp
  consider "current = []" | "current \<noteq> []" ?fits | "current \<noteq> []" "\<not> ?fits" by blast
  then show ?case
  proof cases
    case 1
    with "2.IH"(1) show ?thesis by simp
  next
    case 2
    with "2.IH"(2) show ?thesis by simp
  next
    case 3
    with "2.IH"(3) have "subseq (concat (group_loop thr ratio files [(cid, p)] sz ?raw)) (concat ?raw @ ?rest)"
      by simp
    from subseq_order.order_trans [OF this cut] 3 show ?thesis by simp
  qed
qed

lemma group_loop_lengths:
  "\<forall>g \<in> set raw. unat thr \<le> length g \<Longrightarrow>
   \<forall>g \<in> set (group_loop thr ratio files current gmin raw). unat thr \<le> length g"
proof (induction thr ratio files current gmin raw rule: group_loop.induct)
  case (1 thr ratio current gmin raw)
  then show ?case by simp
next
  case (2 thr ratio cid p sz files current gmin raw)
  let ?fits = "f64_le (f64_div_pos (f64_of_u64 sz) (f64_of_u64 gmin)) ratio"
  consider "current = []" | "current \<noteq> []" ?fits | "current \<noteq> []" "\<not> ?fits" by blast
  then show ?case
  proof cases
    case 1
    with "2.IH"(1) [OF 1 "2.prems"] show ?thesis by (simp only: group_loop.simps if_True simp_thms)
  next
    case 2
    with "2.IH"(2) [OF 2 "2.prems"] show ?thesis by (simp only: group_loop.simps if_True if_False)
  next
    case 3
    have "\<forall>g \<in> set (if unat thr \<le> length current then raw @ [current] else raw). unat thr \<le> length g"
      using "2.prems" by auto
    from "2.IH"(3) [OF 3 this] 3 show ?thesis by (simp only: group_loop.simps if_False)
  qed
qed


lemma mg_chunks_candidates:
  "map mg_chunks (find_candidates w ix) =
     group_loop (wk_min_threshold w) (wk_size_ratio w) (sized_files ix) [] 0 []"
  by (simp add: find_candidates_def comp_def)

lemma candidate_deregister:
  "grp \<in> set (find_candidates w ix) \<Longrightarrow> mg_deregister grp = deregister_list ix (fst ` set (mg_chunks grp))"
  by (auto simp: find_candidates_def)

lemma candidate_length: "grp \<in> set (find_candidates w ix) \<Longrightarrow> unat (wk_min_threshold w) \<le> length (mg_chunks grp)"
  using group_loop_lengths [of "[]" "wk_min_threshold w" "wk_size_ratio w" "sized_files ix" "[]" 0]
  by (auto simp: find_candidates_def)

lemma candidates_subseq:
  "subseq (concat (map mg_chunks (find_candidates w ix))) (map (\<lambda>(cid, p, sz). (cid, p)) (sized_files ix))"
  using group_loop_subseq [of "wk_min_threshold w" "wk_size_ratio w" "sized_files ix" "[]" 0 "[]"]
  by (simp add: mg_chunks_candidates)

lemma set_sized_files:
  "(cid, p, sz) \<in> set (sized_files ix) \<longleftrightarrow>
     (\<exists>meta. (cid, meta) \<in> set (ci_chunk_files ix) \<and> cm_file_path meta = p \<and> cm_file_size meta = sz \<and> 0 < sz)"
  by (force simp: sized_files_def)

lemma distinct_sized_files:
  assumes "hm_inv (ci_chunk_files ix)"
  shows "distinct (map fst (sized_files ix))"
proof -
  let ?ys = "map (\<lambda>(cid, meta). (cid, cm_file_path meta, cm_file_size meta))
    (filter (\<lambda>(_, meta). 0 < cm_file_size meta) (ci_chunk_files ix))"
  have "map fst ?ys = map fst (filter (\<lambda>(_, meta). 0 < cm_file_size meta) (ci_chunk_files ix))"
    by (simp add: comp_def case_prod_beta)
  then have "distinct (map fst ?ys)"
    using assms by (simp only: hm_inv_def distinct_map_filter)
  then have "distinct ?ys" "inj_on fst (set ?ys)" by (simp_all only: distinct_map)
  then show ?thesis unfolding sized_files_def distinct_map [of fst] by (simp only: set_sort distinct_sort simp_thms)
qed

lemma candidates_distinct:
  assumes "hm_inv (ci_chunk_files ix)"
  shows "distinct (map fst (concat (map mg_chunks (find_candidates w ix))))"
proof -
  have "subseq (map fst (concat (map mg_chunks (find_candidates w ix))))
      (map fst (map (\<lambda>(cid, p, sz). (cid, p)) (sized_files ix)))"
    using candidates_subseq by (rule subseq_map)
  moreover have "map fst (map (\<lambda>(cid, p, sz). (cid, p)) (sized_files ix)) = map fst (sized_files ix)"
    by (simp add: comp_def case_prod_beta)
  ultimately show ?thesis
    using subseq_keeps_distinct distinct_sized_files [OF assms] by metis
qed

lemma candidate_files:
  assumes "grp \<in> set (find_candidates w ix)" "(cid, p) \<in> set (mg_chunks grp)"
  shows "\<exists>meta. (cid, meta) \<in> set (ci_chunk_files ix) \<and> cm_file_path meta = p"
proof -
  have "(cid, p) \<in> set (concat (map mg_chunks (find_candidates w ix)))" using assms by auto
  then have "(cid, p) \<in> set (map (\<lambda>(cid, p, sz). (cid, p)) (sized_files ix))"
    using subseq_set [OF candidates_subseq] by blast
  then show ?thesis by (auto simp: set_sized_files)
qed

lemma set_deregister_list:
  assumes "ci_maps_ok ix"
  shows "(sid, g, t) \<in> set (deregister_list ix G) \<longleftrightarrow>
    g \<in> G \<and> (\<exists>e. ci_entry ix sid t = Some e \<and> sce_chunk_id e = g)"
proof -
  have "map_of (ci_time_index ix) sid = Some tm \<longleftrightarrow> (sid, tm) \<in> set (ci_time_index ix)" for tm
    using assms by (simp add: ci_maps_ok_def hm_inv_def)
  moreover have "map_of tm t = Some e \<longleftrightarrow> (t, e) \<in> set tm" if "(sid, tm) \<in> set (ci_time_index ix)" for tm e
    using assms that bt_inv_distinct [of tm] by (fastforce simp: ci_maps_ok_def)
  moreover have "ci_entry ix sid t = Some e \<longleftrightarrow>
      (\<exists>tm. map_of (ci_time_index ix) sid = Some tm \<and> map_of tm t = Some e)" for e
    by (simp add: ci_entry_def split: option.splits)
  ultimately have entry: "ci_entry ix sid t = Some e \<longleftrightarrow> (\<exists>tm. (sid, tm) \<in> set (ci_time_index ix) \<and> (t, e) \<in> set tm)" for e
    by blast
  show ?thesis unfolding entry deregister_list_def by force
qed


subsection \<open>The merged series\<close>

lemma merge_point_bt:
  assumes "sm_inv entries"
  shows "merge_point p entries =
    bt_insert (dp_key p) (bt_insert (dp_timestamp_ns p) (dp_value p) (sm_vec entries (dp_key p))) entries"
proof -
  let ?vec = "sm_vec entries (dp_key p)"
  have inv: "bt_inv ?vec" using assms by (rule sm_inv_vec)
  show ?thesis
  proof (cases "binary_search (map fst ?vec) (dp_timestamp_ns p)")
    case (Inl pos)
    with vec_insert_bt_insert(1) [OF inv Inl] show ?thesis
      by (simp add: merge_point_def Let_def flip: sm_vec_def)
  next
    case (Inr pos)
    with vec_update_bt_insert(1) [OF inv Inr] show ?thesis
      by (simp add: merge_point_def Let_def flip: sm_vec_def)
  qed
qed

text \<open>The map of merged series is a store of points.\<close>

definition merge_put :: "series_key \<Rightarrow> i64 \<Rightarrow> f64 \<Rightarrow> series_map \<Rightarrow> series_map" where
  "merge_put k t v = merge_point (point_of k (t, v))"

interpretation mg: point_store merge_put sm_get sm_inv
proof
  fix s k t v k' t'
  assume inv: "sm_inv s"
  have eq: "merge_put k t v s = bt_insert k (bt_insert t v (sm_vec s k)) s"
    using merge_point_bt [OF inv, of "point_of k (t, v)"] by (simp add: merge_put_def point_of_def)
  show "sm_inv (merge_put k t v s)"
    unfolding eq by (rule sm_inv_insert [OF inv bt_inv_insert [OF sm_inv_vec [OF inv]] bt_insert_not_Nil])
  show "sm_get (merge_put k t v s) k' t' = (if k' = k \<and> t' = t then Some v else sm_get s k' t')"
    unfolding eq by (rule sm_get_insert [OF inv])
qed

lemma fold_merge_point: "fold merge_point ps m = fold (\<lambda>(k, t, v). merge_put k t v) (writes_of ps) m"
  by (induction ps arbitrary: m) (simp_all add: writes_of_def merge_put_def)

definition points_of :: "series_map \<Rightarrow> data_point list" where
  "points_of data = concat (map (\<lambda>(k, ps). map (point_of k) ps) data)"

definition merge_data :: "series_map list \<Rightarrow> series_map" where
  "merge_data ds = fold (\<lambda>data. fold merge_point (points_of data)) ds []"

lemma merge_data_puts: "merge_data ds = fold (\<lambda>(k, t, v). merge_put k t v) (writes_of (concat (map points_of ds))) []"
proof -
  have "fold (\<lambda>data. fold merge_point (points_of data)) ds m = fold merge_point (concat (map points_of ds)) m" for m
    by (induction ds arbitrary: m) simp_all
  then show ?thesis by (simp add: merge_data_def fold_merge_point)
qed

lemma sm_inv_Nil [simp]: "sm_inv []" and sm_get_Nil [simp]: "sm_get [] k t = None"
  by (simp_all add: sm_inv_def sm_get_def)

lemma sm_inv_merge_data: "sm_inv (merge_data ds)"
  unfolding merge_data_puts by (rule mg.invar_puts) simp

lemma set_writes_points:
  "(k, t, v) \<in> set (writes_of (points_of data)) \<longleftrightarrow> (\<exists>ps. (k, ps) \<in> set data \<and> (t, v) \<in> set ps)"
  by (force simp: writes_of_def points_of_def point_of_def)

lemma last_write_points:
  assumes "sm_inv data"
  shows "last_write (writes_of (points_of data)) k t = sm_get data k t"
proof (cases "last_write (writes_of (points_of data)) k t")
  case None
  then have "(k, t, v) \<notin> set (writes_of (points_of data))" for v
    by (force simp: last_write_def map_of_eq_None_iff)
  then have "sm_get data k t \<noteq> Some v" for v
    using sm_get_mem [OF assms] set_writes_points by blast
  with None show ?thesis by (cases "sm_get data k t") auto
next
  case (Some v)
  then have "(k, t, v) \<in> set (writes_of (points_of data))" by (rule last_write_Some_mem)
  then have "sm_get data k t = Some v" using sm_get_mem [OF assms] set_writes_points by blast
  with Some show ?thesis by simp
qed

text \<open>
  Each timestamp of a series keeps the value of the last chunk that has it, in the order in
  which the chunks are merged.
\<close>

lemma sm_get_merge_data:
  "\<forall>d \<in> set ds. sm_inv d \<Longrightarrow>
   sm_get (merge_data ds) k t = fold (\<lambda>d r. case sm_get d k t of Some v \<Rightarrow> Some v | None \<Rightarrow> r) ds None"
proof (induction ds rule: rev_induct)
  case Nil
  then show ?case by (simp add: merge_data_def)
next
  case (snoc d ds)
  have "merge_data (ds @ [d]) = fold (\<lambda>(k, t, v). merge_put k t v) (writes_of (points_of d)) (merge_data ds)"
    by (simp add: merge_data_def fold_merge_point)
  then show ?case
    using snoc mg.get_puts [OF sm_inv_merge_data, of "writes_of (points_of d)" ds k t]
      last_write_points [of d k t] by (simp split: option.splits)
qed

lemma merge_fold_mem:
  "fold (\<lambda>d r. case sm_get d k t of Some v \<Rightarrow> Some v | None \<Rightarrow> r) ds r0 = Some v \<Longrightarrow>
   r0 = Some v \<or> (\<exists>d \<in> set ds. sm_get d k t = Some v)"
  by (induction ds arbitrary: r0) (fastforce split: option.splits)+

lemma merge_fold_dom:
  "fold (\<lambda>d r. case sm_get d k t of Some v \<Rightarrow> Some v | None \<Rightarrow> r) ds r0 = None \<longleftrightarrow>
   r0 = None \<and> (\<forall>d \<in> set ds. sm_get d k t = None)"
  by (induction ds arbitrary: r0) (auto split: option.splits)


lemma sm_get_merge_dataD:
  assumes "\<forall>d \<in> set ds. sm_inv d"
  shows "sm_get (merge_data ds) k t = Some v \<Longrightarrow> \<exists>d \<in> set ds. sm_get d k t = Some v"
    and "d \<in> set ds \<Longrightarrow> sm_get d k t = Some v \<Longrightarrow> sm_get (merge_data ds) k t \<noteq> None"
  unfolding sm_get_merge_data [OF assms] using merge_fold_mem [of k t ds None v] merge_fold_dom [of k t ds None]
  by auto

text \<open>A merged series starts where one of its parts starts.\<close>

lemma sm_inv_hd_le:
  assumes "sm_inv data" "(k, ps) \<in> set data" "(t, v) \<in> set ps"
  shows "fst (hd ps) \<le> t"
proof -
  have "bt_inv ps" "ps \<noteq> []" using assms(1,2) by (auto simp: sm_inv_def)
  with bt_inv_bounds(1) [OF _ assms(3)] show ?thesis by (simp add: hd_conv_nth)
qed

lemma merge_data_start:
  assumes ds: "\<forall>d \<in> set ds. sm_inv d" and ps: "(k, ps) \<in> set (merge_data ds)"
  shows "\<exists>d \<in> set ds. \<exists>ps'. (k, ps') \<in> set d \<and> fst (hd ps') = fst (hd ps)"
proof -
  note inv = sm_inv_merge_data [of ds]
  have "ps \<noteq> []" using inv ps by (auto simp: sm_inv_def)
  then have "(fst (hd ps), snd (hd ps)) \<in> set ps" by simp
  then have "sm_get (merge_data ds) k (fst (hd ps)) = Some (snd (hd ps))"
    using sm_get_mem [OF inv] ps by blast
  then obtain d where d: "d \<in> set ds" "sm_get d k (fst (hd ps)) = Some (snd (hd ps))"
    using sm_get_merge_dataD(1) [OF ds] by blast
  have invd: "sm_inv d" using ds d(1) by blast
  then obtain ps' where ps': "(k, ps') \<in> set d" "(fst (hd ps), snd (hd ps)) \<in> set ps'"
    using d(2) sm_get_mem by blast
  have "fst (hd ps') \<le> fst (hd ps)" using sm_inv_hd_le [OF invd ps'] .
  moreover have "fst (hd ps) \<le> fst (hd ps')"
  proof -
    have "ps' \<noteq> []" using ps'(2) by auto
    then have "(fst (hd ps'), snd (hd ps')) \<in> set ps'" by simp
    then have "sm_get d k (fst (hd ps')) = Some (snd (hd ps'))" using sm_get_mem [OF invd] ps'(1) by blast
    from sm_get_merge_dataD(2) [OF ds d(1) this]
    obtain v where "sm_get (merge_data ds) k (fst (hd ps')) = Some v" by auto
    then obtain qs where qs: "(k, qs) \<in> set (merge_data ds)" "(fst (hd ps'), v) \<in> set qs"
      using sm_get_mem [OF inv] by blast
    have "distinct (map fst (merge_data ds))" using inv by (simp add: sm_inv_def bt_inv_distinct)
    then have "qs = ps" using qs(1) ps by (metis map_of_is_SomeI option.inject)
    with sm_inv_hd_le [OF inv qs] show ?thesis by simp
  qed
  ultimately show ?thesis using d(1) ps'(1) by force
qed

lemma merge_data_keys:
  assumes "\<forall>d \<in> set ds. sm_inv d" "k \<in> fst ` set (merge_data ds)"
  shows "\<exists>d \<in> set ds. k \<in> fst ` set d"
  using merge_data_start [OF assms(1)] assms(2) by force

lemma merge_data_not_Nil: "\<forall>d \<in> set ds. sm_inv d \<Longrightarrow> d \<in> set ds \<Longrightarrow> d \<noteq> [] \<Longrightarrow> merge_data ds \<noteq> []"
proof
  assume ds: "\<forall>d \<in> set ds. sm_inv d" "d \<in> set ds" "d \<noteq> []" and empty: "merge_data ds = []"
  obtain k ps where e: "(k, ps) \<in> set d" using ds(3) by (cases d) auto
  have inv: "sm_inv d" using ds by blast
  then have "ps \<noteq> []" using e by (auto simp: sm_inv_def)
  then have "(fst (hd ps), snd (hd ps)) \<in> set ps" by simp
  then have "sm_get d k (fst (hd ps)) = Some (snd (hd ps))" using sm_get_mem [OF inv] e by blast
  from sm_get_merge_dataD(2) [OF ds(1,2) this] empty show False by simp
qed

text \<open>Reading the files of a group gives the merged data of its chunks.\<close>

lemma merge_read_files:
  assumes lz4: "lz4_lossless c"
  shows "\<forall>(g, p) \<in> set chunks. data_ok c g (D g) \<and> files p = Some (file_of c g (D g)) \<Longrightarrow>
    merge_read c files chunks m =
      Inr (fold (\<lambda>data. fold merge_point (points_of data)) (map (\<lambda>(g, p). D g) chunks) m)"
proof (induction chunks arbitrary: m)
  case Nil
  then show ?case by simp
next
  case (Cons x chunks)
  obtain g p where x: "x = (g, p)" by (cases x)
  have data: "data_ok c g (D g)" "files p = Some (file_of c g (D g))" using Cons.prems by (simp_all add: x)
  then have "\<forall>e \<in> set (live (D g)). from_bytes (to_bytes (fst e)) = Inr (fst e)"
    by (auto simp: data_ok_def live_def from_bytes_to_bytes)
  with data have "read_chunk c files p = Inr (points_of (D g))"
    unfolding points_of_def by (intro read_chunk_file_of [OF lz4]) (auto simp: data_ok_def)
  with Cons show ?case by (simp add: x)
qed

lemma merge_read_store:
  assumes lz4: "lz4_lossless c" and ok: "store_ok c dir ix files db"
    and chunks: "\<forall>(g, p) \<in> set chunks. p = chunk_path dir g \<and> db g \<noteq> None"
  shows "merge_read c files chunks m =
    Inr (fold (\<lambda>data. fold merge_point (points_of data)) (map (\<lambda>(g, p). the (db g)) chunks) m)"
proof (rule merge_read_files [OF lz4])
  have "data_ok c g (the (db g)) \<and> files p = Some (file_of c g (the (db g)))"
    if mem: "(g, p) \<in> set chunks" for g p
  proof -
    have p: "p = chunk_path dir g" and "db g \<noteq> None" using chunks mem by blast+
    then obtain d where "db g = Some d" by auto
    then show ?thesis using ok p by (simp add: store_ok_def store_files_def)
  qed
  then show "\<forall>(g, p) \<in> set chunks. data_ok c g (the (db g)) \<and> files p = Some (file_of c g (the (db g)))" by blast
qed


subsection \<open>A merge keeps the store\<close>

definition group_ok :: "path \<Rightarrow> chunk_index \<Rightarrow> chunk_db \<Rightarrow> merge_group \<Rightarrow> bool" where
  "group_ok dir ix db grp \<longleftrightarrow>
     (\<forall>(g, p) \<in> set (mg_chunks grp). p = chunk_path dir g \<and> db g \<noteq> None) \<and>
     (\<forall>sid g t. (sid, g, t) \<in> set (mg_deregister grp) \<longleftrightarrow>
        g \<in> fst ` set (mg_chunks grp) \<and> (\<exists>e. ci_entry ix sid t = Some e \<and> sce_chunk_id e = g))"

abbreviation group_data :: "chunk_db \<Rightarrow> merge_group \<Rightarrow> series_map" where
  "group_data db grp \<equiv> merge_data (map (\<lambda>(g, p). the (db g)) (mg_chunks grp))"

abbreviation group_ids :: "merge_group \<Rightarrow> u64 set" where
  "group_ids grp \<equiv> fst ` set (mg_chunks grp)"

lemma remove_files_other: "p \<notin> set paths \<Longrightarrow> remove_files ok paths files p = files p"
  unfolding remove_files_def by (induction paths arbitrary: files) auto

lemma store_data_ok: "store_ok c dir ix files db \<Longrightarrow> db g = Some data \<Longrightarrow> data_ok c g data"
  by (simp add: store_ok_def store_files_def)

lemma store_data_not_Nil:
  assumes "store_ok c dir ix files db" "db g = Some data"
  shows "data \<noteq> []"
proof -
  have "g \<in> dom (map_of (ci_chunk_files ix))"
    using assms unfolding store_ok_def store_files_def by blast
  moreover have "ci_inv c ix" using assms(1) by (simp add: store_ok_def)
  ultimately obtain sid where "map_of (ci_chunk_stats ix) (g, sid) \<noteq> None"
    using files_dom [of c ix] by blast
  then have "\<exists>k ps. has_series db g k ps" using assms(1) unfolding store_ok_def store_index_def by blast
  then show ?thesis using assms(2) by (auto simp: has_series_def)
qed

lemma group_data_ok:
  assumes ok: "store_ok c dir ix files db" and grp: "group_ok dir ix db grp" "mg_chunks grp \<noteq> []"
    and fits: "chunk_fits c cid (group_data db grp)"
  shows "data_ok c cid (group_data db grp)" "keys_apart c (group_data db grp) ix" "group_data db grp \<noteq> []"
proof -
  let ?ds = "map (\<lambda>(g, p). the (db g)) (mg_chunks grp)"
  have ds: "\<exists>g. g \<in> group_ids grp \<and> db g = Some d" if mem: "d \<in> set ?ds" for d
  proof -
    obtain g p where g: "(g, p) \<in> set (mg_chunks grp)" "d = the (db g)" using mem by auto
    then have "db g \<noteq> None" using grp(1) unfolding group_ok_def by blast
    with g show ?thesis by force
  qed
  have inv: "\<forall>d \<in> set ?ds. sm_inv d"
  proof
    fix d
    assume "d \<in> set ?ds"
    then obtain g where "db g = Some d" using ds by blast
    then show "sm_inv d" using store_data_ok [OF ok] data_okD(1) by blast
  qed
  have keys: "key_type_ok k \<and> key_unambiguous k \<and> map_of (ci_series_registry ix) (series_id c k) = Some k"
    if k: "k \<in> fst ` set (group_data db grp)" for k
  proof -
    obtain d where d: "d \<in> set ?ds" "k \<in> fst ` set d" using merge_data_keys [OF inv k] by blast
    then obtain g where g: "db g = Some d" using ds by blast
    then have "key_type_ok k \<and> key_unambiguous k"
      using store_data_ok [OF ok g] d(2) unfolding data_ok_def by blast
    moreover obtain ps where "(k, ps) \<in> set d" using d(2) by auto
    then have "has_series db g k ps" using g by (simp add: has_series_def)
    then have "map_of (ci_series_registry ix) (series_id c k) = Some k"
      using ok unfolding store_ok_def store_index_def by blast
    ultimately show ?thesis by blast
  qed
  show "data_ok c cid (group_data db grp)"
    unfolding data_ok_def by (intro conjI ballI sm_inv_merge_data fits) (drule keys, simp only: simp_thms)+
  show "keys_apart c (group_data db grp) ix"
    unfolding keys_apart_def
  proof
    show "inj_on (series_id c) (fst ` set (group_data db grp))"
    proof (rule inj_onI)
      fix a b
      assume a: "a \<in> fst ` set (group_data db grp)" and b: "b \<in> fst ` set (group_data db grp)"
        and eq: "series_id c a = series_id c b"
      from keys [OF a] keys [OF b] show "a = b" unfolding eq by (metis option.inject)
    qed
    show "\<forall>k \<in> fst ` set (group_data db grp). no_collision c k ix"
    proof
      fix k
      assume k: "k \<in> fst ` set (group_data db grp)"
      from keys [OF k] show "no_collision c k ix" by (simp add: no_collision_def)
    qed
  qed
  obtain d where d: "d \<in> set ?ds" using grp(2) by (cases "mg_chunks grp") auto
  then obtain g where "db g = Some d" using ds by blast
  with store_data_not_Nil [OF ok] show "group_data db grp \<noteq> []"
    using merge_data_not_Nil [OF inv d] by blast
qed


lemma store_ok_new_file:
  assumes ok: "store_ok c dir ix files db" and p: "files p = None"
  shows "store_ok c dir ix (files(p := v)) db"
proof -
  have "chunk_path dir g \<noteq> p" if "db g = Some d" for g d
    using ok p that by (auto simp: store_ok_def store_files_def)
  then show ?thesis using ok unfolding store_ok_def store_files_def by auto
qed

lemma cw_write_Inl:
  assumes "cw_write c dir now io data files = (files', Inl e)"
  shows "files' = files \<or> (\<exists>p v. files p = None \<and> files' = files(p := v))"
  using assms by (auto simp: cw_write_def cw_encode_eq Let_def split: if_splits create_outcome.splits)

lemma merge_step_failed:
  assumes ok: "store_ok c dir ix files db"
    and step: "merge_group_step c w env grp ix files = (ix', files', Inl e)"
  shows "ix' = ix" "store_ok c dir ix files' db"
proof -
  have "ix' = ix \<and> (files' = files \<or> (\<exists>p v. files p = None \<and> files' = files(p := v)))"
  proof (cases "merge_read c files (mg_chunks grp) []")
    case (Inr entries)
    then obtain files1 r where w: "cw_write c (wk_chunk_dir w) (me_now env) (me_write env) entries files = (files1, r)"
      by fastforce
    with step Inr have "r = Inl e" "ix' = ix" "files' = files1"
      by (auto simp: merge_group_step_def split: sum.splits)
    with cw_write_Inl [of c _ _ _ entries files files1 e] w show ?thesis by blast
  qed (use step in \<open>simp add: merge_group_step_def\<close>)
  then show "ix' = ix" "store_ok c dir ix files' db"
    using ok store_ok_new_file [OF ok] by auto
qed

lemma merge_step_ok:
  assumes lz4: "lz4_lossless c" and ok: "store_ok c dir ix files db" and grp: "group_ok dir ix db grp"
    and dir: "wk_chunk_dir w = dir" and fits: "\<forall>cid. chunk_fits c cid (group_data db grp)"
    and step: "merge_group_step c w env grp ix files = (ix', files', Inr res)"
  shows "replacement c dir ix files db (new_chunk_id (me_now env)) (cwr_chunk_meta res) (group_data db grp)
      (group_ids grp) (mg_deregister grp) files'" (is ?rep)
    "ix' = replaced_index c (new_chunk_id (me_now env)) (cwr_chunk_meta res) (group_data db grp) (mg_deregister grp) ix"
proof -
  let ?cid = "new_chunk_id (me_now env)" and ?data = "group_data db grp"
  have chunks: "\<forall>(g, p) \<in> set (mg_chunks grp). p = chunk_path dir g \<and> db g \<noteq> None"
    using grp by (simp add: group_ok_def)
  have read: "merge_read c files (mg_chunks grp) [] = Inr ?data"
    using merge_read_store [OF lz4 ok chunks, of "[]"] by (simp add: merge_data_def)
  obtain files1 r where w: "cw_write c dir (me_now env) (me_write env) ?data files = (files1, r)" by fastforce
  with step read dir have r: "r = Inr res"
    and ix': "ix' = deregister_all (mg_deregister grp) (register_results c res ix)"
    and files': "files' = remove_files (me_removed env) (map snd (mg_chunks grp)) files1"
    by (auto simp: merge_group_step_def split: sum.splits)
  note written = cw_write_Inr [OF w [unfolded r]]
  have ne: "mg_chunks grp \<noteq> []" using written(1) by (auto simp: merge_data_def)
  note data = group_data_ok [OF ok grp ne fits [rule_format]]
  show "ix' = replaced_index c ?cid (cwr_chunk_meta res) ?data (mg_deregister grp) ix"
    unfolding ix' register_results_write [OF w [unfolded r] sm_inv_merge_data] ..
  have new: "db ?cid = None" using store_ok_path [OF ok written(4)] .
  have G: "group_ids grp \<subseteq> dom db" using chunks by fastforce
  have paths: "set (map snd (mg_chunks grp)) = chunk_path dir ` group_ids grp"
    using chunks by (force simp: image_iff)
  have over: "sce_chunk_id e \<in> group_ids grp"
    if mem: "(k, ps) \<in> set ?data" and e: "ci_entry ix (series_id c k) (fst (hd ps)) = Some e" for k ps e
  proof -
    have "\<forall>d \<in> set (map (\<lambda>(g, p). the (db g)) (mg_chunks grp)). sm_inv d"
      using chunks store_data_ok [OF ok] data_okD(1) by fastforce
    from merge_data_start [OF this mem] obtain g p ps' where
      g: "(g, p) \<in> set (mg_chunks grp)" "(k, ps') \<in> set (the (db g))" "fst (hd ps') = fst (hd ps)" by auto
    then have "has_series db g k ps'" using chunks by (force simp: has_series_def)
    then have "\<exists>e. ci_entry ix (series_id c k) (fst (hd ps')) = Some e \<and> sce_chunk_id e = g"
      using ok unfolding store_ok_def store_index_def by blast
    with e g show ?thesis by force
  qed
  have other: "files' (chunk_path dir g) = files1 (chunk_path dir g)" if "g \<notin> group_ids grp" for g
  proof -
    have "chunk_path dir g \<notin> set (map snd (mg_chunks grp))"
      unfolding paths using that by (metis chunk_path_inject imageE)
    then show ?thesis unfolding files' by (rule remove_files_other)
  qed
  have "?cid \<notin> group_ids grp" using new G by auto
  then have "files' (chunk_path dir ?cid) = Some (file_of c ?cid ?data)" by (simp add: other written)
  moreover have "files' (chunk_path dir g) = files (chunk_path dir g)" if g: "g \<in> dom db - group_ids grp" for g
  proof -
    have "g \<noteq> ?cid" using g new by auto
    then show ?thesis using other g by (simp add: written)
  qed
  ultimately show ?rep
    unfolding replacement_def
    using new G data over grp written(3) by (auto simp: group_ok_def)
qed


subsection \<open>A cycle keeps the points\<close>

text \<open>
  The same series and timestamps, with values that were there before; where two chunks had
  the same timestamp of a series one of the two values is kept.
\<close>

definition same_points :: "chunk_db \<Rightarrow> chunk_db \<Rightarrow> bool" where
  "same_points db db' \<longleftrightarrow>
     db_points db' \<subseteq> db_points db \<and> (\<forall>k t v. (k, t, v) \<in> db_points db \<longrightarrow> (\<exists>v'. (k, t, v') \<in> db_points db'))"

lemma same_points_refl: "same_points db db"
  by (auto simp: same_points_def)

lemma same_points_trans: "same_points a b \<Longrightarrow> same_points b d \<Longrightarrow> same_points a d"
  unfolding same_points_def by blast

lemma db_pointsI: "db g = Some d \<Longrightarrow> sm_get d k t = Some v \<Longrightarrow> (k, t, v) \<in> db_points db"
  unfolding db_points_def by blast

lemma db_pointsE:
  assumes "(k, t, v) \<in> db_points db"
  obtains g d where "db g = Some d" "sm_get d k t = Some v"
  using assms unfolding db_points_def by blast

lemma same_points_merge:
  assumes ok: "store_ok c dir ix files db" and grp: "group_ok dir ix db grp" and new: "db cid = None"
  shows "same_points db (replaced_db cid (group_data db grp) (group_ids grp) db)"
proof -
  let ?ds = "map (\<lambda>(g, p). the (db g)) (mg_chunks grp)" and ?db = "replaced_db cid (group_data db grp) (group_ids grp) db"
  have chunks: "\<exists>d. db g = Some d \<and> d \<in> set ?ds" if g: "g \<in> group_ids grp" for g
  proof -
    obtain p where p: "(g, p) \<in> set (mg_chunks grp)" using g by auto
    then have "db g \<noteq> None" using grp unfolding group_ok_def by blast
    moreover have "the (db g) \<in> set ?ds" using p by force
    ultimately show ?thesis by auto
  qed
  have ds: "\<exists>g. db g = Some d" if mem: "d \<in> set ?ds" for d
  proof -
    obtain g p where g: "(g, p) \<in> set (mg_chunks grp)" "d = the (db g)" using mem by auto
    then have "db g \<noteq> None" using grp unfolding group_ok_def by blast
    with g(2) show ?thesis by auto
  qed
  have inv: "\<forall>d \<in> set ?ds. sm_inv d"
  proof
    fix d
    assume "d \<in> set ?ds"
    then obtain g where "db g = Some d" using ds by blast
    then show "sm_inv d" using store_data_ok [OF ok] data_okD(1) by blast
  qed
  show ?thesis
    unfolding same_points_def
  proof (intro conjI allI impI subsetI)
    fix x
    assume x: "x \<in> db_points ?db"
    obtain k t v where kv: "x = (k, t, v)" by (cases x)
    from x obtain g d where g: "?db g = Some d" "sm_get d k t = Some v" unfolding kv by (rule db_pointsE)
    show "x \<in> db_points db"
    proof (cases "g = cid")
      case True
      then have "sm_get (group_data db grp) k t = Some v" using g by simp
      then obtain d where d: "d \<in> set ?ds" "sm_get d k t = Some v" using sm_get_merge_dataD(1) [OF inv] by blast
      then show ?thesis using ds [OF d(1)] by (auto simp: kv intro: db_pointsI)
    next
      case False
      then have "db g = Some d" using g(1) by (simp add: restrict_map_def split: if_splits)
      then show ?thesis using g(2) by (auto simp: kv intro: db_pointsI)
    qed
  next
    fix k t v
    assume "(k, t, v) \<in> db_points db"
    then obtain g d where g: "db g = Some d" "sm_get d k t = Some v" by (rule db_pointsE)
    show "\<exists>v'. (k, t, v') \<in> db_points ?db"
    proof (cases "g \<in> group_ids grp")
      case True
      then have "d \<in> set ?ds" using chunks g(1) by force
      from sm_get_merge_dataD(2) [OF inv this g(2)] obtain v' where
        "sm_get (group_data db grp) k t = Some v'" by auto
      then show ?thesis using db_pointsI [of ?db cid "group_data db grp" k t v'] by auto
    next
      case False
      then have "?db g = Some d" using g(1) new by (auto simp: restrict_map_def)
      then show ?thesis using g(2) db_pointsI by blast
    qed
  qed
qed


lemma store_finite: "store_ok c dir ix files db \<Longrightarrow> finite (dom db)"
  by (simp add: store_ok_def store_files_def finite_dom_map_of)

lemma card_replaced:
  assumes fin: "finite (dom db)" and new: "db cid = None" and G: "G \<subseteq> dom db"
  shows "card (dom (replaced_db cid data G db)) + card G = card (dom db) + 1"
proof -
  have "dom (replaced_db cid data G db) = insert cid (dom db - G)" by (auto simp: restrict_map_def split: if_splits)
  moreover have "cid \<notin> dom db - G" using new by auto
  moreover have "card (dom db - G) = card (dom db) - card G" using fin G by (simp add: card_Diff_subset finite_subset)
  moreover have "card G \<le> card (dom db)" using fin G by (rule card_mono)
  ultimately show ?thesis using fin by simp
qed

lemma group_ok_after:
  assumes rep: "replacement c dir ix files db cid meta data G ds files'"
    and grp: "group_ok dir ix db grp" and apart: "group_ids grp \<inter> G = {}"
  shows "group_ok dir (replaced_index c cid meta data ds ix) (replaced_db cid data G db) grp"
    "group_data (replaced_db cid data G db) grp = group_data db grp"
proof -
  have new: "db cid = None" using rep by (simp add: replacement_def)
  have db: "replaced_db cid data G db g = db g" if "g \<in> group_ids grp" "db g \<noteq> None" for g
    using that new apart by (auto simp: restrict_map_def)
  have chunks: "\<forall>(g, p) \<in> set (mg_chunks grp). p = chunk_path dir g \<and> db g \<noteq> None"
    using grp by (simp add: group_ok_def)
  have same: "(\<exists>e. ci_entry (replaced_index c cid meta data ds ix) sid t = Some e \<and> sce_chunk_id e = g) \<longleftrightarrow>
      (\<exists>e. ci_entry ix sid t = Some e \<and> sce_chunk_id e = g)" if g: "g \<in> group_ids grp" for sid t g
  proof -
    obtain p where "(g, p) \<in> set (mg_chunks grp)" using g by auto
    then have "g \<noteq> cid" using chunks new by blast
    moreover have "g \<notin> G" using g apart by blast
    ultimately show ?thesis unfolding entry_replaced [OF rep] by (auto simp: written_fields)
  qed
  have "\<forall>(g, p) \<in> set (mg_chunks grp). p = chunk_path dir g \<and> replaced_db cid data G db g \<noteq> None"
  proof clarify
    fix g p
    assume mem: "(g, p) \<in> set (mg_chunks grp)"
    then have g: "g \<in> group_ids grp" by force
    have "p = chunk_path dir g" and n: "db g \<noteq> None" using mem chunks by blast+
    with db [OF g n] show "p = chunk_path dir g \<and> replaced_db cid data G db g \<noteq> None" by simp
  qed
  moreover have "\<forall>sid g t. (sid, g, t) \<in> set (mg_deregister grp) \<longleftrightarrow> g \<in> group_ids grp \<and>
      (\<exists>e. ci_entry (replaced_index c cid meta data ds ix) sid t = Some e \<and> sce_chunk_id e = g)"
  proof (intro allI)
    fix sid g t
    have "(sid, g, t) \<in> set (mg_deregister grp) \<longleftrightarrow>
        g \<in> group_ids grp \<and> (\<exists>e. ci_entry ix sid t = Some e \<and> sce_chunk_id e = g)"
      using grp unfolding group_ok_def by simp
    also have "\<dots> \<longleftrightarrow> g \<in> group_ids grp \<and>
        (\<exists>e. ci_entry (replaced_index c cid meta data ds ix) sid t = Some e \<and> sce_chunk_id e = g)"
      by (rule conj_cong [OF refl], rule same [symmetric])
    finally show "(sid, g, t) \<in> set (mg_deregister grp) \<longleftrightarrow> g \<in> group_ids grp \<and>
        (\<exists>e. ci_entry (replaced_index c cid meta data ds ix) sid t = Some e \<and> sce_chunk_id e = g)" .
  qed
  ultimately show "group_ok dir (replaced_index c cid meta data ds ix) (replaced_db cid data G db) grp"
    unfolding group_ok_def by blast
  have "map (\<lambda>(g, p). the (replaced_db cid data G db g)) (mg_chunks grp) = map (\<lambda>(g, p). the (db g)) (mg_chunks grp)"
  proof (rule map_cong [OF refl], clarify)
    fix g p
    assume mem: "(g, p) \<in> set (mg_chunks grp)"
    then have "g \<in> group_ids grp" by force
    moreover have "db g \<noteq> None" using mem chunks by blast
    ultimately have "replaced_db cid data G db g = db g" by (rule db)
    then show "the (replaced_db cid data G db g) = the (db g)" by simp
  qed
  then show "group_data (replaced_db cid data G db) grp = group_data db grp" by (rule arg_cong)
qed

lemma merge_groups_store:
  assumes lz4: "lz4_lossless c" and dir: "wk_chunk_dir w = dir"
  shows "store_ok c dir ix files db \<Longrightarrow> \<forall>grp \<in> set groups. group_ok dir ix db grp \<Longrightarrow>
    distinct (map fst (concat (map mg_chunks groups))) \<Longrightarrow>
    \<forall>grp \<in> set groups. \<forall>cid. chunk_fits c cid (group_data db grp) \<Longrightarrow>
    merge_groups c w env i groups ix files nb n = (ix', files', r) \<Longrightarrow>
    \<exists>db'. store_ok c dir ix' files' db' \<and> same_points db db' \<and>
      (\<forall>x. r = Inr x \<longrightarrow>
         card (dom db') + sum_list (map (length \<circ> mg_chunks) groups) = card (dom db) + length groups \<and>
         snd x = n + sum_list (map (length \<circ> mg_chunks) groups))"
proof (induction groups arbitrary: i ix files db nb n)
  case Nil
  then show ?case using same_points_refl by auto
next
  case (Cons grp groups)
  obtain ix1 files1 r1 where step: "merge_group_step c w (env i) grp ix files = (ix1, files1, r1)"
    by (metis prod_cases3)
  have ok: "store_ok c dir ix files db" and grp: "group_ok dir ix db grp" using Cons.prems by simp_all
  show ?case
  proof (cases r1)
    case (Inl e)
    then have "ix' = ix1" "files' = files1" "r = Inl e" using Cons.prems(5) step by simp_all
    moreover have "store_ok c dir ix1 files1 db"
      using merge_step_failed [OF ok step [unfolded Inl]] by simp
    ultimately show ?thesis using same_points_refl by blast
  next
    case (Inr res)
    let ?cid = "new_chunk_id (me_now (env i))" and ?data = "group_data db grp" and ?G = "group_ids grp"
    let ?db = "replaced_db ?cid ?data ?G db"
    have fits: "\<forall>cid. chunk_fits c cid ?data" using Cons.prems(4) by simp
    note m = merge_step_ok [OF lz4 ok grp dir fits step [unfolded Inr]]
    have new: "db ?cid = None" and G: "?G \<subseteq> dom db" using m(1) by (simp_all add: replacement_def)
    have ok1: "store_ok c dir ix1 files1 ?db" unfolding m(2) by (rule store_ok_replaced [OF m(1) ok])
    have disj: "?G \<inter> fst ` set (concat (map mg_chunks groups)) = {}" using Cons.prems(3) by simp
    have apart: "group_ids g \<inter> ?G = {}" if "g \<in> set groups" for g
    proof -
      have "set (mg_chunks g) \<subseteq> set (concat (map mg_chunks groups))" using that by auto
      then show ?thesis using disj by (metis Int_commute Int_mono image_mono order_refl subset_empty)
    qed
    have after: "\<forall>g \<in> set groups. group_ok dir ix1 ?db g" "\<forall>g \<in> set groups. \<forall>cid. chunk_fits c cid (group_data ?db g)"
    proof -
      have "group_ok dir ix1 ?db g \<and> (\<forall>cid. chunk_fits c cid (group_data ?db g))" if g: "g \<in> set groups" for g
      proof -
        have "group_ok dir ix db g" "\<forall>cid. chunk_fits c cid (group_data db g)" using Cons.prems(2,4) g by simp_all
        with group_ok_after [OF m(1) _ apart [OF g]] show ?thesis unfolding m(2) by simp
      qed
      then show "\<forall>g \<in> set groups. group_ok dir ix1 ?db g" "\<forall>g \<in> set groups. \<forall>cid. chunk_fits c cid (group_data ?db g)"
        by blast+
    qed
    have rest: "merge_groups c w env (Suc i) groups ix1 files1 (nb + cm_file_size (cwr_chunk_meta res))
        (n + length (mg_chunks grp)) = (ix', files', r)" using Cons.prems(5) step Inr by simp
    have dist: "distinct (map fst (concat (map mg_chunks groups)))" "distinct (map fst (mg_chunks grp))"
      using Cons.prems(3) by simp_all
    have "card ?G = length (mg_chunks grp)" using dist(2) distinct_card [of "map fst (mg_chunks grp)"] by simp
    with card_replaced [OF store_finite [OF ok] new G, of ?data]
    have card: "card (dom ?db) + length (mg_chunks grp) = card (dom db) + 1" by simp
    from Cons.IH [OF ok1 after(1) dist(1) after(2) rest] obtain db' where
      db': "store_ok c dir ix' files' db'" "same_points ?db db'"
      "\<forall>x. r = Inr x \<longrightarrow> card (dom db') + sum_list (map (length \<circ> mg_chunks) groups) = card (dom ?db) + length groups \<and>
         snd x = n + length (mg_chunks grp) + sum_list (map (length \<circ> mg_chunks) groups)" by blast
    have "same_points db db'" using same_points_merge [OF ok grp new] db'(2) by (rule same_points_trans)
    moreover have "card (dom db') + sum_list (map (length \<circ> mg_chunks) (grp # groups)) = card (dom db) + length (grp # groups) \<and>
        snd x = n + sum_list (map (length \<circ> mg_chunks) (grp # groups))" if "r = Inr x" for x
      using db'(3) that card by simp
    ultimately show ?thesis using db'(1) by blast
  qed
qed


lemma sum_list_length_le: "\<forall>x \<in> set xs. n \<le> f x \<Longrightarrow> n * length xs \<le> sum_list (map f xs)" for f :: "'a \<Rightarrow> nat"
  by (induction xs) auto

lemma candidates_ok:
  assumes ok: "store_ok c dir ix files db" and grp: "grp \<in> set (find_candidates w ix)"
  shows "group_ok dir ix db grp"
proof -
  have maps: "ci_maps_ok ix" using ok by (simp add: store_ok_def ci_inv_def)
  then have "map_of (ci_chunk_files ix) g = Some m" if "(g, m) \<in> set (ci_chunk_files ix)" for g m
    using that by (simp add: ci_maps_ok_def hm_inv_def)
  then have "p = chunk_path dir g \<and> db g \<noteq> None" if "(g, p) \<in> set (mg_chunks grp)" for g p
    using candidate_files [OF grp that] ok unfolding store_ok_def store_files_def by blast
  then show ?thesis
    unfolding group_ok_def candidate_deregister [OF grp]
    using set_deregister_list [OF maps] by auto
qed

lemma store_hm_inv: "store_ok c dir ix files db \<Longrightarrow> hm_inv (ci_chunk_files ix)"
  by (simp add: store_ok_def ci_inv_def ci_maps_ok_def)

lemma store_card: "store_ok c dir ix files db \<Longrightarrow> card (dom db) = ci_chunk_file_count ix"
  using store_hm_inv [of c dir ix files db]
  by (simp add: store_ok_def store_files_def ci_chunk_file_count_def hm_inv_def dom_map_of_conv_image_fst
      distinct_card flip: set_map)

text \<open>What a cycle does to the store, and how many files it leaves when it succeeds.\<close>

lemma compact_once_store:
  assumes lz4: "lz4_lossless c" and ok: "store_ok c (wk_chunk_dir w) ix files db"
    and fits: "\<forall>grp \<in> set (find_candidates w ix). \<forall>cid. chunk_fits c cid (group_data db grp)"
    and cycle: "compact_once c w env ix files = (ix', files', r)"
  shows "\<exists>db'. store_ok c (wk_chunk_dir w) ix' files' db' \<and> same_points db db' \<and>
    (\<forall>res. r = Inr res \<longrightarrow>
       ci_chunk_file_count ix' + sum_list (map (length \<circ> mg_chunks) (find_candidates w ix)) =
         ci_chunk_file_count ix + length (find_candidates w ix))"
proof -
  let ?groups = "find_candidates w ix"
  obtain ix1 files1 r1 where m: "merge_groups c w env 0 ?groups ix files 0 0 = (ix1, files1, r1)"
    by (metis prod_cases3)
  have "\<forall>grp \<in> set ?groups. group_ok (wk_chunk_dir w) ix db grp" using candidates_ok [OF ok] by blast
  from merge_groups_store [OF lz4 refl ok this candidates_distinct [OF store_hm_inv [OF ok]] fits m]
  obtain db' where db': "store_ok c (wk_chunk_dir w) ix1 files1 db'" "same_points db db'"
    "\<forall>x. r1 = Inr x \<longrightarrow> card (dom db') + sum_list (map (length \<circ> mg_chunks) ?groups) = card (dom db) + length ?groups"
    by blast
  show ?thesis
  proof (cases "?groups = []")
    case True
    then have "ix' = ix" "files' = files" using cycle by (simp_all add: compact_once_def Let_def)
    with True ok same_points_refl show ?thesis by auto
  next
    case False
    then have "ix' = ix1" "files' = files1" "\<exists>x. r1 = Inr x" if "r = Inr res" for res
      using cycle m that by (auto simp: compact_once_def Let_def split: sum.splits)
    moreover have "ix' = ix1 \<and> files' = files1"
      using False cycle m by (auto simp: compact_once_def Let_def split: sum.splits)
    ultimately show ?thesis using db' store_card [OF ok] store_card [OF db'(1)] by auto
  qed
qed


subsection \<open>An example store\<close>

abbreviation cpu_key :: series_key where
  "cpu_key \<equiv> SeriesKey ''cpu'' [(''host'', ''a'')]"

abbreviation later_series :: series_map where
  "later_series \<equiv> [(cpu_key, [(I64 9, F64 40)])]"

abbreviation example_meta :: "u64 \<Rightarrow> chunk_meta" where
  "example_meta cid \<equiv> \<lparr>cm_file_path = chunk_path [''chunks''] cid, cm_file_size = 100\<rparr>"

abbreviation example_index :: chunk_index where
  "example_index \<equiv> register_data plain_crates 8 (example_meta 8) later_series
     (register_data plain_crates 7 (example_meta 7) two_series ci_new)"

abbreviation example_chunks :: fs where
  "example_chunks \<equiv> [chunk_path [''chunks''] 7 \<mapsto> file_of plain_crates 7 two_series,
     chunk_path [''chunks''] 8 \<mapsto> file_of plain_crates 8 later_series]"

abbreviation example_worker :: compaction_worker where
  "example_worker \<equiv>
     \<lparr>wk_min_threshold = 2, wk_size_ratio = F64 0x3FF8000000000000, wk_chunk_dir = [''chunks'']\<rparr>"

lemma example_keys_ok:
  "key_type_ok cpu_key \<and> key_unambiguous cpu_key \<and> key_type_ok (SeriesKey ''mem'' []) \<and>
   key_unambiguous (SeriesKey ''mem'' [])"
  by (simp add: key_type_ok_def key_unambiguous_def str_ok_def as_bytes_def byte_of_char_def utf8_ascii_def)

lemma example_fits: "chunk_fits plain_crates cid two_series" "chunk_fits plain_crates cid later_series"
  by (simp_all add: chunk_fits_def live_def enc_fits_def enc_def encode_series_def file_of_eq
      covered_of_def body_of_def length_header_to_bytes encoded_of_def length_bloom_bytes
      column_bytes_def dir_size_def plain_crates_def to_bytes_def)

lemma example_ids: "series_id plain_crates cpu_key = 10" "series_id plain_crates (SeriesKey ''mem'' []) = 3"
  by (simp_all add: series_id_def plain_crates_def to_bytes_def)

lemma example_store:
  "store_ok plain_crates [''chunks''] example_index example_chunks [7 \<mapsto> two_series, 8 \<mapsto> later_series]"
proof -
  let ?ix = "register_data plain_crates 7 (example_meta 7) two_series ci_new"
  have "sm_inv later_series" by (simp add: sm_inv_def)
  then have data: "data_ok plain_crates 7 two_series" "data_ok plain_crates 8 later_series"
    using two_series_inv example_fits example_keys_ok by (simp_all add: data_ok_def)
  have one: "store_ok plain_crates [''chunks''] ?ix
      [chunk_path [''chunks''] 7 \<mapsto> file_of plain_crates 7 two_series] [7 \<mapsto> two_series]"
    using data(1)
    by (intro store_ok_add [OF store_ok_new])
      (simp_all add: keys_apart_def no_collision_def starts_free_def example_ids ci_new_def ci_entry_def)
  have reg: "map_of (ci_series_registry ?ix) 10 = Some cpu_key"
    unfolding registry_register_data by (simp add: example_ids map_add_def)
  have "ci_entry ?ix 10 (I64 9) = None"
    using fun_cong [OF entry_register_data [of two_series plain_crates 7 "example_meta 7" ci_new], of "(10, I64 9)"]
    by (simp add: example_ids map_add_def ci_entry_def ci_new_def)
  then show ?thesis
    using data(2) reg
    by (intro store_ok_add [OF one])
      (simp_all add: keys_apart_def no_collision_def starts_free_def example_ids)
qed

lemma example_candidates:
  "map mg_chunks (find_candidates example_worker example_index) =
     [[(7, chunk_path [''chunks''] 7), (8, chunk_path [''chunks''] 8)]]"
proof -
  have "ci_chunk_files example_index = [(7, example_meta 7), (8, example_meta 8)]"
    by (simp add: register_data_simps ci_register_def Let_def ci_new_def written_fields)
  then have files: "sized_files example_index =
      [(7, chunk_path [''chunks''] 7, 100), (8, chunk_path [''chunks''] 8, 100)]"
    by (simp add: sized_files_def)
  have "f64_le (F64 0x3FF0000000000000) (F64 0x3FF8000000000000)" by (simp add: f64_le_def f64_is_nan_def f64_key_def)
  then show ?thesis unfolding mg_chunks_candidates files by (simp add: f64_div_pos_self)
qed

lemma example_merged:
  "merge_data [two_series, later_series] =
     [(cpu_key, [(I64 1, F64 10), (I64 5, F64 20), (I64 9, F64 40)]), (SeriesKey ''mem'' [], [(I64 3, F64 30)])]"
  by code_simp


lemma example_group_fits:
  "\<forall>grp \<in> set (find_candidates example_worker example_index). \<forall>cid.
     chunk_fits plain_crates cid (group_data [7 \<mapsto> two_series, 8 \<mapsto> later_series] grp)"
proof (intro ballI allI)
  fix grp cid
  assume "grp \<in> set (find_candidates example_worker example_index)"
  then have "mg_chunks grp \<in> set (map mg_chunks (find_candidates example_worker example_index))" by simp
  then have chunks: "mg_chunks grp = [(7, chunk_path [''chunks''] 7), (8, chunk_path [''chunks''] 8)]"
    unfolding example_candidates by simp
  have "group_data [7 \<mapsto> two_series, 8 \<mapsto> later_series] grp = merge_data [two_series, later_series]"
    by (simp add: chunks)
  then show "chunk_fits plain_crates cid (group_data [7 \<mapsto> two_series, 8 \<mapsto> later_series] grp)"
    unfolding example_merged
    by (simp add: chunk_fits_def live_def enc_fits_def enc_def encode_series_def file_of_eq
        covered_of_def body_of_def length_header_to_bytes encoded_of_def length_bloom_bytes
        column_bytes_def dir_size_def plain_crates_def to_bytes_def)
qed


subsection \<open>Properties\<close>

text \<open>
  C5.  A compaction cycle, whether it succeeds or fails at any read, write or deletion,
  leaves the index and the files consistent with each other, loses no series and no
  timestamp, and adds no value.
\<close>

theorem compaction_keeps_points:
  assumes "lz4_lossless c" "store_ok c (wk_chunk_dir w) ix files db"
    "\<forall>grp \<in> set (find_candidates w ix). \<forall>cid. chunk_fits c cid (group_data db grp)"
    "compact_once c w env ix files = (ix', files', r)"
  shows "\<exists>db'. store_ok c (wk_chunk_dir w) ix' files' db' \<and> same_points db db'"
  using compact_once_store [OF assms] by blast

theorem compaction_keeps_points_witness:
  "\<exists>db' ix' files'. store_ok plain_crates [''chunks''] ix' files' db' \<and>
     (\<exists>v. (cpu_key, I64 9, v) \<in> db_points db') \<and>
     (ix', files') = (\<lambda>(ix, files, r). (ix, files)) (compact_once plain_crates example_worker
        (\<lambda>i. \<lparr>me_now = 9, me_write = CreateOk, me_removed = (\<lambda>p. True)\<rparr>) example_index example_chunks)"
proof -
  let ?env = "\<lambda>i. \<lparr>me_now = 9, me_write = CreateOk, me_removed = (\<lambda>p. True)\<rparr>"
  let ?db = "[7 \<mapsto> two_series, 8 \<mapsto> later_series]"
  obtain ix' files' r where cycle:
    "compact_once plain_crates example_worker ?env example_index example_chunks = (ix', files', r)"
    by (metis prod_cases3)
  obtain db' where db': "store_ok plain_crates [''chunks''] ix' files' db'" "same_points ?db db'"
    using compaction_keeps_points [OF plain_crates_lossless, of example_worker example_index example_chunks ?db,
        OF _ example_group_fits cycle] example_store by auto
  have "(cpu_key, I64 9, F64 40) \<in> db_points ?db"
    by (rule db_pointsI [of _ 8 later_series]) (simp_all add: sm_get_def)
  then show ?thesis using db' cycle unfolding same_points_def by fastforce
qed

text \<open>
  C23.  A successful cycle that finds something to merge strictly reduces the number of chunk
  files, when the threshold is at least two files: repeated cycles come to an end.
\<close>

theorem compaction_shrinks:
  assumes "lz4_lossless c" "store_ok c (wk_chunk_dir w) ix files db"
    "\<forall>grp \<in> set (find_candidates w ix). \<forall>cid. chunk_fits c cid (group_data db grp)"
    "compact_once c w env ix files = (ix', files', Inr res)"
    "2 \<le> unat (wk_min_threshold w)" "find_candidates w ix \<noteq> []"
  shows "ci_chunk_file_count ix' < ci_chunk_file_count ix"
proof -
  let ?groups = "find_candidates w ix"
  have "\<forall>grp \<in> set ?groups. 2 \<le> length (mg_chunks grp)"
    using candidate_length assms(5) by (meson order_trans)
  then have "2 * length ?groups \<le> sum_list (map (length \<circ> mg_chunks) ?groups)"
    by (intro sum_list_length_le) simp
  moreover have "0 < length ?groups" using assms(6) by simp
  moreover have "ci_chunk_file_count ix' + sum_list (map (length \<circ> mg_chunks) ?groups) =
      ci_chunk_file_count ix + length ?groups"
    using compact_once_store [OF assms(1-4)] by blast
  ultimately show ?thesis by linarith
qed


text \<open>A write of a non-empty map to a free path succeeds when the environment lets it.\<close>

lemma cw_write_succeeds:
  assumes "data \<noteq> []" "files (chunk_path dir (new_chunk_id now)) = None"
  shows "\<exists>files' res. cw_write c dir now CreateOk data files = (files', Inr res)"
  using assms by (simp add: cw_write_def cw_encode_eq Let_def)

lemma example_step:
  "\<exists>grp ix' files' res. find_candidates example_worker example_index = [grp] \<and>
     mg_chunks grp = [(7, chunk_path [''chunks''] 7), (8, chunk_path [''chunks''] 8)] \<and>
     merge_group_step plain_crates example_worker
       \<lparr>me_now = 9, me_write = CreateOk, me_removed = (\<lambda>p. True)\<rparr> grp example_index example_chunks =
       (ix', files', Inr res)"
proof -
  let ?chunks = "[(7, chunk_path [''chunks''] 7), (8, chunk_path [''chunks''] 8)]"
  obtain grp where grp: "find_candidates example_worker example_index = [grp]" "mg_chunks grp = ?chunks"
    using example_candidates by (cases "find_candidates example_worker example_index") auto
  have "merge_read plain_crates example_chunks ?chunks [] = Inr (merge_data [two_series, later_series])"
    by (subst merge_read_store [OF plain_crates_lossless example_store]) (simp_all add: merge_data_def)
  moreover obtain files' res where
    "cw_write plain_crates [''chunks''] 9 CreateOk (merge_data [two_series, later_series]) example_chunks =
      (files', Inr res)"
    using cw_write_succeeds [of "merge_data [two_series, later_series]" example_chunks "[''chunks'']" 9 plain_crates]
    unfolding example_merged by (auto simp: new_chunk_id_def)
  ultimately show ?thesis using grp by (simp add: merge_group_step_def)
qed

lemma example_cycle:
  "\<exists>ix' files' res. compact_once plain_crates example_worker
     (\<lambda>i. \<lparr>me_now = 9, me_write = CreateOk, me_removed = (\<lambda>p. True)\<rparr>) example_index example_chunks =
     (ix', files', Inr res)"
  using example_step by (auto simp: compact_once_def Let_def)

theorem compaction_shrinks_witness:
  "\<exists>ix' files' res. compact_once plain_crates example_worker
     (\<lambda>i. \<lparr>me_now = 9, me_write = CreateOk, me_removed = (\<lambda>p. True)\<rparr>) example_index example_chunks =
     (ix', files', Inr res) \<and> ci_chunk_file_count ix' < 2"
proof -
  obtain ix' files' res where cycle: "compact_once plain_crates example_worker
     (\<lambda>i. \<lparr>me_now = 9, me_write = CreateOk, me_removed = (\<lambda>p. True)\<rparr>) example_index example_chunks =
     (ix', files', Inr res)" using example_cycle by blast
  have "find_candidates example_worker example_index \<noteq> []" using example_candidates by auto
  then have "ci_chunk_file_count ix' < ci_chunk_file_count example_index"
    using compaction_shrinks [OF plain_crates_lossless, of example_worker example_index example_chunks
        "[7 \<mapsto> two_series, 8 \<mapsto> later_series]", OF _ example_group_fits cycle] example_store by simp
  moreover have "ci_chunk_file_count example_index = 2"
    using store_card [OF example_store] by simp
  ultimately show ?thesis using cycle by auto
qed

text \<open>
  C25.  The chunk a merge writes holds, for every series and timestamp of the group, the
  value of the last file of the group that has it; the files of a group are in ascending order
  of size, so the larger file's value is kept, not the later one's.
\<close>

theorem compaction_merged_values:
  assumes "lz4_lossless c" "store_ok c (wk_chunk_dir w) ix files db" "grp \<in> set (find_candidates w ix)"
    "\<forall>cid. chunk_fits c cid (group_data db grp)"
    "merge_group_step c w env grp ix files = (ix', files', Inr res)"
  shows "\<exists>data. read_chunk c files' (cm_file_path (cwr_chunk_meta res)) = Inr (points_of data) \<and>
    (\<forall>k t. sm_get data k t =
       fold (\<lambda>d r. case sm_get d k t of Some v \<Rightarrow> Some v | None \<Rightarrow> r)
         (map (\<lambda>(g, p). the (db g)) (mg_chunks grp)) None) \<and>
    subseq (mg_chunks grp) (map (\<lambda>(cid, p, sz). (cid, p)) (sized_files ix)) \<and>
    sorted (map (\<lambda>(cid, p, sz). sz) (sized_files ix))"
proof -
  let ?data = "group_data db grp" and ?cid = "new_chunk_id (me_now env)"
  have grp: "group_ok (wk_chunk_dir w) ix db grp" by (rule candidates_ok [OF assms(2,3)])
  note m = merge_step_ok(1) [OF assms(1,2) grp refl assms(4,5)]
  have path: "cm_file_path (cwr_chunk_meta res) = chunk_path (wk_chunk_dir w) ?cid"
    and f: "files' (chunk_path (wk_chunk_dir w) ?cid) = Some (file_of c ?cid ?data)"
    and data: "data_ok c ?cid ?data" using m by (simp_all add: replacement_def)
  have "\<forall>e \<in> set (live ?data). from_bytes (to_bytes (fst e)) = Inr (fst e)"
    using data by (auto simp: data_ok_def live_def from_bytes_to_bytes)
  then have "read_chunk c files' (cm_file_path (cwr_chunk_meta res)) = Inr (points_of ?data)"
    unfolding path points_of_def
    using read_chunk_file_of [OF assms(1) assms(4) [rule_format], of files' _ ?cid] f by blast
  moreover have "sm_get ?data k t = fold (\<lambda>d r. case sm_get d k t of Some v \<Rightarrow> Some v | None \<Rightarrow> r)
      (map (\<lambda>(g, p). the (db g)) (mg_chunks grp)) None" for k t
  proof -
    have "\<forall>d \<in> set (map (\<lambda>(g, p). the (db g)) (mg_chunks grp)). sm_inv d"
      using grp store_data_ok [OF assms(2)] data_okD(1) by (fastforce simp: group_ok_def)
    then show ?thesis by (rule sm_get_merge_data)
  qed
  moreover have "subseq (mg_chunks grp) (map (\<lambda>(cid, p, sz). (cid, p)) (sized_files ix))"
  proof -
    obtain before after where "find_candidates w ix = before @ grp # after" using assms(3) by (auto dest: split_list)
    then have "subseq (mg_chunks grp) (concat (map mg_chunks (find_candidates w ix)))"
      by (simp add: subseq_drop_many subseq_rev_drop_many)
    then show ?thesis using candidates_subseq subseq_order.order_trans by blast
  qed
  moreover have "sorted (map (\<lambda>(cid, p, sz). sz) (sized_files ix))" by (simp add: sized_files_def)
  ultimately show ?thesis by blast
qed


theorem compaction_merged_values_witness:
  "\<exists>files' (res :: chunk_write_result) data.
     read_chunk plain_crates files' (cm_file_path (cwr_chunk_meta res)) = Inr (points_of data) \<and>
     sm_get data cpu_key (I64 9) = Some (F64 40) \<and> sm_get data cpu_key (I64 5) = Some (F64 20)"
proof -
  let ?db = "[7 \<mapsto> two_series, 8 \<mapsto> later_series]"
  obtain grp ix' files' res where grp: "find_candidates example_worker example_index = [grp]"
    "mg_chunks grp = [(7, chunk_path [''chunks''] 7), (8, chunk_path [''chunks''] 8)]"
    and step: "merge_group_step plain_crates example_worker
       \<lparr>me_now = 9, me_write = CreateOk, me_removed = (\<lambda>p. True)\<rparr> grp example_index example_chunks =
       (ix', files', Inr res)" using example_step by blast
  have mem: "grp \<in> set (find_candidates example_worker example_index)" by (simp add: grp(1))
  have fits: "\<forall>cid. chunk_fits plain_crates cid (group_data ?db grp)" using example_group_fits mem by blast
  have ok: "store_ok plain_crates (wk_chunk_dir example_worker) example_index example_chunks ?db"
    using example_store by simp
  obtain data where r: "read_chunk plain_crates files' (cm_file_path (cwr_chunk_meta res)) = Inr (points_of data)"
    and g: "\<forall>k t. sm_get data k t = fold (\<lambda>d r. case sm_get d k t of Some v \<Rightarrow> Some v | None \<Rightarrow> r)
       (map (\<lambda>(g, p). the (?db g)) (mg_chunks grp)) None"
    using compaction_merged_values [OF plain_crates_lossless ok mem fits step] by blast
  have "sm_get data cpu_key (I64 9) = Some (F64 40)" "sm_get data cpu_key (I64 5) = Some (F64 20)"
    using g [rule_format, of cpu_key "I64 9"] g [rule_format, of cpu_key "I64 5"]
    unfolding grp(2) by (simp_all add: sm_get_def)
  with r show ?thesis by blast
qed

text \<open>Reading a group fails when one of its files is missing.\<close>

lemma merge_read_missing:
  "(g, p) \<in> set chunks \<Longrightarrow> files p = None \<Longrightarrow> \<exists>e. merge_read c files chunks m = Inl e"
proof (induction chunks arbitrary: m)
  case (Cons x chunks)
  obtain g' p' where x: "x = (g', p')" by (cases x)
  show ?case
  proof (cases "read_chunk c files p'")
    case (Inr points)
    then have "p' \<noteq> p" using Cons.prems(2) by (auto simp: read_chunk_def read_file_def)
    with Cons Inr show ?thesis by (simp add: x)
  qed (simp add: x)
qed simp

lemma remove_files_keeps_gone: "files p = None \<Longrightarrow> remove_files ok paths files p = None"
  unfolding remove_files_def by (induction paths arbitrary: files) auto

lemma remove_files_gone: "p \<in> set paths \<Longrightarrow> ok p \<Longrightarrow> remove_files ok paths files p = None"
proof (induction paths arbitrary: files)
  case (Cons q paths)
  show ?case
  proof (cases "q = p")
    case True
    with Cons.prems(2) remove_files_keeps_gone [of "files(p := None)" p ok paths] show ?thesis
      by (simp add: remove_files_def)
  next
    case False
    with Cons show ?thesis by (simp add: remove_files_def)
  qed
qed simp

lemma ci_files_ok_register_results: "ci_files_ok ix \<Longrightarrow> ci_files_ok (register_results c res ix)"
proof -
  have "ci_files_ok ix \<Longrightarrow> ci_files_ok
      (fold (\<lambda>s ix. fst (ci_register c (swr_series_key s) (swr_entry s) (swr_stats s) m ix)) rs ix)" for rs m ix
    by (induction rs arbitrary: ix) (auto simp: ci_files_ok_register)
  then show "ci_files_ok ix \<Longrightarrow> ci_files_ok (register_results c res ix)" by (simp add: register_results_def)
qed

lemma ci_files_ok_deregister_all: "ci_files_ok ix \<Longrightarrow> ci_files_ok (deregister_all ds ix)"
  by (induction ds arbitrary: ix) (auto simp: ci_files_ok_deregister)

lemma stats_register_results:
  "map_of (ci_chunk_stats ix) x \<noteq> None \<Longrightarrow> map_of (ci_chunk_stats (register_results c res ix)) x \<noteq> None"
proof -
  have "map_of (ci_chunk_stats ix) x \<noteq> None \<Longrightarrow> map_of (ci_chunk_stats
      (fold (\<lambda>s ix. fst (ci_register c (swr_series_key s) (swr_entry s) (swr_stats s) m ix)) rs ix)) x \<noteq> None" for rs m ix
    by (induction rs arbitrary: ix) (simp_all add: stats_register)
  then show "map_of (ci_chunk_stats ix) x \<noteq> None \<Longrightarrow> map_of (ci_chunk_stats (register_results c res ix)) x \<noteq> None"
    by (simp add: register_results_def)
qed


text \<open>
  C26.  A chunk that a later one with the same start time has hidden in the index is merged
  and deleted like the others, but it stays listed: its entries are not found when the group
  is selected. From then on no group with that chunk can be merged, because its file is
  missing, so that compaction fails from the first cycle that selects it on.
\<close>

theorem compaction_stuck_on_hidden_chunk:
  assumes "(ci_step c)\<^sup>*\<^sup>* ({}, ci_new) (keys, ix)" "map_of (ci_chunk_stats ix) (x, sid) \<noteq> None"
    "\<forall>t e. ci_entry ix sid t = Some e \<longrightarrow> sce_chunk_id e \<noteq> x"
    "grp \<in> set (find_candidates w ix)" "(x, p) \<in> set (mg_chunks grp)" "me_removed env p"
    "merge_group_step c w env grp ix files = (ix', files', Inr res)"
  shows "x \<in> fst ` set (ci_chunk_files ix') \<and> files' p = None \<and>
    (\<forall>w' env' grp' ix''. (x, p) \<in> set (mg_chunks grp') \<longrightarrow>
       (\<exists>e. snd (snd (merge_group_step c w' env' grp' ix'' files')) = Inl e))"
proof -
  have maps: "ci_maps_ok ix" and files_ok: "ci_files_ok ix"
    using reachable_base [OF assms(1)] by (simp_all add: ci_base_def)
  obtain entries files1 where ix': "ix' = deregister_all (mg_deregister grp) (register_results c res ix)"
    and files': "files' = remove_files (me_removed env) (map snd (mg_chunks grp)) files1"
    using assms(7) by (auto simp: merge_group_step_def split: sum.splits prod.splits)
  have "(sid, x, t) \<notin> set (mg_deregister grp)" for t
    unfolding candidate_deregister [OF assms(4)] set_deregister_list [OF maps] using assms(3) by blast
  then have "map_of (ci_chunk_stats ix') (x, sid) \<noteq> None"
    unfolding ix' stats_deregister_all using stats_register_results [OF assms(2)] by simp
  then have "(x, sid) \<in> fst ` set (ci_chunk_stats ix')" by (metis map_of_eq_None_iff)
  moreover have "ci_files_ok ix'"
    unfolding ix' by (intro ci_files_ok_deregister_all ci_files_ok_register_results files_ok)
  ultimately have "x \<in> fst ` set (ci_chunk_files ix')" unfolding ci_files_ok_def by force
  moreover have gone: "files' p = None"
    unfolding files' using assms(5,6) by (intro remove_files_gone) force+
  moreover have "\<exists>e. snd (snd (merge_group_step c w' env' grp' ix'' files')) = Inl e"
    if "(x, p) \<in> set (mg_chunks grp')" for w' env' grp' ix''
    using merge_read_missing [of x p "mg_chunks grp'" files' c "[]", OF that gone] by (auto simp: merge_group_step_def)
  ultimately show ?thesis by blast
qed

text \<open>Two chunks with the same series and the same start time.\<close>

abbreviation hidden_index :: chunk_index where
  "hidden_index \<equiv> register_data plain_crates 8 (example_meta 8) two_series
     (register_data plain_crates 7 (example_meta 7) two_series ci_new)"

lemma ci_steps_register_data:
  "\<forall>k \<in> fst ` set data. key_type_ok k \<Longrightarrow>
   (ci_step c)\<^sup>*\<^sup>* (keys, ix) (keys \<union> fst ` set data, register_data c cid meta data ix)"
proof (induction data arbitrary: keys ix)
  case (Cons e data)
  obtain k ps where e: "e = (k, ps)" by (cases e)
  have "ci_step c (keys, ix) (insert k keys,
      fst (ci_register c k (swr_entry (written c cid e)) (swr_stats (written c cid e)) meta ix))"
    using Cons.prems by (intro step_register) (simp_all add: e written_fields key_type_ok_def)
  with Cons.IH [of "insert k keys"] Cons.prems show ?case
    by (auto simp: e register_data_simps intro: converse_rtranclp_into_rtranclp)
qed (simp add: register_data_simps)


lemma example_data_ok: "data_ok plain_crates cid two_series" "data_ok plain_crates cid later_series"
proof -
  have "sm_inv later_series" by (simp add: sm_inv_def)
  then show "data_ok plain_crates cid two_series" "data_ok plain_crates cid later_series"
    using two_series_inv example_fits example_keys_ok by (simp_all add: data_ok_def)
qed

lemma hidden_reachable: "\<exists>keys. (ci_step plain_crates)\<^sup>*\<^sup>* ({}, ci_new) (keys, hidden_index)"
proof -
  have keys: "\<forall>k \<in> fst ` set two_series. key_type_ok k" using example_keys_ok by simp
  show ?thesis
    using rtranclp_trans [OF ci_steps_register_data [OF keys] ci_steps_register_data [OF keys]] by blast
qed

lemma hidden_entries:
  assumes "ci_entry hidden_index 10 t = Some e"
  shows "sce_chunk_id e = 8"
proof (cases "t = I64 1")
  case True
  with assms show ?thesis
    using fun_cong [OF entry_register_data [of two_series plain_crates 8 "example_meta 8"
        "register_data plain_crates 7 (example_meta 7) two_series ci_new"], of "(10, I64 1)"]
    by (simp add: example_ids map_add_def) (metis written_fields(2))
next
  case False
  then have "ci_entry hidden_index 10 t = None"
    using fun_cong [OF entry_register_data [of two_series plain_crates 8 "example_meta 8"
        "register_data plain_crates 7 (example_meta 7) two_series ci_new"], of "(10, t)"]
      fun_cong [OF entry_register_data [of two_series plain_crates 7 "example_meta 7" ci_new], of "(10, t)"]
    by (simp add: example_ids map_add_def ci_entry_def ci_new_def)
  with assms show ?thesis by simp
qed

lemma hidden_candidates:
  "map mg_chunks (find_candidates example_worker hidden_index) =
     [[(7, chunk_path [''chunks''] 7), (8, chunk_path [''chunks''] 8)]]"
proof -
  have "ci_chunk_files hidden_index = [(7, example_meta 7), (8, example_meta 8)]"
    by (simp add: register_data_simps ci_register_def Let_def ci_new_def written_fields)
  then have files: "sized_files hidden_index =
      [(7, chunk_path [''chunks''] 7, 100), (8, chunk_path [''chunks''] 8, 100)]"
    by (simp add: sized_files_def)
  have "f64_le (F64 0x3FF0000000000000) (F64 0x3FF8000000000000)" by (simp add: f64_le_def f64_is_nan_def f64_key_def)
  then show ?thesis unfolding mg_chunks_candidates files by (simp add: f64_div_pos_self)
qed

theorem compaction_stuck_on_hidden_chunk_witness:
  "\<exists>ix' files'. 7 \<in> fst ` set (ci_chunk_files ix') \<and> files' (chunk_path [''chunks''] 7) = None \<and>
     (\<exists>grp res. merge_group_step plain_crates example_worker
        \<lparr>me_now = 9, me_write = CreateOk, me_removed = (\<lambda>p. True)\<rparr> grp hidden_index
        [chunk_path [''chunks''] 7 \<mapsto> file_of plain_crates 7 two_series,
         chunk_path [''chunks''] 8 \<mapsto> file_of plain_crates 8 two_series] = (ix', files', Inr res))"
proof -
  let ?env = "\<lparr>me_now = 9, me_write = CreateOk, me_removed = (\<lambda>p. True)\<rparr>"
  let ?chunks = "[(7, chunk_path [''chunks''] 7), (8, chunk_path [''chunks''] 8)]"
  let ?files = "[chunk_path [''chunks''] 7 \<mapsto> file_of plain_crates 7 two_series,
      chunk_path [''chunks''] 8 \<mapsto> file_of plain_crates 8 two_series]"
  obtain grp where grp: "find_candidates example_worker hidden_index = [grp]" "mg_chunks grp = ?chunks"
    using hidden_candidates by (cases "find_candidates example_worker hidden_index") auto
  have "merge_read plain_crates ?files ?chunks [] = Inr (merge_data [two_series, two_series])"
    using merge_read_files [OF plain_crates_lossless, of ?chunks "\<lambda>_. two_series" ?files "[]"] example_data_ok
    by (simp add: merge_data_def)
  moreover have "merge_data [two_series, two_series] \<noteq> []"
    using merge_data_not_Nil [of "[two_series, two_series]" two_series] two_series_inv by simp
  then obtain files' res where
    "cw_write plain_crates [''chunks''] 9 CreateOk (merge_data [two_series, two_series]) ?files = (files', Inr res)"
    using cw_write_succeeds [of "merge_data [two_series, two_series]" ?files "[''chunks'']" 9 plain_crates]
    by (auto simp: new_chunk_id_def)
  ultimately obtain ix' files'' where
    step: "merge_group_step plain_crates example_worker ?env grp hidden_index ?files = (ix', files'', Inr res)"
    using grp by (simp add: merge_group_step_def)
  have stats: "map_of (ci_chunk_stats hidden_index) (7, 10) \<noteq> None"
    unfolding stats_register_data_dom by (simp add: example_ids)
  have hidden: "\<forall>t e. ci_entry hidden_index 10 t = Some e \<longrightarrow> sce_chunk_id e \<noteq> 7"
  proof (intro allI impI)
    fix t e
    assume "ci_entry hidden_index 10 t = Some e"
    then have "sce_chunk_id e = 8" by (rule hidden_entries)
    then show "sce_chunk_id e \<noteq> 7" by simp
  qed
  have mem: "grp \<in> set (find_candidates example_worker hidden_index)" unfolding grp(1) by simp
  have chunk: "(7, chunk_path [''chunks''] 7) \<in> set (mg_chunks grp)" unfolding grp(2) by simp
  have "7 \<in> fst ` set (ci_chunk_files ix') \<and> files'' (chunk_path [''chunks''] 7) = None"
    using hidden_reachable compaction_stuck_on_hidden_chunk [OF _ stats hidden mem chunk _ step] by auto
  with step show ?thesis by blast
qed

end
