(* ===== verification/Query.thy ===== *)
theory Query
  imports Compaction
begin

section \<open>The query path\<close>

text \<open>
  \<open>StorageServer::query\<close>: the scan of the memtables, the plan made under the read lock of the
  index, and the reads of the planned chunks after the lock is released. Each stage takes the
  state it sees as an argument, since flushes and compaction may run between the stages. The
  stream ends early when the client disconnects; \<open>accepted\<close> is the number of messages the
  channel takes.
\<close>

record query_request =
  qr_metric_name :: string
  qr_tag_filters :: "(string \<times> string) list"
  qr_time_start_ns :: "i64 option"
  qr_time_end_ns :: "i64 option"

record query_response =
  rs_series_id :: u64
  rs_timestamp_ns :: i64
  rs_value :: f64

definition query_start :: "query_request \<Rightarrow> i64" where
  "query_start req = (case qr_time_start_ns req of None \<Rightarrow> I64_MIN | Some t \<Rightarrow> t)"

definition query_end :: "query_request \<Rightarrow> i64" where
  "query_end req = (case qr_time_end_ns req of None \<Rightarrow> I64_MAX | Some t \<Rightarrow> t)"

definition response :: "u64 \<Rightarrow> data_point \<Rightarrow> query_response" where
  "response sid point =
     \<lparr>rs_series_id = sid, rs_timestamp_ns = dp_timestamp_ns point, rs_value = dp_value point\<rparr>"

text \<open>Stage 1: the points of one memtable, and of all shards in order.\<close>

definition query_shard ::
    "('h, 'z) xxh64_crate_scheme \<Rightarrow> query_request \<Rightarrow> memtable \<Rightarrow> query_response list" where
  "query_shard h req mem =
     concat (map (\<lambda>key. map (response (series_id h key))
           (mt_read_series mem key (query_start req) (query_end req) None))
       (mt_resolve_series mem (qr_metric_name req) (qr_tag_filters req)))"

definition query_memtables ::
    "('h, 'z) xxh64_crate_scheme \<Rightarrow> query_request \<Rightarrow> memtable list \<Rightarrow> query_response list" where
  "query_memtables h req mems = concat (map (query_shard h req) mems)"

text \<open>Stage 2: the chunk entries to read, with the paths and keys they need.\<close>

record query_plan =
  qp_chunks :: "series_chunk_entry list"
  qp_paths :: "(u64 \<times> path) list"
  qp_keys :: "(u64 \<times> series_key) list"

definition plan_chunks :: "query_request \<Rightarrow> chunk_index \<Rightarrow> series_chunk_entry list" where
  "plan_chunks req ix =
     concat (map (\<lambda>sid. ci_prune_chunks ix sid (query_start req) (query_end req) None)
       (ci_resolve_series ix (qr_metric_name req) (qr_tag_filters req)))"

definition plan_paths :: "chunk_index \<Rightarrow> series_chunk_entry list \<Rightarrow> (u64 \<times> path) list" where
  "plan_paths ix chunks =
     fold (\<lambda>e paths. case map_of (ci_chunk_files ix) (sce_chunk_id e) of
         None \<Rightarrow> paths
       | Some meta \<Rightarrow> hm_insert (sce_chunk_id e) (cm_file_path meta) paths) chunks []"

definition plan_keys :: "chunk_index \<Rightarrow> series_chunk_entry list \<Rightarrow> (u64 \<times> series_key) list" where
  "plan_keys ix chunks =
     fold (\<lambda>e keys. case map_of (ci_series_registry ix) (sce_series_id e) of
         None \<Rightarrow> keys
       | Some key \<Rightarrow> hm_insert (sce_series_id e) key keys) chunks []"

definition query_index :: "query_request \<Rightarrow> chunk_index \<Rightarrow> query_plan" where
  "query_index req ix =
     (let chunks = plan_chunks req ix
      in \<lparr>qp_chunks = chunks, qp_paths = plan_paths ix chunks, qp_keys = plan_keys ix chunks\<rparr>)"

text \<open>Stage 3: one chunk; a missing path or key and a failed read give no points.\<close>

definition query_chunk ::
    "('h, 'b, 'z) chunk_crates_scheme \<Rightarrow> query_request \<Rightarrow> query_plan \<Rightarrow> fs \<Rightarrow> series_chunk_entry \<Rightarrow>
     query_response list" where
  "query_chunk c req plan files e =
     (case map_of (qp_paths plan) (sce_chunk_id e) of
        None \<Rightarrow> []
      | Some file_path \<Rightarrow>
          (case map_of (qp_keys plan) (sce_series_id e) of
             None \<Rightarrow> []
           | Some key \<Rightarrow>
               (case read_series c files file_path key (query_start req) (query_end req) of
                  Inr (Some points) \<Rightarrow> map (response (sce_series_id e)) points
                | Inr None \<Rightarrow> []
                | Inl _ \<Rightarrow> [])))"

definition query_chunks ::
    "('h, 'b, 'z) chunk_crates_scheme \<Rightarrow> query_request \<Rightarrow> query_plan \<Rightarrow> fs \<Rightarrow> query_response list" where
  "query_chunks c req plan files = concat (map (query_chunk c req plan files) (qp_chunks plan))"

text \<open>
  The whole task: the memtables, the index and the files as each stage finds them. No stage
  changes state, so that a disconnect only cuts the stream short.
\<close>

definition query ::
    "('h, 'b, 'z) chunk_crates_scheme \<Rightarrow> query_request \<Rightarrow> memtable list \<Rightarrow> chunk_index \<Rightarrow> fs \<Rightarrow> nat \<Rightarrow>
     query_response list" where
  "query c req mems ix files accepted =
     (let mem_response = query_memtables c req mems
      in if accepted < length mem_response then take accepted mem_response
         else mem_response @
           take (accepted - length mem_response) (query_chunks c req (query_index req ix) files))"


subsection \<open>What a query asks for\<close>

definition wants_series :: "query_request \<Rightarrow> series_key \<Rightarrow> bool" where
  "wants_series req k \<longleftrightarrow>
     sk_metric_name k = qr_metric_name req \<and> map_of (qr_tag_filters req) \<subseteq>\<^sub>m map_of (sk_tags k)"

definition wants :: "query_request \<Rightarrow> series_key \<Rightarrow> i64 \<Rightarrow> bool" where
  "wants req k t \<longleftrightarrow> wants_series req k \<and> query_start req \<le> t \<and> t \<le> query_end req"

text \<open>The answer to a query on a set of points.\<close>

definition answer ::
    "('h, 'z) xxh64_crate_scheme \<Rightarrow> query_request \<Rightarrow> (series_key \<times> i64 \<times> f64) set \<Rightarrow> query_response set" where
  "answer h req pts =
     {r. \<exists>k t v. (k, t, v) \<in> pts \<and> wants req k t \<and>
        r = \<lparr>rs_series_id = series_id h k, rs_timestamp_ns = t, rs_value = v\<rparr>}"

definition mt_points :: "memtable \<Rightarrow> (series_key \<times> i64 \<times> f64) set" where
  "mt_points m = {(k, t, v). mt_get m k t = Some v}"

lemma answer_Un: "answer h req (A \<union> B) = answer h req A \<union> answer h req B"
  unfolding answer_def by blast

lemma answer_UN: "answer h req (\<Union>i\<in>I. A i) = (\<Union>i\<in>I. answer h req (A i))"
  unfolding answer_def by blast

lemma response_point_of:
  "response sid (point_of k (t, v)) = \<lparr>rs_series_id = sid, rs_timestamp_ns = t, rs_value = v\<rparr>"
  by (simp add: response_def point_of_def)


subsection \<open>Stage 1 is exact\<close>

lemma mt_points_entries: "(k, t, v) \<in> mt_points m \<Longrightarrow> k \<in> fst ` set (mt_entries m)"
  by (force simp: mt_points_def mt_get_def sm_get_def split: option.splits dest!: map_of_SomeD)

lemma query_shard_exact:
  assumes "mt_inv m" "hm_inv (qr_tag_filters req)"
  shows "set (query_shard h req m) = answer h req (mt_points m)"
proof (intro set_eqI iffI)
  fix r
  assume "r \<in> set (query_shard h req m)"
  then obtain k d where k: "k \<in> set (mt_resolve_series m (qr_metric_name req) (qr_tag_filters req))"
    and d: "d \<in> set (mt_read_series m k (query_start req) (query_end req) None)"
    and r: "r = response (series_id h k) d"
    unfolding query_shard_def by auto
  from k have "wants_series req k" by (simp add: mem_mt_resolve_series [OF assms(2)] wants_series_def)
  moreover from d have "mt_get m k (dp_timestamp_ns d) = Some (dp_value d)"
      "query_start req \<le> dp_timestamp_ns d" "dp_timestamp_ns d \<le> query_end req"
    by (simp_all add: mem_mt_read_series [OF assms(1)])
  ultimately show "r \<in> answer h req (mt_points m)"
    unfolding answer_def by (auto simp: mt_points_def wants_def r response_def)
next
  fix r
  assume "r \<in> answer h req (mt_points m)"
  then obtain k t v where p: "(k, t, v) \<in> mt_points m" "wants req k t"
      and r: "r = \<lparr>rs_series_id = series_id h k, rs_timestamp_ns = t, rs_value = v\<rparr>"
    unfolding answer_def by auto
  have "k \<in> set (mt_resolve_series m (qr_metric_name req) (qr_tag_filters req))"
    using p mt_points_entries by (auto simp: mem_mt_resolve_series [OF assms(2)] wants_def wants_series_def)
  moreover have "point_of k (t, v) \<in> set (mt_read_series m k (query_start req) (query_end req) None)"
    using p by (simp add: mem_mt_read_series [OF assms(1)] dp_key_point_of mt_points_def wants_def)
      (simp add: point_of_def)
  moreover have "r = response (series_id h k) (point_of k (t, v))" by (simp add: r response_point_of)
  ultimately have "\<exists>k. k \<in> set (mt_resolve_series m (qr_metric_name req) (qr_tag_filters req)) \<and>
      (\<exists>d. d \<in> set (mt_read_series m k (query_start req) (query_end req) None) \<and> r = response (series_id h k) d)"
    by blast
  then show "r \<in> set (query_shard h req m)" unfolding query_shard_def by auto
qed


lemma query_memtables_exact:
  assumes "\<forall>m \<in> set mems. mt_inv m" "hm_inv (qr_tag_filters req)"
  shows "set (query_memtables h req mems) = answer h req (\<Union>m \<in> set mems. mt_points m)"
  using assms by (auto simp: query_memtables_def answer_UN query_shard_exact)


subsection \<open>Stages 2 and 3 are exact on a consistent store\<close>

lemma map_of_collect_some:
  "map_of (fold (\<lambda>e m. case g (f e) of None \<Rightarrow> m | Some v \<Rightarrow> hm_insert (f e) (u v) m) es m0) x =
     (if x \<in> f ` set es \<and> g x \<noteq> None then map_option u (g x) else map_of m0 x)"
  by (induction es arbitrary: m0) (auto simp: map_of_hm_insert split: option.splits)

lemma map_of_plan_paths:
  "e \<in> set chunks \<Longrightarrow> map_of (plan_paths ix chunks) (sce_chunk_id e) =
     map_option cm_file_path (map_of (ci_chunk_files ix) (sce_chunk_id e))"
  by (simp add: plan_paths_def map_of_collect_some)

lemma map_of_plan_keys:
  "e \<in> set chunks \<Longrightarrow> map_of (plan_keys ix chunks) (sce_series_id e) =
     map_of (ci_series_registry ix) (sce_series_id e)"
  by (simp add: plan_keys_def map_of_collect_some [where u = "\<lambda>v. v"] option.map_ident)

lemma store_ok_entry:
  assumes ok: "store_ok c dir ix files db" and e: "ci_entry ix sid t = Some e"
  obtains k ps data where "db (sce_chunk_id e) = Some data" "(k, ps) \<in> set data"
    "sid = series_id c k" "sce_series_id e = sid" "t = fst (hd ps)" "sce_time_end_ns e = fst (last ps)"
    "map_of (ci_series_registry ix) sid = Some k" "data_ok c (sce_chunk_id e) data"
    "files (chunk_path dir (sce_chunk_id e)) = Some (file_of c (sce_chunk_id e) data)"
    "map_option cm_file_path (map_of (ci_chunk_files ix) (sce_chunk_id e)) = Some (chunk_path dir (sce_chunk_id e))"
proof -
  from ok have inv: "ci_inv c ix" and sf: "store_files c dir ix files db" and si: "store_index c ix db"
    by (simp_all add: store_ok_def)
  from si e obtain k ps where k: "has_series db (sce_chunk_id e) k ps" "sid = series_id c k"
      "t = fst (hd ps)" "sce_time_end_ns e = fst (last ps)"
    unfolding store_index_def by blast
  then obtain data where d: "db (sce_chunk_id e) = Some data" "(k, ps) \<in> set data"
    by (auto simp: has_series_def)
  from si k(1,2) have reg: "map_of (ci_series_registry ix) sid = Some k"
    unfolding store_index_def by blast
  from inv e have sid: "sce_series_id e = sid" by (auto simp: ci_inv_def ci_times_ok_def)
  from sf d(1) have data: "data_ok c (sce_chunk_id e) data"
      "files (chunk_path dir (sce_chunk_id e)) = Some (file_of c (sce_chunk_id e) data)"
    by (auto simp: store_files_def)
  from sf d(1) obtain meta where "map_of (ci_chunk_files ix) (sce_chunk_id e) = Some meta"
    by (fastforce simp: store_files_def)
  with sf have "map_option cm_file_path (map_of (ci_chunk_files ix) (sce_chunk_id e)) =
      Some (chunk_path dir (sce_chunk_id e))"
    by (simp add: store_files_def)
  with that d k(2-4) sid reg data show ?thesis by blast
qed

lemma data_ok_read_series:
  assumes "lz4_lossless c" "data_ok c cid data" "files p = Some (file_of c cid data)" "(k, ps) \<in> set data"
  shows "\<exists>r. read_series c files p k lo hi = Inr r \<and>
    (case r of None \<Rightarrow> [] | Some ds \<Rightarrow> ds) = map (point_of k) (filter (\<lambda>p. lo \<le> fst p \<and> fst p \<le> hi) ps)"
proof -
  from assms(2) have inv: "sm_inv data" and fits: "chunk_fits c cid data"
    and keys: "\<forall>k \<in> fst ` set data. key_type_ok k \<and> key_unambiguous k" by (simp_all add: data_ok_def)
  have bt: "bt_inv data" "\<forall>e \<in> set data. bt_inv (snd e)" using inv by (auto simp: sm_inv_def)
  have k: "k \<in> fst ` set data" using assms(4) by force
  have "inj_on to_bytes (fst ` set data)" using keys to_bytes_inject by (blast intro: inj_onI)
  then have inj: "inj_on to_bytes (insert k (fst ` set data))" using k by (simp add: insert_absorb)
  have "sm_vec data k = ps"
    using assms(4) bt_inv_distinct [OF bt(1)] by (simp add: sm_vec_def)
  with read_series_file_of [where files = files and p = p and key = k and lo = lo and hi = hi,
      OF assms(1) fits assms(3) bt inj]
  show ?thesis by simp
qed

lemma query_chunk_store:
  assumes lz: "lz4_lossless c" and ok: "store_ok c dir ix files db"
    and e: "ci_entry ix sid t = Some e" "e \<in> set (qp_chunks (query_index req ix))"
    and d: "db (sce_chunk_id e) = Some data" "(k, ps) \<in> set data" "series_id c k = sid"
  shows "query_chunk c req (query_index req ix) files e =
    map (response sid) (map (point_of k) (filter (\<lambda>p. query_start req \<le> fst p \<and> fst p \<le> query_end req) ps))"
proof -
  obtain k' ps' data' where w: "db (sce_chunk_id e) = Some data'" "sce_series_id e = sid"
      "map_of (ci_series_registry ix) sid = Some k'" "data_ok c (sce_chunk_id e) data'"
      "files (chunk_path dir (sce_chunk_id e)) = Some (file_of c (sce_chunk_id e) data')"
      "map_option cm_file_path (map_of (ci_chunk_files ix) (sce_chunk_id e)) = Some (chunk_path dir (sce_chunk_id e))"
    by (rule store_ok_entry [OF ok e(1)]) (rule that)
  have "has_series db (sce_chunk_id e) k ps" using d by (auto simp: has_series_def)
  then have k: "map_of (ci_series_registry ix) sid = Some k"
    using ok d(3) unfolding store_ok_def store_index_def by blast
  from d(1) w(1) have "data' = data" by simp
  with w(4,5) have "data_ok c (sce_chunk_id e) data"
      "files (chunk_path dir (sce_chunk_id e)) = Some (file_of c (sce_chunk_id e) data)" by simp_all
  from data_ok_read_series [where files = files and p = "chunk_path dir (sce_chunk_id e)" and k = k
      and lo = "query_start req" and hi = "query_end req", OF lz this d(2)]
  obtain r where
    "read_series c files (chunk_path dir (sce_chunk_id e)) k (query_start req) (query_end req) = Inr r"
    "(case r of None \<Rightarrow> [] | Some ds \<Rightarrow> ds) =
       map (point_of k) (filter (\<lambda>p. query_start req \<le> fst p \<and> fst p \<le> query_end req) ps)"
    by blast
  moreover have mem: "e \<in> set (plan_chunks req ix)" using e(2) by (simp add: query_index_def Let_def)
  moreover have "map_of (plan_keys ix (plan_chunks req ix)) sid = Some k"
    using map_of_plan_keys [OF mem, of ix] w(2) k by simp
  ultimately show ?thesis
    by (cases r) (simp_all add: query_chunk_def query_index_def Let_def map_of_plan_paths w)
qed

lemma mem_plan_chunks:
  assumes "ci_inv c ix" "hm_inv (qr_tag_filters req)"
  shows "e \<in> set (qp_chunks (query_index req ix)) \<longleftrightarrow>
    (\<exists>sid sk t. map_of (ci_series_registry ix) sid = Some sk \<and> wants_series req sk \<and>
       ci_entry ix sid t = Some e \<and> t \<le> query_end req \<and> query_start req \<le> sce_time_end_ns e)"
proof -
  have "ci_maps_ok ix" using assms(1) by (simp add: ci_inv_def)
  then show ?thesis
    unfolding query_index_def Let_def plan_chunks_def wants_series_def
    by (simp add: mem_ci_prune_chunks stats_allow_def Bex_def mem_ci_resolve_series [OF assms]) blast
qed


lemma query_chunks_sound:
  assumes lz: "lz4_lossless c" and ok: "store_ok c dir ix files db" and tags: "hm_inv (qr_tag_filters req)"
    and r: "r \<in> set (query_chunks c req (query_index req ix) files)"
  shows "r \<in> answer c req (db_points db)"
proof -
  have inv: "ci_inv c ix" using ok by (simp add: store_ok_def)
  from r obtain e where e: "e \<in> set (qp_chunks (query_index req ix))"
      "r \<in> set (query_chunk c req (query_index req ix) files e)"
    unfolding query_chunks_def by auto
  from e(1) obtain sid sk t where p: "map_of (ci_series_registry ix) sid = Some sk" "wants_series req sk"
      "ci_entry ix sid t = Some e"
    unfolding mem_plan_chunks [OF inv tags] by blast
  obtain k ps data where w: "db (sce_chunk_id e) = Some data" "(k, ps) \<in> set data" "sid = series_id c k"
      "map_of (ci_series_registry ix) sid = Some k" "data_ok c (sce_chunk_id e) data"
    by (rule store_ok_entry [OF ok p(3)]) (rule that)
  from e(2) query_chunk_store [OF lz ok p(3) e(1) w(1,2) w(3) [symmetric]]
  obtain t v where pt: "(t, v) \<in> set ps" "query_start req \<le> t" "t \<le> query_end req"
      "r = response sid (point_of k (t, v))" by auto
  have "(k, t, v) \<in> db_points db"
    using sm_get_mem [OF data_okD(1) [OF w(5)]] w(1,2) pt(1) unfolding db_points_def by blast
  moreover have "wants req k t" using p(1,2) w(4) pt(2,3) by (simp add: wants_def)
  ultimately show ?thesis
    unfolding answer_def pt(4) w(3) response_point_of by blast
qed

lemma store_ok_has_entry:
  assumes ok: "store_ok c dir ix files db" and d: "db cid = Some data" "(k, ps) \<in> set data"
  obtains e where "ci_entry ix (series_id c k) (fst (hd ps)) = Some e" "sce_chunk_id e = cid"
    "sce_time_end_ns e = fst (last ps)" "map_of (ci_series_registry ix) (series_id c k) = Some k"
proof -
  have has: "has_series db cid k ps" using d by (auto simp: has_series_def)
  with ok obtain e where reg: "map_of (ci_series_registry ix) (series_id c k) = Some k"
      and e: "ci_entry ix (series_id c k) (fst (hd ps)) = Some e" "sce_chunk_id e = cid"
    unfolding store_ok_def store_index_def by blast
  obtain k' ps' data' where w: "db (sce_chunk_id e) = Some data'" "(k', ps') \<in> set data'"
      "sce_time_end_ns e = fst (last ps')" "map_of (ci_series_registry ix) (series_id c k) = Some k'"
      "data_ok c (sce_chunk_id e) data'"
    by (rule store_ok_entry [OF ok e(1)]) (rule that)
  have "data' = data" "k' = k" using w(1,4) d(1) e(2) reg by simp_all
  with w(2) d(2) data_okD(2) [OF w(5)] have "ps' = ps" by (metis eq_key_imp_eq_value)
  with that e w(3) reg show ?thesis by blast
qed

lemma planned_entry:
  assumes ok: "store_ok c dir ix files db" and tags: "hm_inv (qr_tag_filters req)"
    and d: "db cid = Some data" and ps: "(k, ps) \<in> set data" "(t, v) \<in> set ps" and w: "wants req k t"
  obtains e where "ci_entry ix (series_id c k) (fst (hd ps)) = Some e" "sce_chunk_id e = cid"
    "e \<in> set (qp_chunks (query_index req ix))" "sce_series_id e = series_id c k"
proof -
  have inv: "ci_inv c ix" using ok by (simp add: store_ok_def)
  have data: "data_ok c cid data" using ok d by (auto simp: store_ok_def store_files_def)
  obtain e where e: "ci_entry ix (series_id c k) (fst (hd ps)) = Some e" "sce_chunk_id e = cid"
      "sce_time_end_ns e = fst (last ps)" "map_of (ci_series_registry ix) (series_id c k) = Some k"
    by (rule store_ok_has_entry [OF ok d ps(1)]) (rule that)
  have "bt_inv ps" using data ps(1) by (auto simp: data_ok_def sm_inv_def)
  then have "fst (hd ps) \<le> t \<and> t \<le> fst (last ps)"
    using bt_inv_bounds [OF _ ps(2)] ps(2) by (cases "ps = []") (auto simp: hd_conv_nth last_conv_nth)
  with w have range: "fst (hd ps) \<le> query_end req" "query_start req \<le> sce_time_end_ns e"
    by (auto simp: wants_def e(3))
  have "e \<in> set (qp_chunks (query_index req ix))"
    unfolding mem_plan_chunks [OF inv tags] using w e(1,4) range by (auto simp: wants_def)
  moreover have "sce_series_id e = series_id c k" using inv e(1) by (auto simp: ci_inv_def ci_times_ok_def)
  ultimately show ?thesis using that e(1,2) by blast
qed

lemma query_chunks_complete:
  assumes lz: "lz4_lossless c" and ok: "store_ok c dir ix files db" and tags: "hm_inv (qr_tag_filters req)"
    and r: "r \<in> answer c req (db_points db)"
  shows "r \<in> set (query_chunks c req (query_index req ix) files)"
proof -
  have inv: "ci_inv c ix" using ok by (simp add: store_ok_def)
  from r obtain k t v where p: "(k, t, v) \<in> db_points db" "wants req k t"
      "r = response (series_id c k) (point_of k (t, v))"
    unfolding answer_def response_point_of by blast
  then obtain cid data where d: "db cid = Some data" "sm_get data k t = Some v" by (auto simp: db_points_def)
  then have data: "data_ok c cid data" using ok by (auto simp: store_ok_def store_files_def)
  with d(2) obtain ps where ps: "(k, ps) \<in> set data" "(t, v) \<in> set ps"
    using sm_get_mem [OF data_okD(1)] by blast
  obtain e where e: "ci_entry ix (series_id c k) (fst (hd ps)) = Some e" "sce_chunk_id e = cid"
      and mem: "e \<in> set (qp_chunks (query_index req ix))"
    by (rule planned_entry [OF ok tags d(1) ps p(2)]) (rule that)
  have "r \<in> set (query_chunk c req (query_index req ix) files e)"
    using query_chunk_store [OF lz ok e(1) mem _ ps(1) refl] d(1) e(2) p(2,3) ps(2) by (auto simp: wants_def)
  with mem show ?thesis unfolding query_chunks_def by auto
qed

lemma query_all: "length (query_memtables c req mems) + length (query_chunks c req (query_index req ix) files) \<le> n \<Longrightarrow>
    query c req mems ix files n = query_memtables c req mems @ query_chunks c req (query_index req ix) files"
  by (simp add: query_def Let_def)

lemma query_prefix:
  "query c req mems ix files n =
     take n (query_memtables c req mems @ query_chunks c req (query_index req ix) files)"
  by (simp add: query_def Let_def)


lemma query_chunks_exact:
  assumes "lz4_lossless c" "store_ok c dir ix files db" "hm_inv (qr_tag_filters req)"
  shows "set (query_chunks c req (query_index req ix) files) = answer c req (db_points db)"
  using query_chunks_sound [OF assms] query_chunks_complete [OF assms] by blast

text \<open>A planned chunk whose file is gone gives no points and no error.\<close>

lemma query_chunk_missing:
  assumes ok: "store_ok c dir ix files db" and e: "ci_entry ix sid t = Some e" "e \<in> set (plan_chunks req ix)"
    and gone: "files' (chunk_path dir (sce_chunk_id e)) = None"
  shows "query_chunk c req (query_index req ix) files' e = []"
proof -
  obtain "map_option cm_file_path (map_of (ci_chunk_files ix) (sce_chunk_id e)) = Some (chunk_path dir (sce_chunk_id e))"
    by (rule store_ok_entry [OF ok e(1)]) (rule that)
  then have "map_of (plan_paths ix (plan_chunks req ix)) (sce_chunk_id e) = Some (chunk_path dir (sce_chunk_id e))"
    by (simp add: map_of_plan_paths [OF e(2)])
  then show ?thesis
    using gone by (simp add: query_chunk_def query_index_def Let_def read_series_def read_file_def split: option.splits)
qed

lemma merge_step_store:
  assumes "lz4_lossless c" "store_ok c (wk_chunk_dir w) ix files db" "grp \<in> set (find_candidates w ix)"
    "\<forall>cid. chunk_fits c cid (group_data db grp)"
    "merge_group_step c w env grp ix files = (ix', files', Inr res)"
  shows "\<exists>db'. store_ok c (wk_chunk_dir w) ix' files' db' \<and> same_points db db'"
proof -
  note grp = candidates_ok [OF assms(2,3)]
  note rep = merge_step_ok [OF assms(1,2) grp refl assms(4,5)]
  have "db (new_chunk_id (me_now env)) = None" using rep(1) by (simp add: replacement_def)
  with store_ok_replaced [OF rep(1) assms(2)] same_points_merge [OF assms(2) grp] rep(2) show ?thesis by blast
qed


subsection \<open>Properties\<close>

text \<open>
  C4.  When memtables, index and files do not change during a query and the store is consistent
  (each chunk file is listed and holds its series, and the index has an entry for every series
  of every chunk: no chunk is hidden by a later one with the same start, and no two series share
  an identifier), the stream is exact: it carries every point of the memtables and of the chunks
  that belongs to a series with the metric name and all tags of the filter and lies in the
  closed time range, under the identifier of its series, and nothing else; absent bounds mean
  all times. The metric name is compared literally, the empty one included, although the
  protocol says that the empty name returns no results. A client that disconnects has received
  the beginning of that stream.
\<close>

theorem query_exact:
  assumes "lz4_lossless c" "store_ok c dir ix files db" "\<forall>m \<in> set mems. mt_inv m"
    "hm_inv (qr_tag_filters req)"
  shows "\<exists>responses. (\<forall>accepted. query c req mems ix files accepted = take accepted responses) \<and>
    set responses = answer c req ((\<Union>m \<in> set mems. mt_points m) \<union> db_points db)"
  using query_memtables_exact [OF assms(3,4), of c] query_chunks_exact [OF assms(1,2,4)]
  by (intro exI [of _ "query_memtables c req mems @ query_chunks c req (query_index req ix) files"])
    (simp add: query_prefix answer_Un)

abbreviation cpu_request :: query_request where
  "cpu_request \<equiv> \<lparr>qr_metric_name = ''cpu'', qr_tag_filters = [(''host'', ''a'')],
     qr_time_start_ns = Some (I64 5), qr_time_end_ns = None\<rparr>"

lemma cpu_request_wants: "wants cpu_request cpu_key (I64 5)" "wants cpu_request cpu_key (I64 9)"
  by (simp_all add: wants_def wants_series_def query_start_def query_end_def I64_MAX_def less_eq_i64_def
      i64_int_def)

theorem query_exact_witness:
  "\<exists>accepted. \<lparr>rs_series_id = 10, rs_timestamp_ns = I64 9, rs_value = F64 40\<rparr> \<in>
     set (query plain_crates cpu_request [mt_new 100] example_index example_chunks accepted)"
proof -
  let ?r = "\<lparr>rs_series_id = 10, rs_timestamp_ns = I64 9, rs_value = F64 40\<rparr>"
  have "(cpu_key, I64 9, F64 40) \<in> db_points [7 \<mapsto> two_series, 8 \<mapsto> later_series]"
    by (rule db_pointsI [of _ 8 later_series]) (simp_all add: sm_get_def)
  then have "?r \<in> answer plain_crates cpu_request (db_points [7 \<mapsto> two_series, 8 \<mapsto> later_series])"
    unfolding answer_def using cpu_request_wants(2) example_ids(1) by force
  moreover obtain responses where
    "\<forall>accepted. query plain_crates cpu_request [mt_new 100] example_index example_chunks accepted = take accepted responses"
    "set responses = answer plain_crates cpu_request
       ((\<Union>m \<in> set [mt_new 100]. mt_points m) \<union> db_points [7 \<mapsto> two_series, 8 \<mapsto> later_series])"
    using query_exact [OF plain_crates_lossless example_store, of "[mt_new 100]" cpu_request]
    by (auto simp: mt_inv_new hm_inv_def)
  ultimately show ?thesis
    by (intro exI [of _ "length responses"]) (simp add: answer_Un)
qed

text \<open>
  C12.  A merge between the plan of a query and its reads hides points: a point that the index
  knew when the query was planned, and that is still in the store afterwards, is missing from
  the stream when the merge deleted the file of its chunk. The read fails, no error is sent,
  and the stream ends normally.
\<close>

theorem query_misses_merged_chunk:
  assumes "lz4_lossless c" "store_ok c (wk_chunk_dir w) ix files db" "hm_inv (qr_tag_filters req)"
    "grp \<in> set (find_candidates w ix)" "\<forall>cid. chunk_fits c cid (group_data db grp)"
    "merge_group_step c w env grp ix files = (ix', files', Inr res)"
    "(cid, p) \<in> set (mg_chunks grp)" "me_removed env p"
    "db cid = Some data" "sm_get data k t = Some v" "wants req k t"
  shows "(\<exists>e \<in> set (qp_chunks (query_index req ix)). sce_chunk_id e = cid \<and> sce_series_id e = series_id c k \<and>
      \<lparr>rs_series_id = series_id c k, rs_timestamp_ns = t, rs_value = v\<rparr> \<in> set (query_chunk c req (query_index req ix) files e) \<and>
      query_chunk c req (query_index req ix) files' e = []) \<and>
    (\<exists>v'. \<lparr>rs_series_id = series_id c k, rs_timestamp_ns = t, rs_value = v'\<rparr> \<in>
      set (query_chunks c req (query_index req ix') files'))"
proof
  have inv: "ci_inv c ix" using assms(2) by (simp add: store_ok_def)
  have data: "data_ok c cid data" using store_data_ok [OF assms(2,9)] .
  with assms(10) obtain ps where ps: "(k, ps) \<in> set data" "(t, v) \<in> set ps"
    using sm_get_mem [OF data_okD(1)] by blast
  obtain e where e: "ci_entry ix (series_id c k) (fst (hd ps)) = Some e" "sce_chunk_id e = cid"
      "e \<in> set (qp_chunks (query_index req ix))" "sce_series_id e = series_id c k"
    by (rule planned_entry [OF assms(2,3,9) ps assms(11)]) (rule that)
  have p: "p = chunk_path (wk_chunk_dir w) cid"
    using candidates_ok [OF assms(2,4)] assms(7) unfolding group_ok_def by blast
  have "files' = remove_files (me_removed env) (map snd (mg_chunks grp)) (fst (cw_write c (wk_chunk_dir w) (me_now env) (me_write env)
      (projr (merge_read c files (mg_chunks grp) [])) files))"
    using assms(6) by (auto simp: merge_group_step_def split: sum.splits prod.splits)
  then have gone: "files' (chunk_path (wk_chunk_dir w) (sce_chunk_id e)) = None"
    using remove_files_gone [of p "map snd (mg_chunks grp)" "me_removed env"] assms(7,8) p e(2) by force
  have "e \<in> set (plan_chunks req ix)" using e(3) by (simp add: query_index_def Let_def)
  from query_chunk_missing [where files' = files', OF assms(2) e(1) this gone]
  have "query_chunk c req (query_index req ix) files' e = []" .
  moreover have "\<lparr>rs_series_id = series_id c k, rs_timestamp_ns = t, rs_value = v\<rparr> \<in>
      set (query_chunk c req (query_index req ix) files e)"
    using query_chunk_store [OF assms(1,2) e(1,3) _ ps(1) refl] assms(9,11) ps(2) e(2)
    by (auto simp: wants_def response_def point_of_def image_iff intro!: bexI [of _ "(t, v)"])
  ultimately show "\<exists>e \<in> set (qp_chunks (query_index req ix)). sce_chunk_id e = cid \<and> sce_series_id e = series_id c k \<and>
      \<lparr>rs_series_id = series_id c k, rs_timestamp_ns = t, rs_value = v\<rparr> \<in> set (query_chunk c req (query_index req ix) files e) \<and>
      query_chunk c req (query_index req ix) files' e = []" using e(2-4) by blast
  obtain db' where db': "store_ok c (wk_chunk_dir w) ix' files' db'" "same_points db db'"
    using merge_step_store [OF assms(1,2,4-6)] by blast
  with assms(9,10) obtain v' where "(k, t, v') \<in> db_points db'"
    unfolding same_points_def using db_pointsI by blast
  then have "\<lparr>rs_series_id = series_id c k, rs_timestamp_ns = t, rs_value = v'\<rparr> \<in> answer c req (db_points db')"
    unfolding answer_def using assms(11) by blast
  then show "\<exists>v'. \<lparr>rs_series_id = series_id c k, rs_timestamp_ns = t, rs_value = v'\<rparr> \<in>
      set (query_chunks c req (query_index req ix') files')"
    using query_chunks_exact [OF assms(1) db'(1) assms(3)] by blast
qed


theorem query_misses_merged_chunk_witness:
  "\<exists>ix' files' e. e \<in> set (qp_chunks (query_index cpu_request example_index)) \<and>
     query_chunk plain_crates cpu_request (query_index cpu_request example_index) files' e = [] \<and>
     (\<exists>v. \<lparr>rs_series_id = 10, rs_timestamp_ns = I64 9, rs_value = v\<rparr> \<in>
       set (query_chunks plain_crates cpu_request (query_index cpu_request ix') files'))"
proof -
  let ?db = "[7 \<mapsto> two_series, 8 \<mapsto> later_series] :: chunk_db"
  obtain grp ix' files' res where grp: "find_candidates example_worker example_index = [grp]"
      "mg_chunks grp = [(7, chunk_path [''chunks''] 7), (8, chunk_path [''chunks''] 8)]"
    and step: "merge_group_step plain_crates example_worker
       \<lparr>me_now = 9, me_write = CreateOk, me_removed = (\<lambda>p. True)\<rparr> grp example_index example_chunks =
       (ix', files', Inr res)" using example_step by blast
  have mem: "grp \<in> set (find_candidates example_worker example_index)" by (simp add: grp(1))
  have fits: "\<forall>cid. chunk_fits plain_crates cid (group_data ?db grp)" using example_group_fits mem by blast
  have ok: "store_ok plain_crates (wk_chunk_dir example_worker) example_index example_chunks ?db"
    using example_store by simp
  have "hm_inv (qr_tag_filters cpu_request)" by (simp add: hm_inv_def)
  from query_misses_merged_chunk [where cid = 8 and k = cpu_key and t = "I64 9" and v = "F64 40"
      and data = later_series, OF plain_crates_lossless ok this mem fits step]
  show ?thesis
    using cpu_request_wants(2) by (auto simp: grp(2) sm_get_def example_ids)
qed

end
