(* ===== verification/Config.thy ===== *)
theory Config
  imports Memtable Paths Float_Ratio
begin

section \<open>Configuration\<close>

text \<open>
  \<open>config.rs\<close>: the configuration read from environment variables and the directories created
  for it. The environment is a function from names to values; \<open>None\<close> is a variable that is
  unset or not valid UTF-8, which \<open>std::env::var\<close> both reports as an error. Numbers that do
  not parse fall back to the default. The sizes given in megabytes are multiplied at 64 bits
  and wrap, as in a build without overflow checks.
\<close>

type_synonym environment = "string \<Rightarrow> string option"

record storage_config =
  cf_wal_dir :: path
  cf_chunk_dir :: path
  cf_index_path :: path
  cf_wal_max_segment_bytes :: u64
  cf_wal_channel_capacity :: usize
  cf_wal_max_batch :: usize
  cf_wal_batch_delay_us :: u64
  cf_memtable_flush_threshold_bytes :: usize
  cf_num_shards :: usize
  cf_index_snapshot_interval_secs :: u64
  cf_compaction_interval_secs :: u64
  cf_compaction_min_threshold :: usize
  cf_compaction_size_ratio :: f64
  cf_grpc_addr :: string
  cf_metrics_addr :: string


subsection \<open>Reading variables\<close>

text \<open>
  The components of a path: the root, then the names between slashes. Empty names are dropped,
  and so is \<open>.\<close> except at the start of a relative path.
\<close>

definition path_of_string :: "string \<Rightarrow> path" where
  "path_of_string s =
     (let parts = filter (\<lambda>part. part \<noteq> []) (split_on (CHR ''/'') s)
      in if s \<noteq> [] \<and> hd s = CHR ''/'' then ''/'' # filter (\<lambda>part. part \<noteq> ''.'') parts
         else case parts of [] \<Rightarrow> [] | part # rest \<Rightarrow> part # filter (\<lambda>part. part \<noteq> ''.'') rest)"

definition env_string :: "environment \<Rightarrow> string \<Rightarrow> string \<Rightarrow> string" where
  "env_string env key dflt = (case env key of None \<Rightarrow> dflt | Some v \<Rightarrow> v)"

definition env_path :: "environment \<Rightarrow> string \<Rightarrow> string \<Rightarrow> path" where
  "env_path env key dflt = path_of_string (case env key of None \<Rightarrow> dflt | Some v \<Rightarrow> v)"

definition env_u64 :: "environment \<Rightarrow> string \<Rightarrow> u64 \<Rightarrow> u64" where
  "env_u64 env key dflt =
     (case Option.bind (env key) parse_u64 of None \<Rightarrow> dflt | Some n \<Rightarrow> n)"

definition env_usize :: "environment \<Rightarrow> string \<Rightarrow> usize \<Rightarrow> usize" where
  "env_usize env key dflt =
     (case Option.bind (env key) parse_u64 of None \<Rightarrow> dflt | Some n \<Rightarrow> n)"

definition env_f64 :: "environment \<Rightarrow> string \<Rightarrow> f64 \<Rightarrow> f64" where
  "env_f64 env key dflt =
     (case Option.bind (env key) parse_f64 of None \<Rightarrow> dflt | Some x \<Rightarrow> x)"

text \<open>\<open>usize::is_power_of_two\<close>: exactly one bit is set.\<close>

definition count_ones :: "usize \<Rightarrow> nat" where
  "count_ones n = length (filter (bit n) [0..<64])"

definition is_power_of_two :: "usize \<Rightarrow> bool" where
  "is_power_of_two n \<longleftrightarrow> count_ones n = 1"

definition load :: "environment \<Rightarrow> storage_config result" where
  "load env =
     (let num_shards = env_usize env ''MICIUS_NUM_SHARDS'' 16
      in rbind (ensure (1 \<le> num_shards \<and> is_power_of_two num_shards) (BadShardCount (unat num_shards)))
        (\<lambda>_. Inr \<lparr>
          cf_wal_dir = env_path env ''MICIUS_WAL_DIR'' ''/var/micius/data/wal'',
          cf_chunk_dir = env_path env ''MICIUS_CHUNK_DIR'' ''/var/micius/data/chunks'',
          cf_index_path = env_path env ''MICIUS_INDEX_PATH'' ''/var/micius/data/index.bin'',
          cf_wal_max_segment_bytes = env_u64 env ''MICIUS_WAL_MAX_SEGMENT_MB'' 64 * 1024 * 1024,
          cf_wal_channel_capacity = env_usize env ''MICIUS_WAL_CHANNEL_CAPACITY'' 1024,
          cf_wal_max_batch = env_usize env ''MICIUS_WAL_MAX_BATCH'' 256,
          cf_wal_batch_delay_us = env_u64 env ''MICIUS_WAL_BATCH_DELAY_US'' 0,
          cf_memtable_flush_threshold_bytes = env_usize env ''MICIUS_MEMTABLE_FLUSH_MB'' 32 * 1024 * 1024,
          cf_num_shards = num_shards,
          cf_index_snapshot_interval_secs = env_u64 env ''MICIUS_INDEX_SNAPSHOT_INTERVAL_SECS'' 60,
          cf_compaction_interval_secs = env_u64 env ''MICIUS_COMPACTION_INTERVAL_SECS'' 300,
          cf_compaction_min_threshold = env_usize env ''MICIUS_COMPACTION_MIN_THRESHOLD'' 4,
          cf_compaction_size_ratio = env_f64 env ''MICIUS_COMPACTION_SIZE_RATIO'' (F64 0x3FF8000000000000),
          cf_grpc_addr = env_string env ''MICIUS_GRPC_ADDR'' ''0.0.0.0:50051'',
          cf_metrics_addr = env_string env ''MICIUS_METRICS_ADDR'' ''0.0.0.0:9091''\<rparr>))"


subsection \<open>Directories\<close>

text \<open>
  \<open>create_dir_all\<close> makes every missing ancestor and the directory itself. The environment may
  fail it after some number of ancestors; the empty path needs none and always succeeds.
\<close>

type_synonym dirs_env = "path \<Rightarrow> nat option"

definition ancestors :: "path \<Rightarrow> path list" where
  "ancestors p = map (\<lambda>n. take (Suc n) p) [0..<length p]"

definition create_dir_all :: "dirs_env \<Rightarrow> path \<Rightarrow> path set \<Rightarrow> path set \<times> unit result" where
  "create_dir_all env p dirs =
     (case env p of
        Some k \<Rightarrow> if p = [] then (dirs, Inr ()) else (dirs \<union> set (take k (ancestors p)), Inl IoError)
      | None \<Rightarrow> (dirs \<union> set (ancestors p), Inr ()))"

fun create_dirs :: "dirs_env \<Rightarrow> path list \<Rightarrow> path set \<Rightarrow> path set \<times> unit result" where
  "create_dirs env [] dirs = (dirs, Inr ())"
| "create_dirs env (p # ps) dirs =
     (case create_dir_all env p dirs of
        (dirs', Inl e) \<Rightarrow> (dirs', Inl e)
      | (dirs', Inr _) \<Rightarrow> create_dirs env ps dirs')"

text \<open>\<open>{:02}\<close> of a number: at least two digits.\<close>

fun decimal :: "nat \<Rightarrow> string" where
  "decimal n = (if n < 10 then [digit_char n] else decimal (n div 10) @ [digit_char (n mod 10)])"

declare decimal.simps [simp del]

definition pad2 :: "nat \<Rightarrow> string" where
  "pad2 n = replicate (2 - length (decimal n)) (CHR ''0'') @ decimal n"

definition shard_dir :: "path \<Rightarrow> nat \<Rightarrow> path" where
  "shard_dir wal_dir i = join wal_dir (''shard-'' @ pad2 i)"

text \<open>\<open>Path::parent\<close>: none for the empty path and for the root.\<close>

definition path_parent :: "path \<Rightarrow> path option" where
  "path_parent p = (if p = [] \<or> p = [''/''] then None else Some (butlast p))"

definition ensure_dirs :: "dirs_env \<Rightarrow> storage_config \<Rightarrow> path set \<Rightarrow> path set \<times> unit result" where
  "ensure_dirs env cf dirs =
     create_dirs env
       ([cf_wal_dir cf] @
        map (shard_dir (cf_wal_dir cf)) [0..<unat (cf_num_shards cf)] @
        [cf_chunk_dir cf] @
        (case path_parent (cf_index_path cf) of None \<Rightarrow> [] | Some parent \<Rightarrow> [parent])) dirs"


subsection \<open>Lemmas\<close>

lemma count_ones_card: "count_ones n = card {i. i < 64 \<and> bit n i}"
proof -
  have "{i. i < 64 \<and> bit n i} = set (filter (bit n) [0..<64])" by auto
  moreover have "card (set (filter (bit n) [0..<64])) = length (filter (bit n) [0..<64])"
    by (rule distinct_card) simp
  ultimately show ?thesis by (simp only: count_ones_def)
qed

lemma is_power_of_two_iff: "is_power_of_two n \<longleftrightarrow> (\<exists>k<64. n = 2 ^ k)"
proof
  assume "is_power_of_two n"
  then have "card {i. i < 64 \<and> bit n i} = 1"
    by (simp add: is_power_of_two_def count_ones_card)
  then obtain k where k: "{i. i < 64 \<and> bit n i} = {k}" by (rule card_1_singletonE)
  then have "k < 64" by blast
  have "bit n i \<longleftrightarrow> bit (2 ^ k :: u64) i" if "i < 64" for i
    using k that by (auto simp: bit_simps set_eq_iff)
  then have "n = 2 ^ k" by (intro bit_word_eqI) simp
  with \<open>k < 64\<close> show "\<exists>k<64. n = 2 ^ k" by blast
next
  assume "\<exists>k<64. n = 2 ^ k"
  then obtain k where k: "k < 64" "n = 2 ^ k" by blast
  then have "{i. i < 64 \<and> bit n i} = {k}" by (auto simp: bit_simps)
  then show "is_power_of_two n" by (simp add: is_power_of_two_def count_ones_card)
qed

lemma is_power_of_two_ge_1: "is_power_of_two n \<Longrightarrow> 1 \<le> n"
  by (auto simp: is_power_of_two_iff word_le_nat_alt unat_pow2_u64)

lemma load_Inr_shards:
  assumes "load env = Inr cf"
  shows "cf_num_shards cf = env_usize env ''MICIUS_NUM_SHARDS'' 16" "is_power_of_two (cf_num_shards cf)"
  using assms by (auto simp: load_def Let_def rbind_eq_Inr ensure_eq_Inr)

lemma digits_value_decimal:
  "digits_value acc (decimal n @ s) = digits_value (acc * 10 ^ length (decimal n) + n) s"
proof (induction n arbitrary: acc s rule: decimal.induct)
  case (1 n)
  have d: "digit_value (digit_char m) = Some m" if "m < 10" for m
    using digit_value_digit_char that by simp
  show ?case
  proof (cases "n < 10")
    case True
    then show ?thesis by (simp add: decimal.simps [of n] d)
  next
    case False
    have "digits_value acc (decimal n @ s) =
        digits_value acc (decimal (n div 10) @ digit_char (n mod 10) # s)"
      using False by (simp add: decimal.simps [of n])
    also have "\<dots> = digits_value ((acc * 10 ^ length (decimal (n div 10)) + n div 10) * 10 + n mod 10) s"
      using 1 [OF False] by (simp add: d)
    finally show ?thesis
      using False by (simp add: decimal.simps [of n] algebra_simps)
  qed
qed

lemma digits_value_pad2: "digits_value 0 (pad2 n) = Some n"
proof -
  have z: "digits_value 0 (replicate k (CHR ''0'') @ s) = digits_value 0 s" for k s
    by (induction k) (simp_all add: digit_value_def)
  show ?thesis
    using digits_value_decimal [of 0 n "[]"] by (simp add: pad2_def z)
qed

lemma shard_dir_inject [simp]: "shard_dir d i = shard_dir d j \<longleftrightarrow> i = j"
proof
  assume "shard_dir d i = shard_dir d j"
  then have "pad2 i = pad2 j" by (simp add: shard_dir_def)
  then have "digits_value 0 (pad2 i) = digits_value 0 (pad2 j)" by (rule arg_cong)
  then show "i = j" by (simp add: digits_value_pad2)
qed simp

text \<open>The directories a configuration needs.\<close>

definition wanted_dirs :: "storage_config \<Rightarrow> path set" where
  "wanted_dirs cf = {cf_wal_dir cf, cf_chunk_dir cf} \<union>
     shard_dir (cf_wal_dir cf) ` {..<unat (cf_num_shards cf)} \<union>
     {parent. path_parent (cf_index_path cf) = Some parent}"

lemma ancestors_self: "p \<noteq> [] \<Longrightarrow> p \<in> set (ancestors p)"
  by (auto simp: ancestors_def image_iff intro!: bexI [of _ "length p - 1"])

lemma create_dir_all_grows: "create_dir_all env p dirs = (dirs', r) \<Longrightarrow> dirs \<subseteq> dirs'"
  by (auto simp: create_dir_all_def split: option.splits if_splits)

lemma create_dir_all_Inr:
  "create_dir_all env p dirs = (dirs', Inr u) \<Longrightarrow> set (ancestors p) \<subseteq> dirs'"
  by (auto simp: create_dir_all_def ancestors_def split: option.splits if_splits)

lemma create_dir_all_Inl:
  "create_dir_all env p dirs = (dirs', Inl e) \<Longrightarrow> e = IoError \<and> env p \<noteq> None \<and> dirs' \<subseteq> dirs \<union> set (ancestors p)"
  by (auto simp: create_dir_all_def split: option.splits if_splits dest: in_set_takeD)

lemma create_dirs_grows: "create_dirs env ps dirs = (dirs', r) \<Longrightarrow> dirs \<subseteq> dirs'"
proof (induction ps arbitrary: dirs)
  case (Cons p ps)
  then show ?case
    using create_dir_all_grows [of env p dirs]
    by (fastforce split: prod.splits sum.splits)
qed simp

lemma create_dirs_Inr:
  "create_dirs env ps dirs = (dirs', Inr u) \<Longrightarrow> p \<in> set ps \<Longrightarrow> set (ancestors p) \<subseteq> dirs'"
proof (induction ps arbitrary: dirs)
  case (Cons q ps)
  obtain d r where d: "create_dir_all env q dirs = (d, r)" by fastforce
  with Cons.prems(1) obtain v where r: "r = Inr v" and rest: "create_dirs env ps d = (dirs', Inr u)"
    by (cases r) auto
  show ?case
  proof (cases "p = q")
    case True
    have "set (ancestors q) \<subseteq> d" using d r create_dir_all_Inr by simp
    with True create_dirs_grows [OF rest] show ?thesis by blast
  next
    case False
    with Cons.prems(2) have "p \<in> set ps" by simp
    with Cons.IH [OF rest] show ?thesis by blast
  qed
qed simp

lemma create_dirs_Inl:
  "create_dirs env ps dirs = (dirs', Inl e) \<Longrightarrow>
   e = IoError \<and> (\<exists>p\<in>set ps. env p \<noteq> None) \<and> dirs' \<subseteq> dirs \<union> (\<Union>p\<in>set ps. set (ancestors p))"
proof (induction ps arbitrary: dirs)
  case (Cons q ps)
  obtain d r where d: "create_dir_all env q dirs = (d, r)" by fastforce
  show ?case
  proof (cases r)
    case (Inl e')
    with Cons.prems d have "dirs' = d" "e = e'" by auto
    moreover have "e' = IoError \<and> env q \<noteq> None \<and> d \<subseteq> dirs \<union> set (ancestors q)"
      using create_dir_all_Inl d Inl by simp
    ultimately show ?thesis by auto
  next
    case (Inr v)
    with Cons.prems d have rest: "create_dirs env ps d = (dirs', Inl e)" by simp
    have "d \<subseteq> dirs \<union> set (ancestors q)"
      using d Inr by (auto simp: create_dir_all_def split: option.splits if_splits)
    with Cons.IH [OF rest] show ?thesis by auto
  qed
qed simp


subsection \<open>Properties\<close>

text \<open>
  C35.  The configuration loads exactly when the shard count is a power of two, whatever the
  other variables hold; otherwise the error names the count. With a loaded configuration the
  bit mask of \<open>shard_index\<close> is the hash modulo the number of shards, so that every point has a
  shard.
\<close>

theorem config_shards_sound:
  fixes env :: environment
  assumes "xxh64_streaming h"
  defines "n \<equiv> env_usize env ''MICIUS_NUM_SHARDS'' 16"
  shows "case load env of
           Inl e \<Rightarrow> e = BadShardCount (unat n) \<and> \<not> (\<exists>k<64. n = 2 ^ k)
         | Inr cf \<Rightarrow> cf_num_shards cf = n \<and> (\<exists>k<64. n = 2 ^ k) \<and>
             (\<forall>p. unat (shard_index h p n) = unat (series_id h (dp_key p)) mod unat n \<and>
                  unat (shard_index h p n) < unat n)"
proof (cases "load env")
  case (Inl e)
  have "\<not> is_power_of_two n \<and> e = BadShardCount (unat n)"
    using Inl is_power_of_two_ge_1 [of n]
    by (auto simp: load_def Let_def rbind_eq_Inl ensure_def n_def split: if_splits)
  with Inl show ?thesis by (simp add: is_power_of_two_iff)
next
  case (Inr cf)
  with load_Inr_shards [OF Inr] have n: "cf_num_shards cf = n" "is_power_of_two n" by (simp_all add: n_def)
  then obtain k where k: "k < 64" "n = 2 ^ k" by (auto simp: is_power_of_two_iff)
  then have "unat (shard_index h p n) = unat (series_id h (dp_key p)) mod unat n" for p
    by (simp add: shard_index_mod [OF assms(1)] unat_pow2_u64)
  moreover have "0 < unat n" using k by (simp add: unat_pow2_u64)
  ultimately show ?thesis using Inr n(1) k by auto
qed

theorem config_shards_sound_witness:
  "\<exists>cf. load (\<lambda>key. if key = ''MICIUS_NUM_SHARDS'' then Some ''8'' else None) = Inr cf \<and>
     cf_num_shards cf = 8 \<and>
     unat (shard_index length_hasher (point_of (SeriesKey ''cpu.load'' []) (I64 1, F64 0)) 8) < 8"
proof -
  let ?env = "\<lambda>key. if key = ''MICIUS_NUM_SHARDS'' then Some ''8'' else None"
  have n: "env_usize ?env ''MICIUS_NUM_SHARDS'' 16 = 8"
    by (simp add: env_usize_def parse_u64_def digit_value_def)
  show ?thesis
  proof (cases "load ?env")
    case (Inl e)
    with config_shards_sound [OF length_hasher_streaming, of ?env] n
    have "\<not> (\<exists>k<64. (8 :: u64) = 2 ^ k)" by simp
    moreover have "(8 :: u64) = 2 ^ 3" by simp
    ultimately have False by (metis numeral_less_iff semiring_norm(76,79,81))
    then show ?thesis ..
  next
    case (Inr cf)
    with config_shards_sound [OF length_hasher_streaming, of ?env] n show ?thesis by auto
  qed
qed

text \<open>
  C36.  Successful \<open>ensure_dirs\<close> leaves the WAL directory, one directory per shard (all
  different), the chunk directory and the directory of the snapshot, each with all its
  ancestors, and removes none; it fails only when the file system fails to create one of them,
  and then everything it created is one of them or an ancestor.
\<close>

theorem ensure_dirs_complete:
  "dirs \<subseteq> fst (ensure_dirs env cf dirs) \<and>
    inj (shard_dir (cf_wal_dir cf)) \<and>
    (case snd (ensure_dirs env cf dirs) of
       Inr _ \<Rightarrow> (\<Union>p\<in>wanted_dirs cf. set (ancestors p)) \<subseteq> fst (ensure_dirs env cf dirs)
     | Inl e \<Rightarrow> e = IoError \<and> (\<exists>p. p \<in> wanted_dirs cf \<and> env p \<noteq> None) \<and>
         fst (ensure_dirs env cf dirs) \<subseteq> dirs \<union> (\<Union>p\<in>wanted_dirs cf. set (ancestors p)))"
proof -
  define ps where "ps = [cf_wal_dir cf] @
        map (shard_dir (cf_wal_dir cf)) [0..<unat (cf_num_shards cf)] @
        [cf_chunk_dir cf] @
        (case path_parent (cf_index_path cf) of None \<Rightarrow> [] | Some parent \<Rightarrow> [parent])"
  have ps: "set ps = wanted_dirs cf"
    by (auto simp: ps_def wanted_dirs_def split: option.splits)
  obtain dirs' r where run: "create_dirs env ps dirs = (dirs', r)" by fastforce
  then have e: "ensure_dirs env cf dirs = (dirs', r)" by (simp add: ensure_dirs_def ps_def)
  have "inj (shard_dir (cf_wal_dir cf))" by (simp add: inj_def)
  moreover have "(\<Union>p\<in>wanted_dirs cf. set (ancestors p)) \<subseteq> dirs'" if "r = Inr u" for u
    using create_dirs_Inr run that unfolding ps [symmetric] by blast
  moreover have "e = IoError \<and> (\<exists>p. p \<in> wanted_dirs cf \<and> env p \<noteq> None) \<and>
      dirs' \<subseteq> dirs \<union> (\<Union>p\<in>wanted_dirs cf. set (ancestors p))" if "r = Inl e" for e
    using create_dirs_Inl [of env ps dirs dirs' e] run that unfolding ps by blast
  ultimately show ?thesis
    using create_dirs_grows [OF run] by (simp add: e split: sum.splits)
qed

end
