(* ===== verification/Index_Persistence.thy ===== *)
theory Index_Persistence
  imports Chunk_Index Paths
begin

section \<open>Index snapshots (index/persistence.rs)\<close>

text \<open>
  Saving the index to a snapshot file through a temporary file and a rename, and loading it
  back, with the tag index rebuilt from the registry. The \<open>bincode\<close> crate is a parameter.
\<close>

subsection \<open>Snapshot and crate\<close>

record index_snapshot =
  is_version :: byte
  is_shard_watermarks :: "u64 list"
  is_series_registry :: "(u64 \<times> series_key) list"
  is_time_index :: "(u64 \<times> (i64 \<times> series_chunk_entry) list) list"
  is_chunk_stats :: "(u64 \<times> u64 \<times> series_chunk_stats) list"
  is_chunk_files :: "(u64 \<times> chunk_meta) list"

text \<open>Serialising fails for a path that is not UTF-8; deserialising for malformed bytes.\<close>

record bincode_crate =
  bc_serialize :: "index_snapshot \<Rightarrow> bytes option"
  bc_deserialize :: "bytes \<Rightarrow> index_snapshot option"

definition bincode_lossless :: "'z bincode_crate_scheme \<Rightarrow> bool" where
  "bincode_lossless c \<longleftrightarrow>
     (\<forall>s bs. bc_serialize c s = Some bs \<longrightarrow> bc_deserialize c bs = Some s)"


subsection \<open>Saving\<close>

definition snapshot_of :: "chunk_index \<Rightarrow> u64 list \<Rightarrow> index_snapshot" where
  "snapshot_of ix shard_watermarks =
     \<lparr>is_version = 2, is_shard_watermarks = shard_watermarks,
      is_series_registry = ci_series_registry ix,
      is_time_index = ci_time_index ix,
      is_chunk_stats = map (\<lambda>((cid, sid), stat). (cid, sid, stat)) (ci_chunk_stats ix),
      is_chunk_files = ci_chunk_files ix\<rparr>"

text \<open>
  What the environment does: the temporary file is not created, is left with some of the
  bytes, or is complete and cannot be renamed.
\<close>

datatype save_outcome = SaveOk | TmpNotCreated | TmpPartial nat | RenameFails

definition save_index ::
    "'z bincode_crate_scheme \<Rightarrow> save_outcome \<Rightarrow> chunk_index \<Rightarrow> path \<Rightarrow> u64 list \<Rightarrow> fs \<Rightarrow>
     fs \<times> unit result" where
  "save_index c io ix p shard_watermarks files =
     (case bc_serialize c (snapshot_of ix shard_watermarks) of
        None \<Rightarrow> (files, Inl SerializeError)
      | Some bs \<Rightarrow>
          (let tmp = with_extension p ''tmp''
           in case io of
                TmpNotCreated \<Rightarrow> (files, Inl IoError)
              | TmpPartial n \<Rightarrow> (files(tmp \<mapsto> take n bs), Inl IoError)
              | RenameFails \<Rightarrow> (files(tmp \<mapsto> bs), Inl IoError)
              | SaveOk \<Rightarrow> ((files(tmp := None))(p \<mapsto> bs), Inr ())))"


subsection \<open>Loading\<close>

definition rebuild_tags :: "(u64 \<times> series_key) list \<Rightarrow> ((string \<times> string) \<times> u64 list) list" where
  "rebuild_tags registry = fold (\<lambda>(sid, sk). tag_insert sid (sk_tags sk)) registry []"

definition rebuild_index :: "index_snapshot \<Rightarrow> chunk_index" where
  "rebuild_index s =
     \<lparr>ci_series_registry = fold (\<lambda>(sid, sk). hm_insert sid sk) (is_series_registry s) [],
      ci_time_index =
        fold (\<lambda>(sid, tv). hm_insert sid tv)
          (map (\<lambda>(sid, time_vec). (sid, fold (\<lambda>(t, e). bt_insert t e) time_vec [])) (is_time_index s)) [],
      ci_tag_index = rebuild_tags (is_series_registry s),
      ci_chunk_stats =
        fold (\<lambda>(k, stat). hm_insert k stat)
          (map (\<lambda>(cid, sid, stat). ((cid, sid), stat)) (is_chunk_stats s)) [],
      ci_chunk_files = fold (\<lambda>(cid, meta). hm_insert cid meta) (is_chunk_files s) [],
      ci_shard_watermarks = is_shard_watermarks s\<rparr>"

text \<open>
  What the environment does: \<open>path.exists()\<close> is false when the file cannot be examined, and
  reading a file that is there may fail.
\<close>

datatype load_outcome = LoadOk | StatFails | ReadFails

definition load_index ::
    "'z bincode_crate_scheme \<Rightarrow> load_outcome \<Rightarrow> fs \<Rightarrow> path \<Rightarrow> chunk_index option result" where
  "load_index c io files p =
     (case files p of
        None \<Rightarrow> Inr None
      | Some bs \<Rightarrow>
          (case io of
             StatFails \<Rightarrow> Inr None
           | ReadFails \<Rightarrow> Inl IoError
           | LoadOk \<Rightarrow>
               (case bc_deserialize c bs of
                  None \<Rightarrow> Inr None
                | Some s \<Rightarrow> if is_version s \<noteq> 2 then Inr None else Inr (Some (rebuild_index s)))))"


subsection \<open>Contents of a rebuilt index\<close>

text \<open>Two indexes that answer every lookup alike, whatever the iteration orders.\<close>

definition same_index :: "chunk_index \<Rightarrow> chunk_index \<Rightarrow> bool" where
  "same_index ix ix' \<longleftrightarrow>
     map_of (ci_series_registry ix) = map_of (ci_series_registry ix') \<and>
     map_of (ci_time_index ix) = map_of (ci_time_index ix') \<and>
     tagged (ci_tag_index ix) = tagged (ci_tag_index ix') \<and>
     map_of (ci_chunk_stats ix) = map_of (ci_chunk_stats ix') \<and>
     map_of (ci_chunk_files ix) = map_of (ci_chunk_files ix')"

lemma tagged_rebuild_tags:
  "tagged (rebuild_tags registry) f = {sid. \<exists>sk. (sid, sk) \<in> set registry \<and> f \<in> set (sk_tags sk)}"
proof -
  have "tagged (fold (\<lambda>(sid, sk). tag_insert sid (sk_tags sk)) registry ti) f =
      tagged ti f \<union> {sid. \<exists>sk. (sid, sk) \<in> set registry \<and> f \<in> set (sk_tags sk)}" for ti
    by (induction registry arbitrary: ti) (auto simp: tagged_tag_insert split: if_splits)
  then show ?thesis by (simp add: rebuild_tags_def) (simp add: tagged_def)
qed

lemma map_of_hm_copy: "hm_inv m \<Longrightarrow> map_of (fold (\<lambda>(k, v). hm_insert k v) m []) = map_of m"
  by (rule hm.lookup_copy)

lemma rebuild_index_same:
  assumes "ci_inv h ix"
  shows "same_index (rebuild_index (snapshot_of ix ws)) ix"
    "ci_shard_watermarks (rebuild_index (snapshot_of ix ws)) = ws"
proof -
  let ?r = "rebuild_index (snapshot_of ix ws)"
  have maps: "ci_maps_ok ix" and tags: "ci_tags_ok ix" using assms by (simp_all add: ci_inv_def)
  have reg: "map_of (ci_series_registry ?r) = map_of (ci_series_registry ix)"
    using maps by (simp add: rebuild_index_def snapshot_of_def map_of_hm_copy ci_maps_ok_def)
  have "map (\<lambda>(sid, tv). (sid, fold (\<lambda>(t, e). bt_insert t e) tv [])) (ci_time_index ix) = ci_time_index ix"
    using maps by (intro map_idI) (auto simp: ci_maps_ok_def bt_collect_id)
  then have times: "map_of (ci_time_index ?r) = map_of (ci_time_index ix)"
    using maps by (simp add: rebuild_index_def snapshot_of_def map_of_hm_copy ci_maps_ok_def)
  have "map (\<lambda>(cid, sid, stat). ((cid, sid), stat)) (map (\<lambda>((cid, sid), stat). (cid, sid, stat)) (ci_chunk_stats ix))
      = ci_chunk_stats ix"
    by (simp add: map_idI split: prod.splits)
  then have stats: "map_of (ci_chunk_stats ?r) = map_of (ci_chunk_stats ix)"
    using maps map_of_hm_copy [of "ci_chunk_stats ix"]
    by (simp add: rebuild_index_def snapshot_of_def ci_maps_ok_def del: map_map)
  have files: "map_of (ci_chunk_files ?r) = map_of (ci_chunk_files ix)"
    using maps by (simp add: rebuild_index_def snapshot_of_def map_of_hm_copy ci_maps_ok_def)
  have mem: "(sid, sk) \<in> set (ci_series_registry ix) \<longleftrightarrow> map_of (ci_series_registry ix) sid = Some sk" for sid sk
    using maps hm.mem_entries_iff [of "ci_series_registry ix"] by (simp add: ci_maps_ok_def)
  have "tagged (ci_tag_index ?r) f = tagged (ci_tag_index ix) f" for f
    using tags [unfolded ci_tags_ok_def, rule_format, of f]
    by (simp add: rebuild_index_def snapshot_of_def tagged_rebuild_tags mem)
  with reg times stats files show "same_index ?r ix" by (simp add: same_index_def fun_eq_iff)
  show "ci_shard_watermarks ?r = ws" by (simp add: rebuild_index_def snapshot_of_def)
qed

text \<open>Indexes with the same contents give the same answers.\<close>

lemma same_index_prune: "same_index ix ix' \<Longrightarrow> ci_prune_chunks ix sid lo hi p = ci_prune_chunks ix' sid lo hi p"
  by (simp add: same_index_def ci_prune_chunks_def cong: option.case_cong)

lemma same_index_resolve:
  assumes "same_index ix ix'" "hm_inv (ci_series_registry ix)" "hm_inv (ci_series_registry ix')"
  shows "set (ci_resolve_series ix metric fs) = set (ci_resolve_series ix' metric fs)"
proof (cases fs)
  case Nil
  have mem: "set (ci_series_registry ix) = set (ci_series_registry ix')"
    using hm.mem_entries_iff [OF assms(2)] hm.mem_entries_iff [OF assms(3)] assms(1)
    by (auto simp: same_index_def)
  then show ?thesis by (simp add: Nil ci_resolve_series_def)
next
  case (Cons f gs)
  then show ?thesis
    using assms(1) by (simp add: resolve_filtered has_metric_def same_index_def)
qed

lemma hm_inv_rebuild: "hm_inv (ci_series_registry (rebuild_index s))"
  using hm.invar_collect [of "[]" "is_series_registry s"] by (simp add: rebuild_index_def)


subsection \<open>Properties\<close>

text \<open>
  C13.  A saved index in which no two keys registered so far share an identifier, read back
  without an error, has the watermarks it was saved with and answers every query as before: the
  same series resolved and the same chunks for every range and predicate, the tag index rebuilt
  from the registry included.
\<close>

theorem snapshot_roundtrip:
  assumes "bincode_lossless c" "(ci_step h)\<^sup>*\<^sup>* ({}, ci_new) (keys, ix)" "inj_on (series_id h) keys"
    "save_index c io ix p ws files = (files', Inr u)"
  shows "\<exists>ix'. load_index c LoadOk files' p = Inr (Some ix') \<and> ci_shard_watermarks ix' = ws \<and>
    (\<forall>metric fs. set (ci_resolve_series ix' metric fs) = set (ci_resolve_series ix metric fs)) \<and>
    (\<forall>sid lo hi pr. ci_prune_chunks ix' sid lo hi pr = ci_prune_chunks ix sid lo hi pr) \<and>
    map_of (ci_chunk_files ix') = map_of (ci_chunk_files ix)"
proof -
  let ?r = "rebuild_index (snapshot_of ix ws)"
  have inv: "ci_inv h ix" by (rule reachable_inv [OF assms(2,3)])
  then have reg: "hm_inv (ci_series_registry ix)" by (simp add: ci_inv_def ci_maps_ok_def)
  obtain bs where bs: "bc_serialize c (snapshot_of ix ws) = Some bs" "files' p = Some bs"
    using assms(4) by (auto simp: save_index_def Let_def split: option.splits save_outcome.splits)
  then have "load_index c LoadOk files' p = Inr (Some ?r)"
    using assms(1) by (simp add: load_index_def bincode_lossless_def) (simp add: snapshot_of_def)
  with rebuild_index_same [OF inv, of ws] same_index_prune [of ?r ix]
    same_index_resolve [OF _ hm_inv_rebuild reg]
  show ?thesis by (auto simp: same_index_def)
qed

text \<open>A crate that writes a fixed byte for the snapshot of the example index.\<close>

definition one_bincode :: bincode_crate where
  "one_bincode =
     \<lparr>bc_serialize = (\<lambda>s. if s = snapshot_of one_index [4] then Some [7] else None),
      bc_deserialize = (\<lambda>bs. if bs = [7] then Some (snapshot_of one_index [4]) else None)\<rparr>"

lemma one_bincode_lossless: "bincode_lossless one_bincode"
  by (simp add: bincode_lossless_def one_bincode_def)

theorem snapshot_roundtrip_witness:
  "\<exists>ix'. load_index one_bincode LoadOk (fst (save_index one_bincode SaveOk one_index [''index.bin''] [4] Map.empty))
      [''index.bin''] = Inr (Some ix') \<and> ci_shard_watermarks ix' = [4] \<and>
    ci_prune_chunks ix' 10 I64_MIN I64_MAX None = [one_entry]"
proof -
  let ?s = "save_index one_bincode SaveOk one_index [''index.bin''] [4] Map.empty"
  have "?s = (fst ?s, Inr ())" by (simp add: save_index_def one_bincode_def Let_def)
  then obtain ix' where "load_index one_bincode LoadOk (fst ?s) [''index.bin''] = Inr (Some ix')"
    "ci_shard_watermarks ix' = [4]"
    "ci_prune_chunks ix' 10 I64_MIN I64_MAX None = ci_prune_chunks one_index 10 I64_MIN I64_MAX None"
    using snapshot_roundtrip [OF one_bincode_lossless one_index_reachable] by (simp only: inj_on_insert inj_on_empty) blast
  moreover have "ci_prune_chunks one_index 10 I64_MIN I64_MAX None = [one_entry]"
    by (simp add: ci_prune_chunks_def ci_register_def ci_new_def Let_def hm_modify_def bt_range_to_def
        series_id_def length_hasher_def to_bytes_def)
  ultimately show ?thesis by auto
qed

text \<open>
  C30.  Saving is atomic: whatever the environment does, afterwards the snapshot file holds
  either what it held before or, when the save reports success, the complete new snapshot. A
  failed save never costs the previous snapshot.
\<close>

theorem snapshot_save_atomic:
  assumes "with_extension p ''tmp'' \<noteq> p"
  shows "case save_index c io ix p ws files of
      (files', Inl e) \<Rightarrow> load_index c io' files' p = load_index c io' files p
    | (files', Inr u) \<Rightarrow> files' p = bc_serialize c (snapshot_of ix ws)"
  using assms
  by (auto simp: save_index_def load_index_def Let_def split: option.splits save_outcome.splits)

theorem snapshot_save_atomic_witness:
  "load_index one_bincode LoadOk
     (fst (save_index one_bincode (TmpPartial 0) one_index [''index.bin''] [4] [[''index.bin''] \<mapsto> [7]]))
     [''index.bin''] = Inr (Some (rebuild_index (snapshot_of one_index [4])))"
proof -
  have tmp: "with_extension [''index.bin''] ''tmp'' \<noteq> [''index.bin'']"
    by (simp add: with_extension_def file_stem_def)
  show ?thesis
    using snapshot_save_atomic [OF tmp, where c = one_bincode and io = "TmpPartial 0" and
        ix = one_index and ws = "[4]" and io' = LoadOk and files = "[[''index.bin''] \<mapsto> [7]]"]
    by (simp add: save_index_def one_bincode_def Let_def)
      (simp add: load_index_def snapshot_of_def)
qed

end
