(* ===== verification/Wal_Writer.thy ===== *)
theory Wal_Writer
  imports Paths Memtable
begin

section \<open>Write-ahead log: entries and segment writer (wal/proto.rs, wal/writer.rs)\<close>

text \<open>
  The log of a shard is a directory of numbered segment files. A frame is the length and the
  checksum of a protobuf payload, then the payload. The crates \<open>prost\<close> and \<open>crc32fast\<close> are
  parameters.
\<close>

subsection \<open>Entries\<close>

record wal_data_point =
  wdp_metric_name :: string
  wdp_tags :: tag_map
  wdp_timestamp_ns :: i64
  wdp_value :: f64

record wal_entry =
  we_sequence :: u64
  we_points :: "wal_data_point list"

definition wal_of_point :: "data_point \<Rightarrow> wal_data_point" where
  "wal_of_point pt =
     \<lparr>wdp_metric_name = dp_metric_name pt, wdp_tags = dp_tags pt,
      wdp_timestamp_ns = dp_timestamp_ns pt, wdp_value = dp_value pt\<rparr>"

definition point_of_wal :: "wal_data_point \<Rightarrow> data_point" where
  "point_of_wal pt =
     \<lparr>dp_metric_name = wdp_metric_name pt, dp_tags = wdp_tags pt,
      dp_timestamp_ns = wdp_timestamp_ns pt, dp_value = wdp_value pt\<rparr>"

lemma point_of_wal_of_point [simp]: "point_of_wal (wal_of_point p) = p"
  by (simp add: wal_of_point_def point_of_wal_def)

record wal_crates =
  wal_crc32 :: "bytes \<Rightarrow> u32"
  encode_to_vec :: "wal_entry \<Rightarrow> bytes"
  wal_decode :: "bytes \<Rightarrow> wal_entry option"

text \<open>Well-formed values of the Rust types: UTF-8 strings and tags in key order.\<close>

definition point_type_ok :: "data_point \<Rightarrow> bool" where
  "point_type_ok p \<longleftrightarrow> key_type_ok (dp_key p)"

definition wal_entry_of :: "u64 \<Rightarrow> data_point list \<Rightarrow> wal_entry" where
  "wal_entry_of seq points = \<lparr>we_sequence = seq, we_points = map wal_of_point points\<rparr>"

text \<open>\<open>decode\<close> of \<open>encode_to_vec\<close> returns the message.\<close>

definition prost_lossless :: "'z wal_crates_scheme \<Rightarrow> bool" where
  "prost_lossless c \<longleftrightarrow>
     (\<forall>seq points. (\<forall>p \<in> set points. point_type_ok p) \<longrightarrow>
        wal_decode c (encode_to_vec c (wal_entry_of seq points)) = Some (wal_entry_of seq points))"


subsection \<open>Segment files\<close>

definition segment_name :: "u64 \<Rightarrow> string" where
  "segment_name segment = fixed_digits 10 20 (unat segment) @ ''.wal''"

definition segment_path :: "path \<Rightarrow> u64 \<Rightarrow> path" where
  "segment_path wal_dir segment = join wal_dir (segment_name segment)"

text \<open>\<open>trim_end_matches(".wal")\<close> removes the suffix as often as it occurs.\<close>

definition ends_with :: "string \<Rightarrow> string \<Rightarrow> bool" where
  "ends_with s suffix \<longleftrightarrow>
     length suffix \<le> length s \<and> drop (length s - length suffix) s = suffix"

function trim_end_wal :: "string \<Rightarrow> string" where
  "trim_end_wal s =
     (if ends_with s ''.wal'' then trim_end_wal (take (length s - 4) s) else s)"
  by auto
termination
  by (relation "measure length") (auto simp: ends_with_def)

declare trim_end_wal.simps [simp del]

fun highest_loop :: "string list \<Rightarrow> u64 option \<Rightarrow> u64 option" where
  "highest_loop [] m = m"
| "highest_loop (name # names) m =
     highest_loop names
       (if ends_with name ''.wal'' then
          case parse_u64 (trim_end_wal name) of
            None \<Rightarrow> m
          | Some n \<Rightarrow> (case m of None \<Rightarrow> Some n | Some k \<Rightarrow> if k < n then Some n else m)
        else m)"

definition highest_segment_number :: "string list \<Rightarrow> u64 option" where
  "highest_segment_number names = highest_loop names None"


subsection \<open>The writer\<close>

text \<open>\<open>ww_file\<close> is the segment the open handle writes to.\<close>

record wal_writer =
  ww_file :: path
  ww_current_seq :: u64
  ww_current_size :: u64
  ww_current_segment :: u64
  ww_wal_dir :: path
  ww_max_segment_bytes :: u64
  ww_completed_segments :: "(u64 \<times> u64) list"

definition U64_MAX :: u64 where
  "U64_MAX = 0xFFFFFFFFFFFFFFFF"

text \<open>
  \<open>names\<close> is the directory listing. The calls on the directory or the opening of the segment
  may fail, which leaves no file behind, or its metadata may not be readable once it is there.
\<close>

datatype segment_outcome = SegmentOk | SegmentNotOpened | SegmentNoMetadata

definition ww_open ::
    "string list \<Rightarrow> segment_outcome \<Rightarrow> path \<Rightarrow> u64 \<Rightarrow> u64 \<Rightarrow> fs \<Rightarrow> fs \<times> wal_writer result" where
  "ww_open names io wal_dir max_segment_bytes resume_seq files =
     (let segment_number = (case highest_segment_number names of None \<Rightarrow> 1 | Some n \<Rightarrow> n);
          path = segment_path wal_dir segment_number;
          files' = fs_open_append path files
      in case io of
           SegmentNotOpened \<Rightarrow> (files, Inl IoError)
         | SegmentNoMetadata \<Rightarrow> (files', Inl IoError)
         | SegmentOk \<Rightarrow>
             (files',
              Inr \<lparr>ww_file = path, ww_current_seq = resume_seq,
                   ww_current_size =
                     word_of_nat (case files' path of None \<Rightarrow> 0 | Some bs \<Rightarrow> length bs),
                   ww_current_segment = segment_number, ww_wal_dir = wal_dir,
                   ww_max_segment_bytes = max_segment_bytes,
                   ww_completed_segments =
                     map (\<lambda>n. (word_of_nat n, U64_MAX)) [1..<unat segment_number]\<rparr>))"

definition encode_frame :: "'z wal_crates_scheme \<Rightarrow> u64 \<Rightarrow> data_point list \<Rightarrow> bytes" where
  "encode_frame c seq points =
     (let payload = encode_to_vec c (wal_entry_of seq points)
      in u32_to_le_bytes (word_of_nat (length payload)) @ u32_to_le_bytes (wal_crc32 c payload) @ payload)"

definition current_segment_path :: "wal_writer \<Rightarrow> path" where
  "current_segment_path w = segment_path (ww_wal_dir w) (ww_current_segment w)"

definition ww_rotate :: "bool \<Rightarrow> wal_writer \<Rightarrow> fs \<Rightarrow> wal_writer \<times> fs \<times> unit result" where
  "ww_rotate ok w files =
     (let w1 = w\<lparr>ww_completed_segments :=
                   ww_completed_segments w @ [(ww_current_segment w, ww_current_seq w)],
                 ww_current_segment := ww_current_segment w + 1\<rparr>;
          path = current_segment_path w1
      in if ok then (w1\<lparr>ww_file := path, ww_current_size := 0\<rparr>, fs_open_append path files, Inr ())
         else (w1, files, Inl IoError))"

definition ww_append ::
    "'z wal_crates_scheme \<Rightarrow> write_outcome \<Rightarrow> bool \<Rightarrow> data_point list \<Rightarrow> wal_writer \<Rightarrow> fs \<Rightarrow>
     wal_writer \<times> fs \<times> u64 result" where
  "ww_append c io rotate_ok points w files =
     (let seq = ww_current_seq w + 1;
          w1 = w\<lparr>ww_current_seq := seq\<rparr>;
          frame = encode_frame c seq points
      in case io of
           WriteFail n \<Rightarrow> (w1, fs_append (ww_file w) (take n frame) files, Inl IoError)
         | WriteOk \<Rightarrow>
             (let w2 = w1\<lparr>ww_current_size := ww_current_size w + word_of_nat (length frame)\<rparr>;
                  files2 = fs_append (ww_file w) frame files
              in if ww_max_segment_bytes w \<le> ww_current_size w2
                 then case ww_rotate rotate_ok w2 files2 of
                        (w3, files3, Inl e) \<Rightarrow> (w3, files3, Inl e)
                      | (w3, files3, Inr _) \<Rightarrow> (w3, files3, Inr seq)
                 else (w2, files2, Inr seq)))"

definition current_sequence :: "wal_writer \<Rightarrow> u64" where
  "current_sequence w = ww_current_seq w"

definition drain_completed_before :: "u64 \<Rightarrow> wal_writer \<Rightarrow> wal_writer \<times> path list" where
  "drain_completed_before flushed_seq w =
     (w\<lparr>ww_completed_segments :=
          filter (\<lambda>(seg, max_seq). \<not> max_seq \<le> flushed_seq) (ww_completed_segments w)\<rparr>,
      map (\<lambda>(seg, max_seq). segment_path (ww_wal_dir w) seg)
        (filter (\<lambda>(seg, max_seq). max_seq \<le> flushed_seq) (ww_completed_segments w)))"


subsection \<open>Segment names\<close>

lemma u64_less_pow10_20: "unat (w :: u64) < 10 ^ 20"
  using unat_u64_less [of w] by simp

lemma list_less_append_same:
  fixes xs ys :: "'a::linorder list"
  shows "length xs = length ys \<Longrightarrow> xs @ zs < ys @ zs \<longleftrightarrow> xs < ys"
  by (induction xs ys rule: list_induct2) auto

lemma segment_name_less: "segment_name a < segment_name b \<longleftrightarrow> a < b"
  using fixed_digits_less(1) [of 10 "unat a" 20 "unat b"] u64_less_pow10_20 [of a] u64_less_pow10_20 [of b]
  by (simp add: segment_name_def list_less_append_same word_less_nat_alt)

lemma segment_name_inject [simp]: "segment_name a = segment_name b \<longleftrightarrow> a = b"
  using segment_name_less [of a b] segment_name_less [of b a] by (metis less_irrefl linorder_neqE)

lemma segment_path_inject [simp]: "segment_path d a = segment_path d b \<longleftrightarrow> a = b"
  by (simp add: segment_path_def)

lemma path_extension_segment [simp]: "path_extension (segment_name n) = Some ''wal''"
proof -
  have "fixed_digits 10 20 (unat n) \<noteq> []" by (metis length_fixed_digits list.size(3) zero_neq_numeral)
  then show ?thesis by (simp add: path_extension_def segment_name_def)
qed

lemma digit_chars_fixed_digits: "x < 10 ^ n \<Longrightarrow> ch \<in> set (fixed_digits 10 n x) \<Longrightarrow> digit_value ch \<noteq> None"
proof (induction n arbitrary: x)
  case 0
  then show ?case by simp
next
  case (Suc n)
  have "x div 10 < 10 ^ n" using Suc.prems(1) by (simp add: less_mult_imp_div_less)
  with Suc show ?case by (auto simp: digit_value_digit_char)
qed

lemma trim_end_wal_segment: "trim_end_wal (segment_name n) = fixed_digits 10 20 (unat n)"
proof -
  let ?d = "fixed_digits 10 20 (unat n)"
  have ne: "?d \<noteq> []" by (metis length_fixed_digits list.size(3) zero_neq_numeral)
  have "\<not> ends_with ?d ''.wal''"
  proof
    assume "ends_with ?d ''.wal''"
    then have "drop 16 ?d = ''.wal''" by (simp add: ends_with_def)
    then have "CHR ''w'' \<in> set ?d" by (metis in_set_dropD list.set_intros(1,2))
    with digit_chars_fixed_digits [OF u64_less_pow10_20 [of n]] have "digit_value CHR ''w'' \<noteq> None" by blast
    then show False by (simp add: digit_value_def less_eq_char_def)
  qed
  then have "trim_end_wal ?d = ?d" by (simp add: trim_end_wal.simps [of ?d])
  moreover have "ends_with (segment_name n) ''.wal''" by (simp add: ends_with_def segment_name_def)
  ultimately show ?thesis
    by (simp add: trim_end_wal.simps [of "segment_name n"]) (simp add: segment_name_def)
qed

lemma parse_segment_name: "parse_u64 (trim_end_wal (segment_name n)) = Some n"
  using parse_u64_fixed_digits [of "unat n" 20] unat_u64_less [of n] u64_less_pow10_20 [of n]
  by (simp add: trim_end_wal_segment)

lemma ends_with_segment [simp]: "ends_with (segment_name n) ''.wal''"
  by (simp add: ends_with_def segment_name_def)

lemma highest_loop_segments:
  "highest_loop (map segment_name ns) m =
     (case m of None \<Rightarrow> (if ns = [] then None else Some (Max (set ns)))
      | Some k \<Rightarrow> Some (Max (insert k (set ns))))"
proof (induction ns arbitrary: m)
  case Nil
  then show ?case by (simp split: option.splits)
next
  case (Cons n ns)
  have "Max (insert k (insert n (set ns))) = Max (insert (max k n) (set ns))" for k
    by (cases "ns = []") (simp_all add: max.assoc)
  then show ?case
    using Cons.IH by (auto simp: parse_segment_name max_def split: option.splits)
qed

lemma highest_segment_number_segments:
  "highest_segment_number (map segment_name ns) = (if ns = [] then None else Some (Max (set ns)))"
  by (simp add: highest_segment_number_def highest_loop_segments)

end
