(* ===== verification/Wal_Codec.thy ===== *)
theory Wal_Codec
  imports Wal_Writer
begin

section \<open>A concrete instance of the log's crates\<close>

text \<open>
  A codec for log entries with a decoder that inverts it, and the byte sum as checksum: they
  show that the hypotheses on \<open>prost\<close> and \<open>crc32fast\<close> can hold, and the examples evaluate
  with them. Lists are written as a 1 before each element and a 0 at the end.
\<close>

subsection \<open>Writers and readers\<close>

definition put_list :: "('a \<Rightarrow> bytes) \<Rightarrow> 'a list \<Rightarrow> bytes" where
  "put_list f xs = concat (map (\<lambda>x. 1 # f x) xs) @ [0]"

fun get_list :: "(bytes \<Rightarrow> ('a \<times> bytes) option) \<Rightarrow> nat \<Rightarrow> bytes \<Rightarrow> ('a list \<times> bytes) option" where
  "get_list g 0 bs = None"
| "get_list g (Suc n) [] = None"
| "get_list g (Suc n) (t # bs) =
     (if t = 0 then Some ([], bs)
      else case g bs of
             None \<Rightarrow> None
           | Some (x, bs1) \<Rightarrow>
               (case get_list g n bs1 of None \<Rightarrow> None | Some (xs, bs2) \<Rightarrow> Some (x # xs, bs2)))"

lemma get_put_list:
  "(\<And>x r. x \<in> set xs \<Longrightarrow> g (f x @ r) = Some (x, r)) \<Longrightarrow> length xs < n \<Longrightarrow>
   get_list g n (put_list f xs @ r) = Some (xs, r)"
proof (induction xs arbitrary: n)
  case Nil
  then show ?case by (cases n) (simp_all add: put_list_def)
next
  case (Cons x xs)
  obtain m where n: "n = Suc m" "length xs < m" using Cons.prems(2) by (cases n) simp_all
  have "get_list g m (put_list f xs @ r) = Some (xs, r)" using Cons n by simp
  then show ?case using Cons.prems(1) [of x "put_list f xs @ r"] by (simp add: n put_list_def)
qed

lemma length_put_list: "length xs < length (put_list f xs)"
  by (induction xs) (simp_all add: put_list_def)

text \<open>Fuel: the length of the input.\<close>

definition get_all :: "(bytes \<Rightarrow> ('a \<times> bytes) option) \<Rightarrow> bytes \<Rightarrow> ('a list \<times> bytes) option" where
  "get_all g bs = get_list g (length bs) bs"

lemma get_all_put:
  "(\<And>x r. x \<in> set xs \<Longrightarrow> g (f x @ r) = Some (x, r)) \<Longrightarrow> get_all g (put_list f xs @ r) = Some (xs, r)"
  using get_put_list [of xs g f "length (put_list f xs @ r)" r] length_put_list [of xs f]
  by (simp add: get_all_def)

definition get_char :: "bytes \<Rightarrow> (char \<times> bytes) option" where
  "get_char bs = (case bs of [] \<Rightarrow> None | b # r \<Rightarrow> Some (char_of_byte b, r))"

definition put_str :: "string \<Rightarrow> bytes" where
  "put_str s = put_list (\<lambda>ch. [byte_of_char ch]) s"

lemma get_put_str [simp]: "get_all get_char (put_str s @ r) = Some (s, r)"
  unfolding put_str_def by (rule get_all_put) (simp add: get_char_def)

definition get_u64 :: "bytes \<Rightarrow> (u64 \<times> bytes) option" where
  "get_u64 bs = (case u64_from_le_bytes (take 8 bs) of Inl _ \<Rightarrow> None | Inr w \<Rightarrow> Some (w, drop 8 bs))"

lemma get_put_u64 [simp]: "get_u64 (u64_to_le_bytes w @ r) = Some (w, r)"
  by (simp add: get_u64_def)

definition put_tag :: "string \<times> string \<Rightarrow> bytes" where
  "put_tag t = put_str (fst t) @ put_str (snd t)"

definition get_tag :: "bytes \<Rightarrow> ((string \<times> string) \<times> bytes) option" where
  "get_tag bs =
     (case get_all get_char bs of
        None \<Rightarrow> None
      | Some (k, r) \<Rightarrow> (case get_all get_char r of None \<Rightarrow> None | Some (v, r) \<Rightarrow> Some ((k, v), r)))"

lemma get_put_tag [simp]: "get_tag (put_tag t @ r) = Some (t, r)"
  by (simp add: get_tag_def put_tag_def)

definition put_point :: "wal_data_point \<Rightarrow> bytes" where
  "put_point p =
     put_str (wdp_metric_name p) @ put_list put_tag (wdp_tags p) @
     u64_to_le_bytes (i64_bits (wdp_timestamp_ns p)) @ u64_to_le_bytes (f64_bits (wdp_value p))"

definition get_point :: "bytes \<Rightarrow> (wal_data_point \<times> bytes) option" where
  "get_point bs =
     (case get_all get_char bs of None \<Rightarrow> None | Some (m, r) \<Rightarrow>
      (case get_all get_tag r of None \<Rightarrow> None | Some (ts, r) \<Rightarrow>
       (case get_u64 r of None \<Rightarrow> None | Some (t, r) \<Rightarrow>
        (case get_u64 r of None \<Rightarrow> None | Some (v, r) \<Rightarrow>
           Some (\<lparr>wdp_metric_name = m, wdp_tags = ts, wdp_timestamp_ns = I64 t, wdp_value = F64 v\<rparr>, r)))))"

lemma get_put_point [simp]: "get_point (put_point p @ r) = Some (p, r)"
proof -
  have "get_all get_tag (put_list put_tag (wdp_tags p) @ s) = Some (wdp_tags p, s)" for s
    by (rule get_all_put) simp
  then show ?thesis by (simp add: get_point_def put_point_def)
qed

definition put_entry :: "wal_entry \<Rightarrow> bytes" where
  "put_entry e = u64_to_le_bytes (we_sequence e) @ put_list put_point (we_points e)"

definition get_entry :: "bytes \<Rightarrow> wal_entry option" where
  "get_entry bs =
     (case get_u64 bs of None \<Rightarrow> None | Some (s, r) \<Rightarrow>
      (case get_all get_point r of None \<Rightarrow> None | Some (ps, r) \<Rightarrow>
         if r = [] then Some \<lparr>we_sequence = s, we_points = ps\<rparr> else None))"

lemma get_put_entry [simp]: "get_entry (put_entry e) = Some e"
proof -
  have "get_all get_point (put_list put_point (we_points e)) = Some (we_points e, [])"
    using get_all_put [of "we_points e" get_point put_point "[]"] by simp
  then show ?thesis by (simp add: get_entry_def put_entry_def)
qed


subsection \<open>The instance\<close>

definition plain_wal :: wal_crates where
  "plain_wal =
     \<lparr>wal_crc32 = (\<lambda>bs. word_of_nat (sum_list (map unat bs))), encode_to_vec = put_entry,
      wal_decode = get_entry\<rparr>"

lemma plain_wal_lossless: "prost_lossless plain_wal"
  by (simp add: prost_lossless_def plain_wal_def)

end
