(* ===== verification/Wal_Recovery.thy ===== *)
theory Wal_Recovery
  imports Wal_Codec
begin

section \<open>Write-ahead log: recovery (wal/recovery.rs)\<close>

text \<open>
  Replaying the segments of a shard in name order: each is scanned frame by frame up to its
  end, a truncated frame or a checksum mismatch, and entries up to the snapshot watermark
  are skipped.
\<close>

subsection \<open>The replay\<close>

record recovery_result =
  rr_points :: "data_point list"
  rr_last_sequence :: u64
  rr_segments_replayed :: u32
  rr_entries_replayed :: u64
  rr_torn_write_detected :: bool

definition rr_init :: recovery_result where
  "rr_init =
     \<lparr>rr_points = [], rr_last_sequence = 0, rr_segments_replayed = 0, rr_entries_replayed = 0,
      rr_torn_write_detected = False\<rparr>"

text \<open>
  \<open>names\<close> is what \<open>read_dir\<close> yields; paths of one directory are ordered by name. The argument
  \<open>rd\<close> says which paths the environment lets the code read, the directory itself included.
\<close>

abbreviation all_read :: "path \<Rightarrow> bool" where
  "all_read \<equiv> \<lambda>_. True"

definition get_wal_files :: "(path \<Rightarrow> bool) \<Rightarrow> path \<Rightarrow> string list \<Rightarrow> path list result" where
  "get_wal_files rd dir names =
     (if rd dir then Inr (map (join dir) (sort (filter (\<lambda>n. path_extension n = Some ''wal'') names)))
      else Inl IoError)"

definition replay_entry :: "wal_entry \<Rightarrow> recovery_result \<Rightarrow> recovery_result" where
  "replay_entry entry res =
     res\<lparr>rr_last_sequence := max (rr_last_sequence res) (we_sequence entry),
         rr_entries_replayed := rr_entries_replayed res + 1,
         rr_points := rr_points res @ map point_of_wal (we_points entry)\<rparr>"

function recover_loop ::
    "'z wal_crates_scheme \<Rightarrow> u64 \<Rightarrow> bytes \<Rightarrow> nat \<Rightarrow> recovery_result \<Rightarrow> recovery_result result" where
  "recover_loop c snapshot_watermark buf cursor res =
     (if length buf < cursor + 8 then Inr res
      else rbind (u32_from_le_bytes (take 4 (drop cursor buf))) (\<lambda>w.
        let stored_length = unat w
        in if length buf < cursor + stored_length + 8 then Inr (res\<lparr>rr_torn_write_detected := True\<rparr>)
           else rbind (u32_from_le_bytes (take 4 (drop (cursor + 4) buf))) (\<lambda>stored_checksum.
             let payload = take stored_length (drop (cursor + 8) buf)
             in if stored_checksum \<noteq> wal_crc32 c payload
                then Inr (res\<lparr>rr_torn_write_detected := True\<rparr>)
                else case wal_decode c payload of
                       None \<Rightarrow> Inl ProtoDecodeError
                     | Some entry \<Rightarrow>
                         recover_loop c snapshot_watermark buf (cursor + 8 + stored_length)
                           (if we_sequence entry \<le> snapshot_watermark then res
                            else replay_entry entry res))))"
  by pat_completeness auto
termination
  by (relation "measure (\<lambda>(c, wm, buf, cursor, res). length buf - cursor)") auto

declare recover_loop.simps [simp del]

fun recover_files ::
    "'z wal_crates_scheme \<Rightarrow> u64 \<Rightarrow> (path \<Rightarrow> bool) \<Rightarrow> fs \<Rightarrow> path list \<Rightarrow> recovery_result \<Rightarrow>
     recovery_result result" where
  "recover_files c snapshot_watermark rd files [] res = Inr res"
| "recover_files c snapshot_watermark rd files (p # paths) res =
     rbind (if rd p then read_file files p else Inl IoError) (\<lambda>buf.
     rbind (recover_loop c snapshot_watermark buf 0 res) (\<lambda>res'.
       recover_files c snapshot_watermark rd files paths
         (res'\<lparr>rr_segments_replayed := rr_segments_replayed res' + 1\<rparr>)))"

definition recover ::
    "'z wal_crates_scheme \<Rightarrow> (path \<Rightarrow> bool) \<Rightarrow> fs \<Rightarrow> path \<Rightarrow> string list \<Rightarrow> u64 \<Rightarrow> recovery_result result" where
  "recover c rd files wal_dir names snapshot_watermark =
     rbind (get_wal_files rd wal_dir names) (\<lambda>paths.
       recover_files c snapshot_watermark rd files paths rr_init)"


subsection \<open>Replaying frames\<close>

text \<open>A log: the batches of points with their sequence numbers, in order.\<close>

type_synonym wal_log = "(u64 \<times> data_point list) list"

definition log_bytes :: "'z wal_crates_scheme \<Rightarrow> wal_log \<Rightarrow> bytes" where
  "log_bytes c log = concat (map (\<lambda>(seq, points). encode_frame c seq points) log)"

definition entry_fits :: "'z wal_crates_scheme \<Rightarrow> u64 \<times> data_point list \<Rightarrow> bool" where
  "entry_fits c e \<longleftrightarrow>
     length (encode_to_vec c (wal_entry_of (fst e) (snd e))) < 2 ^ 32 \<and>
     (\<forall>p \<in> set (snd e). point_type_ok p)"

text \<open>What the replay makes of a log.\<close>

definition replay_log :: "u64 \<Rightarrow> wal_log \<Rightarrow> recovery_result \<Rightarrow> recovery_result" where
  "replay_log wm log res =
     fold (\<lambda>(seq, points). if seq \<le> wm then id else replay_entry (wal_entry_of seq points)) log res"

lemma log_bytes_simps [simp]:
  "log_bytes c [] = []"
  "log_bytes c ((seq, points) # log) = encode_frame c seq points @ log_bytes c log"
  "log_bytes c (l1 @ l2) = log_bytes c l1 @ log_bytes c l2"
  by (simp_all add: log_bytes_def)

lemma length_encode_frame:
  "length (encode_frame c seq points) = 8 + length (encode_to_vec c (wal_entry_of seq points))"
  by (simp add: encode_frame_def Let_def)

lemma unat_len_u32: "n < 2 ^ 32 \<Longrightarrow> unat (word_of_nat n :: u32) = n"
  by (simp add: unat_of_nat)

lemma recover_loop_entry:
  assumes "cursor + unat w + 8 \<le> length buf" "u32_from_le_bytes (take 4 (drop cursor buf)) = Inr w"
    "u32_from_le_bytes (take 4 (drop (cursor + 4) buf)) = Inr (wal_crc32 c payload)"
    "take (unat w) (drop (cursor + 8) buf) = payload" "wal_decode c payload = Some entry"
  shows "recover_loop c wm buf cursor res =
    recover_loop c wm buf (cursor + 8 + unat w)
      (if we_sequence entry \<le> wm then res else replay_entry entry res)"
proof -
  have "\<not> length buf < cursor + 8" "\<not> length buf < cursor + unat w + 8" using assms(1) by simp_all
  then show ?thesis
    unfolding recover_loop.simps [of c wm buf cursor] assms(2) rbind.simps assms(3) Let_def assms(4)
    by (simp add: assms(5))
qed

lemma recover_loop_short:
  assumes "cursor + 8 \<le> length buf" "u32_from_le_bytes (take 4 (drop cursor buf)) = Inr w"
    "length buf < cursor + unat w + 8"
  shows "recover_loop c wm buf cursor res = Inr (res\<lparr>rr_torn_write_detected := True\<rparr>)"
  using assms(1,3) unfolding recover_loop.simps [of c wm buf cursor] assms(2) rbind.simps Let_def
  by simp

text \<open>One whole frame at the cursor.\<close>

lemma recover_loop_frame:
  assumes "prost_lossless c" "entry_fits c (seq, points)" "cursor = length pre"
  shows "recover_loop c wm (pre @ encode_frame c seq points @ post) cursor res =
    recover_loop c wm (pre @ encode_frame c seq points @ post)
      (cursor + length (encode_frame c seq points))
      (if seq \<le> wm then res else replay_entry (wal_entry_of seq points) res)"
proof -
  let ?payload = "encode_to_vec c (wal_entry_of seq points)"
  let ?buf = "pre @ encode_frame c seq points @ post"
  have frame: "encode_frame c seq points =
      u32_to_le_bytes (word_of_nat (length ?payload)) @ u32_to_le_bytes (wal_crc32 c ?payload) @ ?payload"
    by (simp add: encode_frame_def Let_def)
  have len: "unat (word_of_nat (length ?payload) :: u32) = length ?payload"
    using assms(2) unat_len_u32 by (simp only: entry_fits_def fst_conv snd_conv)
  have dec: "wal_decode c ?payload = Some (wal_entry_of seq points)"
    using assms(1,2) by (simp add: prost_lossless_def entry_fits_def)
  have parts: "take 4 (drop cursor ?buf) = u32_to_le_bytes (word_of_nat (length ?payload))"
    "take 4 (drop (cursor + 4) ?buf) = u32_to_le_bytes (wal_crc32 c ?payload)"
    "take (length ?payload) (drop (cursor + 8) ?buf) = ?payload"
    by (simp_all add: frame assms(3))
  have "cursor + unat (word_of_nat (length ?payload) :: u32) + 8 \<le> length ?buf"
    by (simp only: len) (simp add: length_encode_frame assms(3))
  from recover_loop_entry [OF this _ _ _ dec, of wm res] show ?thesis
    unfolding parts len by (simp add: length_encode_frame add.assoc wal_entry_of_def)
qed

lemma recover_loop_log:
  assumes "prost_lossless c"
  shows "\<forall>e \<in> set log. entry_fits c e \<Longrightarrow> cursor = length pre \<Longrightarrow>
    recover_loop c wm (pre @ log_bytes c log @ post) cursor res =
    recover_loop c wm (pre @ log_bytes c log @ post) (cursor + length (log_bytes c log))
      (replay_log wm log res)"
proof (induction log arbitrary: pre cursor res)
  case Nil
  then show ?case by (simp add: replay_log_def)
next
  case (Cons e log)
  obtain seq points where e: "e = (seq, points)" by (cases e)
  have "recover_loop c wm (pre @ encode_frame c seq points @ log_bytes c log @ post) cursor res =
      recover_loop c wm (pre @ encode_frame c seq points @ log_bytes c log @ post)
        (cursor + length (encode_frame c seq points))
        (if seq \<le> wm then res else replay_entry (wal_entry_of seq points) res)"
    using Cons.prems by (intro recover_loop_frame [OF assms]) (simp_all add: e)
  with Cons.IH [of "cursor + length (encode_frame c seq points)" "pre @ encode_frame c seq points"]
    Cons.prems
  show ?case by (simp add: e replay_log_def add.assoc)
qed

text \<open>A strict prefix of a frame is left alone; the flag is set when its length field is there.\<close>

lemma recover_loop_torn:
  assumes "entry_fits c (seq, points)" "n < length (encode_frame c seq points)" "cursor = length pre"
  shows "recover_loop c wm (pre @ take n (encode_frame c seq points)) cursor res =
    Inr (if n < 8 then res else res\<lparr>rr_torn_write_detected := True\<rparr>)"
proof (cases "n < 8")
  case True
  then show ?thesis
    using assms(2,3) by (simp add: recover_loop.simps)
next
  case False
  let ?payload = "encode_to_vec c (wal_entry_of seq points)"
  let ?buf = "pre @ take n (encode_frame c seq points)"
  have len: "unat (word_of_nat (length ?payload) :: u32) = length ?payload"
    using assms(1) unat_len_u32 by (simp only: entry_fits_def fst_conv snd_conv)
  have hd: "take 4 (drop cursor ?buf) = u32_to_le_bytes (word_of_nat (length ?payload))"
    using False by (simp add: encode_frame_def Let_def assms(3) min_def)
  have "length ?buf = cursor + n" using assms(2,3) by simp
  with False assms(2) show ?thesis
    by (subst recover_loop_short [where w = "word_of_nat (length ?payload)"])
      (simp_all only: hd len u32_le_roundtrip, simp_all add: length_encode_frame)
qed


subsection \<open>Replaying segments\<close>

text \<open>What a crash in the middle of an append leaves at the end of a segment.\<close>

definition torn_tail :: "'z wal_crates_scheme \<Rightarrow> bytes \<Rightarrow> bool" where
  "torn_tail c tail \<longleftrightarrow>
     (\<exists>seq points n. entry_fits c (seq, points) \<and> n < length (encode_frame c seq points) \<and>
        tail = take n (encode_frame c seq points))"

lemma recover_loop_segment:
  assumes "prost_lossless c" "\<forall>e \<in> set log. entry_fits c e" "torn_tail c tail \<or> tail = []"
  shows "recover_loop c wm (log_bytes c log @ tail) 0 res =
    Inr (let res' = replay_log wm log res
         in if length tail < 8 then res' else res'\<lparr>rr_torn_write_detected := True\<rparr>)"
proof -
  have step: "recover_loop c wm (log_bytes c log @ tail) 0 res =
      recover_loop c wm (log_bytes c log @ tail) (length (log_bytes c log)) (replay_log wm log res)"
    using recover_loop_log [OF assms(1,2), of 0 "[]" wm tail res] by simp
  show ?thesis
  proof (cases "tail = []")
    case True
    have "recover_loop c wm (log_bytes c log) (length (log_bytes c log)) r = Inr r" for r
      by (subst recover_loop.simps) simp
    with True step show ?thesis by simp
  next
    case False
    then obtain seq points n where t: "entry_fits c (seq, points)"
      "n < length (encode_frame c seq points)" "tail = take n (encode_frame c seq points)"
      using assms(3) by (auto simp: torn_tail_def)
    have "recover_loop c wm (log_bytes c log @ tail) (length (log_bytes c log)) (replay_log wm log res) =
        Inr (if n < 8 then replay_log wm log res
             else (replay_log wm log res)\<lparr>rr_torn_write_detected := True\<rparr>)"
      unfolding t(3) by (rule recover_loop_torn [OF t(1,2) refl])
    moreover have "length tail = n" using t(2,3) by simp
    ultimately show ?thesis by (simp add: step Let_def)
  qed
qed

text \<open>A segment on disk: its number, its whole frames and a possible torn tail.\<close>

type_synonym segment = "u64 \<times> wal_log \<times> bytes"

definition segment_ok :: "'z wal_crates_scheme \<Rightarrow> segment \<Rightarrow> bool" where
  "segment_ok c s \<longleftrightarrow>
     (\<forall>e \<in> set (fst (snd s)). entry_fits c e) \<and> (torn_tail c (snd (snd s)) \<or> snd (snd s) = [])"

definition segment_bytes :: "'z wal_crates_scheme \<Rightarrow> segment \<Rightarrow> bytes" where
  "segment_bytes c s = log_bytes c (fst (snd s)) @ snd (snd s)"

text \<open>The directory holds exactly these segments, in ascending order.\<close>

definition dir_holds :: "'z wal_crates_scheme \<Rightarrow> fs \<Rightarrow> path \<Rightarrow> segment list \<Rightarrow> bool" where
  "dir_holds c files dir segs \<longleftrightarrow>
     sorted_wrt (<) (map fst segs) \<and>
     (\<forall>s \<in> set segs. files (segment_path dir (fst s)) = Some (segment_bytes c s)) \<and>
     (\<forall>n. files (join dir n) \<noteq> None \<longrightarrow> path_extension n = Some ''wal'' \<longrightarrow> n \<in> segment_name ` fst ` set segs)"

lemma get_wal_files_holds:
  assumes "dir_holds c files dir segs" "lists_dir files dir names"
  shows "get_wal_files all_read dir names = Inr (map (segment_path dir) (map fst segs))"
proof -
  let ?ns = "filter (\<lambda>n. path_extension n = Some ''wal'') names"
  let ?ss = "map segment_name (map fst segs)"
  have "sorted_wrt (<) ?ss"
    using assms(1) by (simp add: dir_holds_def sorted_wrt_map segment_name_less)
  then have ss: "sorted ?ss" "distinct ?ss" by (simp_all add: strict_sorted_iff)
  have "set ?ns = set ?ss"
  proof
    show "set ?ns \<subseteq> set ?ss" using assms by (auto simp: dir_holds_def lists_dir_def)
    show "set ?ss \<subseteq> set ?ns"
      using assms by (force simp: dir_holds_def lists_dir_def segment_path_def)
  qed
  moreover have "distinct ?ns" using assms(2) by (simp add: lists_dir_def)
  ultimately have "sort ?ns = ?ss"
    using ss by (intro sorted_distinct_set_unique) simp_all
  then show ?thesis by (simp add: get_wal_files_def segment_path_def)
qed

text \<open>What a replay of these segments returns.\<close>

definition replay_segments :: "u64 \<Rightarrow> segment list \<Rightarrow> recovery_result \<Rightarrow> recovery_result" where
  "replay_segments wm segs res =
     fold (\<lambda>(n, log, tail) r.
        let r1 = replay_log wm log r;
            r2 = (if length tail < 8 then r1 else r1\<lparr>rr_torn_write_detected := True\<rparr>)
        in r2\<lparr>rr_segments_replayed := rr_segments_replayed r2 + 1\<rparr>) segs res"

lemma recover_files_segments:
  assumes "prost_lossless c"
  shows "\<forall>s \<in> set segs. segment_ok c s \<and> files (segment_path dir (fst s)) = Some (segment_bytes c s) \<Longrightarrow>
    recover_files c wm all_read files (map (segment_path dir) (map fst segs)) res =
      Inr (replay_segments wm segs res)"
proof (induction segs arbitrary: res)
  case Nil
  then show ?case by (simp add: replay_segments_def)
next
  case (Cons s segs)
  obtain n log tail where s: "s = (n, log, tail)" by (cases s)
  have ok: "\<forall>e \<in> set log. entry_fits c e" "torn_tail c tail \<or> tail = []"
    "files (segment_path dir n) = Some (log_bytes c log @ tail)"
    using Cons.prems by (simp_all add: s segment_ok_def segment_bytes_def)
  show ?case
    using Cons.IH Cons.prems recover_loop_segment [OF assms ok(1,2)]
    by (simp add: s ok(3) read_file_def replay_segments_def Let_def)
qed

lemma recover_holds:
  assumes "prost_lossless c" "dir_holds c files dir segs" "\<forall>s \<in> set segs. segment_ok c s"
    "lists_dir files dir names"
  shows "recover c all_read files dir names wm = Inr (replay_segments wm segs rr_init)"
  unfolding recover_def get_wal_files_holds [OF assms(2,4)] rbind.simps
  using assms by (intro recover_files_segments) (simp_all add: dir_holds_def)


subsection \<open>The fields of a replay\<close>

text \<open>The entries of the segments in order, and those above a watermark.\<close>

definition segs_log :: "segment list \<Rightarrow> wal_log" where
  "segs_log segs = concat (map (\<lambda>s. fst (snd s)) segs)"

definition above :: "u64 \<Rightarrow> wal_log \<Rightarrow> wal_log" where
  "above wm log = filter (\<lambda>e. wm < fst e) log"

lemma above_append [simp]: "above wm (l1 @ l2) = above wm l1 @ above wm l2"
  by (simp add: above_def)

lemma replay_log_fields:
  "rr_points (replay_log wm log res) = rr_points res @ concat (map snd (above wm log))"
  "rr_last_sequence (replay_log wm log res) = foldl max (rr_last_sequence res) (map fst (above wm log))"
  "rr_entries_replayed (replay_log wm log res) = rr_entries_replayed res + word_of_nat (length (above wm log))"
  "rr_segments_replayed (replay_log wm log res) = rr_segments_replayed res"
  "rr_torn_write_detected (replay_log wm log res) = rr_torn_write_detected res"
  by (induction log arbitrary: res)
    (auto simp: replay_log_def above_def replay_entry_def wal_entry_of_def comp_def add.assoc
      simp flip: not_le split: if_splits)

lemma replay_segments_fields:
  "rr_points (replay_segments wm segs res) = rr_points res @ concat (map snd (above wm (segs_log segs)))"
  "rr_last_sequence (replay_segments wm segs res) =
     foldl max (rr_last_sequence res) (map fst (above wm (segs_log segs)))"
  "rr_entries_replayed (replay_segments wm segs res) =
     rr_entries_replayed res + word_of_nat (length (above wm (segs_log segs)))"
  "rr_segments_replayed (replay_segments wm segs res) = rr_segments_replayed res + word_of_nat (length segs)"
  "rr_torn_write_detected (replay_segments wm segs res) \<longleftrightarrow>
     rr_torn_write_detected res \<or> (\<exists>s \<in> set segs. 8 \<le> length (snd (snd s)))"
  by (induction segs arbitrary: res)
    (auto simp: replay_segments_def segs_log_def replay_log_fields above_def Let_def add.assoc)


subsection \<open>Frames after a torn one\<close>

text \<open>
  The header of a torn frame with other bytes after it: the replay takes them for the rest of
  the payload and stops there, for want of bytes or at the checksum.
\<close>

definition misread :: "'z wal_crates_scheme \<Rightarrow> u64 \<Rightarrow> data_point list \<Rightarrow> nat \<Rightarrow> bytes \<Rightarrow> bytes" where
  "misread c seq points m rest =
     take (length (encode_to_vec c (wal_entry_of seq points))) (drop 8 (take m (encode_frame c seq points)) @ rest)"

lemma recover_loop_misread:
  assumes "entry_fits c (seq, points)" "8 \<le> m" "cursor = length pre"
    "wal_crc32 c (misread c seq points m rest) \<noteq> wal_crc32 c (encode_to_vec c (wal_entry_of seq points))"
  shows "recover_loop c wm (pre @ take m (encode_frame c seq points) @ rest) cursor res =
    Inr (res\<lparr>rr_torn_write_detected := True\<rparr>)"
proof -
  let ?payload = "encode_to_vec c (wal_entry_of seq points)"
  let ?tail = "take m (encode_frame c seq points) @ rest"
  let ?buf = "pre @ ?tail"
  have len: "unat (word_of_nat (length ?payload) :: u32) = length ?payload"
    using assms(1) unat_len_u32 by (simp only: entry_fits_def fst_conv snd_conv)
  have tail: "?tail = u32_to_le_bytes (word_of_nat (length ?payload)) @ u32_to_le_bytes (wal_crc32 c ?payload) @
      drop 8 ?tail"
    using assms(2) by (simp add: encode_frame_def Let_def)
  have hd: "take 4 (drop cursor ?buf) = u32_to_le_bytes (word_of_nat (length ?payload))"
    "take 4 (drop (cursor + 4) ?buf) = u32_to_le_bytes (wal_crc32 c ?payload)"
    by (subst tail, simp add: assms(3))+
  have "drop 8 ?tail = drop 8 (take m (encode_frame c seq points)) @ rest"
    using assms(2) by (simp add: length_encode_frame)
  then have payload: "take (length ?payload) (drop (cursor + 8) ?buf) = misread c seq points m rest"
    by (simp add: misread_def assms(3))
  have "cursor + 8 \<le> length ?buf" using assms(2) by (simp add: length_encode_frame assms(3))
  then show ?thesis
    unfolding recover_loop.simps [of c wm ?buf cursor] hd u32_le_roundtrip rbind.simps Let_def len payload
    using assms(4) by auto
qed

lemma recover_files_append:
  "recover_files c wm rd files (ps @ qs) res =
     rbind (recover_files c wm rd files ps res) (\<lambda>r. recover_files c wm rd files qs r)"
proof (induction ps arbitrary: res)
  case (Cons p ps)
  then show ?case
    by (cases "if rd p then read_file files p else Inl IoError"; cases "recover_loop c wm (projr (read_file files p)) 0 res")
      (auto split: if_splits)
qed simp

lemma recover_misread:
  assumes "prost_lossless c" "dir_holds c files dir (segs @ [(n, log, take m (encode_frame c seq points) @ rest)])"
    "\<forall>s \<in> set segs. segment_ok c s" "\<forall>e \<in> set log. entry_fits c e" "lists_dir files dir names"
    "entry_fits c (seq, points)" "8 \<le> m"
    "wal_crc32 c (misread c seq points m rest) \<noteq> wal_crc32 c (encode_to_vec c (wal_entry_of seq points))"
  shows "\<exists>res. recover c all_read files dir names wm = Inr res \<and>
    rr_points res = concat (map snd (above wm (segs_log segs @ log))) \<and> rr_torn_write_detected res"
proof -
  let ?last = "(n, log, take m (encode_frame c seq points) @ rest)"
  let ?r = "replay_segments wm segs rr_init"
  have files: "\<forall>s \<in> set (segs @ [?last]). files (segment_path dir (fst s)) = Some (segment_bytes c s)"
    using assms(2) unfolding dir_holds_def by blast
  then have front: "recover_files c wm all_read files (map (segment_path dir) (map fst segs)) rr_init = Inr ?r"
    using assms(3) by (intro recover_files_segments [OF assms(1)]) auto
  have "read_file files (segment_path dir n) = Inr (log_bytes c log @ take m (encode_frame c seq points) @ rest)"
    using files by (simp add: read_file_def segment_bytes_def)
  moreover have "recover_loop c wm (log_bytes c log @ take m (encode_frame c seq points) @ rest) 0 ?r =
      Inr ((replay_log wm log ?r)\<lparr>rr_torn_write_detected := True\<rparr>)"
    using recover_loop_log [OF assms(1,4), of 0 "[]" wm _ ?r]
      recover_loop_misread [OF assms(6,7) refl assms(8), of wm "log_bytes c log"] by simp
  ultimately show ?thesis
    unfolding recover_def get_wal_files_holds [OF assms(2,5)]
    by (simp add: recover_files_append front [unfolded map_map] replay_log_fields replay_segments_fields)
      (simp add: rr_init_def)
qed


subsection \<open>Properties\<close>

text \<open>
  C40.  Segment files sort by name in the order of their numbers, and the writer finds the
  highest number back from the names.
\<close>

theorem segment_names_faithful:
  "(segment_name a < segment_name b \<longleftrightarrow> a < b) \<and>
   parse_u64 (trim_end_wal (segment_name a)) = Some a \<and>
   highest_segment_number (map segment_name (a # ns)) = Some (Max (insert a (set ns)))"
  by (simp add: segment_name_less parse_segment_name highest_segment_number_segments del: list.map)

text \<open>
  C16.  When the directory and its files can be read, recovery returns exactly the points of
  the log entries above the watermark, in the order they were appended over all segments, and
  nothing of a torn last frame of a segment; the torn-write flag is set when eight or more bytes
  of a torn frame are there. A torn frame ends the replay of its own segment only: the later
  segments are replayed, although the documentation says that the replay stops.
\<close>

theorem wal_recovery_exact:
  assumes "prost_lossless c" "dir_holds c files dir segs" "\<forall>s \<in> set segs. segment_ok c s"
    "lists_dir files dir names"
  shows "\<exists>res. recover c all_read files dir names wm = Inr res \<and>
    rr_points res = concat (map snd (above wm (segs_log segs))) \<and>
    rr_last_sequence res = foldl max 0 (map fst (above wm (segs_log segs))) \<and>
    rr_segments_replayed res = word_of_nat (length segs) \<and>
    (rr_torn_write_detected res \<longleftrightarrow> (\<exists>s \<in> set segs. 8 \<le> length (snd (snd s))))"
  using recover_holds [OF assms, of wm]
  by (simp add: replay_segments_fields) (simp add: rr_init_def)

text \<open>A directory with one segment of two entries.\<close>

abbreviation example_point :: "u64 \<Rightarrow> data_point" where
  "example_point t \<equiv> \<lparr>dp_metric_name = ''m'', dp_tags = [], dp_timestamp_ns = I64 t, dp_value = F64 0\<rparr>"

abbreviation example_segs :: "segment list" where
  "example_segs \<equiv> [(1, [(1, [example_point 5]), (2, [example_point 6])], [])]"

abbreviation example_files :: fs where
  "example_files \<equiv> [segment_path [''wal''] 1 \<mapsto> segment_bytes plain_wal (hd example_segs)]"

lemma example_point_ok: "point_type_ok (example_point t)"
  by (simp add: point_type_ok_def key_type_ok_def str_ok_def as_bytes_def byte_of_char_def utf8_ascii_def)

lemma example_entry_fits: "entry_fits plain_wal (seq, [example_point t])"
  by (simp add: entry_fits_def example_point_ok plain_wal_def wal_entry_of_def put_entry_def put_list_def
      wal_of_point_def put_point_def put_str_def)

lemma example_lists: "lists_dir example_files [''wal''] [segment_name 1]"
  by (auto simp: lists_dir_def segment_path_def)

theorem wal_recovery_exact_witness:
  "\<exists>res. recover plain_wal all_read example_files [''wal''] [segment_name 1] 1 = Inr res \<and>
     rr_points res = [example_point 6] \<and> rr_last_sequence res = 2"
proof -
  have "dir_holds plain_wal example_files [''wal''] example_segs"
    by (auto simp: dir_holds_def segment_path_def)
  moreover have "\<forall>s \<in> set example_segs. segment_ok plain_wal s"
    by (simp add: segment_ok_def example_entry_fits)
  ultimately show ?thesis
    using wal_recovery_exact [OF plain_wal_lossless _ _ example_lists, of example_segs 1]
    by (auto simp: above_def segs_log_def max_def)
qed

end
