(* ===== verification/Group_Commit.thy ===== *)
theory Group_Commit
  imports Wal_Recovery
begin

section \<open>Write-ahead log: group commit (wal/group_commit.rs)\<close>

text \<open>
  One background task per shard owns the segment writer. It takes a batch of messages off its
  channel, writes all frames with one write and one fsync, publishes the last sequence and
  answers each message on its reply channel (a number here). Failures of the write and of
  the two possible rotations are arguments.
\<close>

subsection \<open>Messages and task state\<close>

datatype wal_message =
    Append "data_point list" nat
  | Rotate nat
  | DrainBefore u64 nat

datatype wal_reply =
    SeqReply "u64 result"
  | PathsReply "path list result"

record wal_task =
  wt_writer :: wal_writer
  wt_last_seq :: u64

text \<open>
  \<open>WalSender::spawn\<close>: the published sequence starts at the writer's. Creating the bounded
  channel panics for the capacity zero and above the permits of its semaphore,
  \<open>usize::MAX >> 3\<close>; \<open>None\<close> stands for the panic.
\<close>

definition new_task :: "wal_writer \<Rightarrow> wal_task" where
  "new_task w = \<lparr>wt_writer = w, wt_last_seq = ww_current_seq w\<rparr>"

definition channel_ok :: "usize \<Rightarrow> bool" where
  "channel_ok capacity \<longleftrightarrow> 0 < capacity \<and> capacity \<le> 0x1FFFFFFFFFFFFFFF"

definition wt_spawn :: "usize \<Rightarrow> wal_writer \<Rightarrow> wal_task option" where
  "wt_spawn capacity w = (if channel_ok capacity then Some (new_task w) else None)"

definition wt_current_sequence :: "wal_task \<Rightarrow> u64" where
  "wt_current_sequence t = wt_last_seq t"


subsection \<open>Gathering a batch\<close>

record batch =
  b_current_seq :: u64
  b_frames :: bytes
  b_seqs :: "u64 list"
  b_replies :: "nat list"
  b_rotate_reply :: "nat option"
  b_drain_replies :: "(u64 \<times> nat) list"
  b_sent :: "(nat \<times> wal_reply) list"

definition batch_init :: "u64 \<Rightarrow> batch" where
  "batch_init seq =
     \<lparr>b_current_seq = seq, b_frames = [], b_seqs = [], b_replies = [], b_rotate_reply = None,
      b_drain_replies = [], b_sent = []\<rparr>"

fun gather_msg :: "'z wal_crates_scheme \<Rightarrow> wal_message \<Rightarrow> batch \<Rightarrow> batch" where
  "gather_msg c (Append points reply) b =
     (let seq = b_current_seq b + 1
      in b\<lparr>b_current_seq := seq, b_frames := b_frames b @ encode_frame c seq points,
           b_seqs := b_seqs b @ [seq], b_replies := b_replies b @ [reply]\<rparr>)"
| "gather_msg c (Rotate reply) b =
     (case b_rotate_reply b of
        None \<Rightarrow> b\<lparr>b_rotate_reply := Some reply\<rparr>
      | Some _ \<Rightarrow> b\<lparr>b_sent := b_sent b @ [(reply, PathsReply (Inl ConcurrentRotate))]\<rparr>)"
| "gather_msg c (DrainBefore seq reply) b =
     b\<lparr>b_drain_replies := b_drain_replies b @ [(seq, reply)]\<rparr>"

definition gather :: "'z wal_crates_scheme \<Rightarrow> wal_message list \<Rightarrow> u64 \<Rightarrow> batch" where
  "gather c msgs seq = fold (gather_msg c) msgs (batch_init seq)"


subsection \<open>Committing a batch\<close>

text \<open>The environment of one batch: its write, and the opens of the two rotations.\<close>

record batch_env =
  be_write :: write_outcome
  be_auto_rotate :: bool
  be_explicit_rotate :: bool

definition auto_rotate :: "bool \<Rightarrow> wal_writer \<Rightarrow> fs \<Rightarrow> wal_writer \<times> fs" where
  "auto_rotate ok w files =
     (if ww_max_segment_bytes w \<le> ww_current_size w
      then case ww_rotate ok w files of (w', files', _) \<Rightarrow> (w', files')
      else (w, files))"

definition drain_requests ::
    "(u64 \<times> nat) list \<Rightarrow> wal_writer \<Rightarrow> wal_writer \<times> (nat \<times> wal_reply) list" where
  "drain_requests drains w =
     (if drains = [] then (w, [])
      else let max_seq = foldl max 0 (map fst drains);
               (w', paths) = drain_completed_before max_seq w
           in (w', map (\<lambda>(_, reply). (reply, PathsReply (Inr paths))) drains))"

definition rotate_request ::
    "bool \<Rightarrow> nat option \<Rightarrow> wal_writer \<Rightarrow> fs \<Rightarrow> wal_writer \<times> fs \<times> (nat \<times> wal_reply) list" where
  "rotate_request ok r w files =
     (case r of
        None \<Rightarrow> (w, files, [])
      | Some reply \<Rightarrow>
          (case ww_rotate ok w files of
             (w', files', Inl e) \<Rightarrow> (w', files', [(reply, PathsReply (Inl e))])
           | (w', files', Inr _) \<Rightarrow>
               (case drain_completed_before U64_MAX w' of
                  (w'', paths) \<Rightarrow> (w'', files', [(reply, PathsReply (Inr paths))]))))"

definition commit_failed ::
    "batch \<Rightarrow> nat \<Rightarrow> wal_task \<Rightarrow> fs \<Rightarrow> wal_task \<times> fs \<times> (nat \<times> wal_reply) list" where
  "commit_failed b n t files =
     (t\<lparr>wt_writer := (wt_writer t)\<lparr>ww_current_seq := b_current_seq b\<rparr>\<rparr>,
      fs_append (ww_file (wt_writer t)) (take n (b_frames b)) files,
      b_sent b @
      map (\<lambda>reply. (reply, SeqReply (Inl IoError))) (b_replies b) @
      map (\<lambda>(_, reply). (reply, PathsReply (Inl WalWriteFailed))) (b_drain_replies b) @
      (case b_rotate_reply b of None \<Rightarrow> [] | Some reply \<Rightarrow> [(reply, PathsReply (Inl WalWriteFailed))]))"

definition commit_ok ::
    "batch_env \<Rightarrow> batch \<Rightarrow> wal_task \<Rightarrow> fs \<Rightarrow> wal_task \<times> fs \<times> (nat \<times> wal_reply) list" where
  "commit_ok env b t files =
     (let w = wt_writer t;
          w1 = w\<lparr>ww_current_seq := b_current_seq b,
                 ww_current_size := ww_current_size w + word_of_nat (length (b_frames b))\<rparr>;
          files1 = (if b_frames b = [] then files else fs_append (ww_file w) (b_frames b) files);
          last_seq = (if b_seqs b = [] then wt_last_seq t else last (b_seqs b));
          appended = map (\<lambda>(seq, reply). (reply, SeqReply (Inr seq))) (zip (b_seqs b) (b_replies b));
          (w2, files2) = auto_rotate (be_auto_rotate env) w1 files1;
          (w3, drained) = drain_requests (b_drain_replies b) w2;
          (w4, files4, rotated) = rotate_request (be_explicit_rotate env) (b_rotate_reply b) w3 files2
      in (\<lparr>wt_writer = w4, wt_last_seq = last_seq\<rparr>, files4, b_sent b @ appended @ drained @ rotated))"

definition wal_batch ::
    "'z wal_crates_scheme \<Rightarrow> batch_env \<Rightarrow> wal_message list \<Rightarrow> wal_task \<Rightarrow> fs \<Rightarrow>
     wal_task \<times> fs \<times> (nat \<times> wal_reply) list" where
  "wal_batch c env msgs t files =
     (let b = gather c msgs (ww_current_seq (wt_writer t))
      in case (if b_frames b = [] then WriteOk else be_write env) of
           WriteFail n \<Rightarrow> commit_failed b n t files
         | WriteOk \<Rightarrow> commit_ok env b t files)"

text \<open>
  Taking a batch: the first message, then whatever is queued (\<open>k\<close> messages at this moment) up
  to \<open>max_batch\<close>.
\<close>

definition take_batch :: "nat \<Rightarrow> nat \<Rightarrow> wal_message list \<Rightarrow> (wal_message list \<times> wal_message list) option" where
  "take_batch max_batch k queue =
     (case queue of
        [] \<Rightarrow> None
      | msg # rest \<Rightarrow>
          (let n = min k (max_batch - 1) in Some (msg # take n rest, drop n rest)))"

text \<open>The task's loop on a finite queue, one environment per batch.\<close>

fun wal_task_run ::
    "'z wal_crates_scheme \<Rightarrow> nat \<Rightarrow> (nat \<times> batch_env) list \<Rightarrow> wal_message list \<Rightarrow> wal_task \<Rightarrow> fs \<Rightarrow>
     wal_task \<times> fs \<times> (nat \<times> wal_reply) list" where
  "wal_task_run c max_batch [] queue t files = (t, files, [])"
| "wal_task_run c max_batch ((k, env) # envs) queue t files =
     (case take_batch max_batch k queue of
        None \<Rightarrow> (t, files, [])
      | Some (msgs, rest) \<Rightarrow>
          (case wal_batch c env msgs t files of
             (t1, files1, sent) \<Rightarrow>
               (case wal_task_run c max_batch envs rest t1 files1 of
                  (t2, files2, sent2) \<Rightarrow> (t2, files2, sent @ sent2))))"

end
