(* ===== verification/Wal_Durability.thy ===== *)
theory Wal_Durability
  imports Group_Commit
begin

section \<open>Durability of the log of a shard\<close>

text \<open>
  What the batches of the group-commit task leave on disk, as an invariant between the task,
  the directory and the log of acknowledged entries: above the largest sequence ever given to
  garbage collection, recovery finds exactly the acknowledged entries. Crashes in the middle
  of a batch and the failure cases of the code are at the end.
\<close>

subsection \<open>What a batch gathers\<close>

fun batch_log :: "u64 \<Rightarrow> wal_message list \<Rightarrow> wal_log" where
  "batch_log seq [] = []"
| "batch_log seq (Append points reply # msgs) = (seq + 1, points) # batch_log (seq + 1) msgs"
| "batch_log seq (Rotate reply # msgs) = batch_log seq msgs"
| "batch_log seq (DrainBefore s reply # msgs) = batch_log seq msgs"

fun append_replies :: "wal_message list \<Rightarrow> nat list" where
  "append_replies [] = []"
| "append_replies (Append points reply # msgs) = reply # append_replies msgs"
| "append_replies (Rotate reply # msgs) = append_replies msgs"
| "append_replies (DrainBefore s reply # msgs) = append_replies msgs"

fun drains_of :: "wal_message list \<Rightarrow> (u64 \<times> nat) list" where
  "drains_of [] = []"
| "drains_of (Append points reply # msgs) = drains_of msgs"
| "drains_of (Rotate reply # msgs) = drains_of msgs"
| "drains_of (DrainBefore s reply # msgs) = (s, reply) # drains_of msgs"

fun rotates_of :: "wal_message list \<Rightarrow> nat list" where
  "rotates_of [] = []"
| "rotates_of (Append points reply # msgs) = rotates_of msgs"
| "rotates_of (Rotate reply # msgs) = reply # rotates_of msgs"
| "rotates_of (DrainBefore s reply # msgs) = rotates_of msgs"

lemma fold_gather:
  "b_current_seq (fold (gather_msg c) msgs b) = b_current_seq b + word_of_nat (length (append_replies msgs)) \<and>
   b_frames (fold (gather_msg c) msgs b) = b_frames b @ log_bytes c (batch_log (b_current_seq b) msgs) \<and>
   b_seqs (fold (gather_msg c) msgs b) = b_seqs b @ map fst (batch_log (b_current_seq b) msgs) \<and>
   b_replies (fold (gather_msg c) msgs b) = b_replies b @ append_replies msgs \<and>
   b_drain_replies (fold (gather_msg c) msgs b) = b_drain_replies b @ drains_of msgs \<and>
   b_rotate_reply (fold (gather_msg c) msgs b) =
     (case b_rotate_reply b of Some r \<Rightarrow> Some r
      | None \<Rightarrow> (case rotates_of msgs of [] \<Rightarrow> None | r # _ \<Rightarrow> Some r))"
proof (induction msgs arbitrary: b)
  case Nil
  then show ?case by (simp split: option.splits)
next
  case (Cons m msgs)
  show ?case
    by (cases m) (simp_all add: Cons.IH Let_def add.assoc split: option.splits)
qed

lemma gather_fields [simp]:
  "b_current_seq (gather c msgs seq) = seq + word_of_nat (length (append_replies msgs))"
  "b_frames (gather c msgs seq) = log_bytes c (batch_log seq msgs)"
  "b_seqs (gather c msgs seq) = map fst (batch_log seq msgs)"
  "b_replies (gather c msgs seq) = append_replies msgs"
  "b_drain_replies (gather c msgs seq) = drains_of msgs"
  "b_rotate_reply (gather c msgs seq) = (case rotates_of msgs of [] \<Rightarrow> None | r # _ \<Rightarrow> Some r)"
  using fold_gather [of c msgs "batch_init seq"] by (simp_all add: gather_def batch_init_def)

lemma length_batch_log [simp]: "length (batch_log seq msgs) = length (append_replies msgs)"
  by (induction seq msgs rule: batch_log.induct) auto

text \<open>Sequence numbers are consecutive.\<close>

lemma batch_log_seqs:
  "map fst (batch_log seq msgs) = map (\<lambda>i. seq + word_of_nat (Suc i)) [0..<length (append_replies msgs)]"
proof (induction seq msgs rule: batch_log.induct)
  case (2 seq points reply msgs)
  have "map (\<lambda>i. seq + word_of_nat (Suc i)) [0..<Suc n] =
      (seq + 1) # map (\<lambda>i. seq + 1 + word_of_nat (Suc i)) [0..<n]" for n
    by (simp add: map_upt_Suc add.assoc del: upt_Suc)
  with 2 show ?case by simp
qed auto

lemma batch_log_bound:
  assumes "e \<in> set (batch_log seq msgs)" "unat seq + length (append_replies msgs) < 2 ^ 64"
  shows "seq < fst e" "fst e \<le> seq + word_of_nat (length (append_replies msgs))"
proof -
  let ?n = "length (append_replies msgs)"
  have "fst e \<in> set (map fst (batch_log seq msgs))" using assms(1) by simp
  then obtain i where i: "i < ?n" "fst e = seq + word_of_nat (Suc i)"
    unfolding batch_log_seqs by auto
  have u: "unat (seq + word_of_nat k) = unat seq + k" if "k \<le> ?n" for k
  proof -
    have "unat (word_of_nat k :: u64) = k" using that assms(2) by (simp add: unat_of_nat)
    moreover have "unat seq + k < 2 ^ 64" using that assms(2) by simp
    ultimately show ?thesis by (simp add: unat_word_ariths)
  qed
  have "unat (fst e) = unat seq + Suc i" unfolding i(2) using i(1) by (intro u) simp
  with i u [of ?n] show "seq < fst e" "fst e \<le> seq + word_of_nat ?n"
    by (simp_all add: word_less_nat_alt word_le_nat_alt)
qed


subsection \<open>The invariant\<close>

text \<open>
  \<open>acked\<close> is the log of acknowledged entries, \<open>gc\<close> the largest sequence given to garbage
  collection, \<open>pend\<close> the segment files handed out for deletion and not yet deleted.
\<close>

record wal_state =
  ws_writer :: wal_writer
  ws_files :: fs
  ws_acked :: wal_log
  ws_gc :: u64
  ws_pend :: "path set"
  ws_last_seq :: u64

abbreviation ws_dir :: "wal_state \<Rightarrow> path" where
  "ws_dir s \<equiv> ww_wal_dir (ws_writer s)"

abbreviation seg_entries :: "segment \<Rightarrow> wal_log" where
  "seg_entries g \<equiv> fst (snd g)"

definition seg_below :: "segment list \<Rightarrow> u64 \<Rightarrow> u64 \<Rightarrow> bool" where
  "seg_below segs n m \<longleftrightarrow> (\<forall>g \<in> set segs. fst g = n \<longrightarrow> (\<forall>e \<in> set (seg_entries g). fst e \<le> m))"

text \<open>The segments on disk: closed ones and the current one, which has no torn tail.\<close>

abbreviation segs_of :: "wal_writer \<Rightarrow> segment list \<Rightarrow> wal_log \<Rightarrow> segment list" where
  "segs_of w gs log \<equiv> gs @ [(ww_current_segment w, log, [])]"

definition wal_layout ::
    "'z wal_crates_scheme \<Rightarrow> wal_writer \<Rightarrow> fs \<Rightarrow> segment list \<Rightarrow> wal_log \<Rightarrow> bool" where
  "wal_layout c w files gs log \<longleftrightarrow>
     dir_holds c files (ww_wal_dir w) (segs_of w gs log) \<and>
     (\<forall>g \<in> set gs. segment_ok c g) \<and> (\<forall>e \<in> set log. entry_fits c e) \<and>
     ww_file w = segment_path (ww_wal_dir w) (ww_current_segment w)"

definition wal_seqs :: "wal_writer \<Rightarrow> segment list \<Rightarrow> u64 \<Rightarrow> bool" where
  "wal_seqs w segs gc \<longleftrightarrow> (\<forall>e \<in> set (segs_log segs). fst e \<le> max (ww_current_seq w) gc)"

definition wal_completed :: "wal_writer \<Rightarrow> segment list \<Rightarrow> u64 \<Rightarrow> bool" where
  "wal_completed w segs gc \<longleftrightarrow>
     (\<forall>x \<in> set (ww_completed_segments w).
        fst x < ww_current_segment w \<and> seg_below segs (fst x) (max (snd x) gc))"

definition wal_pending :: "wal_writer \<Rightarrow> segment list \<Rightarrow> u64 \<Rightarrow> path set \<Rightarrow> bool" where
  "wal_pending w segs gc pend \<longleftrightarrow>
     (\<forall>p \<in> pend. \<exists>n. p = segment_path (ww_wal_dir w) n \<and> n < ww_current_segment w \<and> seg_below segs n gc)"

definition wal_disk ::
    "'z wal_crates_scheme \<Rightarrow> wal_writer \<Rightarrow> fs \<Rightarrow> wal_log \<Rightarrow> u64 \<Rightarrow> path set \<Rightarrow> segment list \<Rightarrow> wal_log \<Rightarrow> bool" where
  "wal_disk c w files acked gc pend gs log \<longleftrightarrow>
     wal_layout c w files gs log \<and> wal_seqs w (segs_of w gs log) gc \<and>
     above gc (segs_log (segs_of w gs log)) = above gc acked \<and>
     wal_completed w (segs_of w gs log) gc \<and> wal_pending w (segs_of w gs log) gc pend"

definition wal_inv :: "'z wal_crates_scheme \<Rightarrow> wal_state \<Rightarrow> bool" where
  "wal_inv c s \<longleftrightarrow>
     (\<exists>gs log. wal_disk c (ws_writer s) (ws_files s) (ws_acked s) (ws_gc s) (ws_pend s) gs log) \<and>
     ws_last_seq s = ww_current_seq (ws_writer s)"

lemma above_above: "gc \<le> wm \<Longrightarrow> above wm (above gc l) = above wm l"
  by (auto simp: above_def intro: filter_cong)

lemma above_eq_mono: "above gc l = above gc l' \<Longrightarrow> gc \<le> wm \<Longrightarrow> above wm l = above wm l'"
  using above_above [of gc wm l] above_above [of gc wm l'] by simp

lemma segs_log_snoc: "segs_log (gs @ [g]) = segs_log gs @ seg_entries g"
  by (simp add: segs_log_def)

lemma set_segs_log: "set (segs_log segs) = (\<Union>g \<in> set segs. set (seg_entries g))"
  by (simp add: segs_log_def)

lemma dir_holds_distinct: "dir_holds c files dir segs \<Longrightarrow> distinct (map fst segs)"
  by (simp add: dir_holds_def strict_sorted_iff)

lemma dir_holds_last:
  assumes "dir_holds c files dir (gs @ [g])" "h \<in> set gs"
  shows "fst h < fst g"
  using assms by (force simp: dir_holds_def sorted_wrt_append)

lemma segment_path_not_other:
  "files' = files(segment_path dir n := v) \<Longrightarrow> m \<noteq> n \<Longrightarrow>
   files' (segment_path dir m) = files (segment_path dir m)"
  by simp

text \<open>Appending whole frames to the current segment.\<close>

lemma dir_holds_append:
  assumes "dir_holds c files dir (gs @ [(n, log, [])])"
  shows "dir_holds c (fs_append (segment_path dir n) (log_bytes c new @ tail) files) dir
    (gs @ [(n, log @ new, tail)])"
proof -
  have old: "files (segment_path dir n) = Some (log_bytes c log)"
    using assms by (simp add: dir_holds_def segment_bytes_def)
  have ne: "fst h \<noteq> n" if "h \<in> set gs" for h
    using dir_holds_last [OF assms that] by auto
  have "fs_append (segment_path dir n) (log_bytes c new @ tail) files =
      files(segment_path dir n \<mapsto> log_bytes c (log @ new) @ tail)"
    by (simp add: fs_append_def old)
  then show ?thesis
    using assms ne by (auto simp: dir_holds_def segment_bytes_def segment_path_def)
qed

lemma seg_below_other:
  "seg_below (gs @ [(n, log, tail)]) k m \<Longrightarrow> k < n \<Longrightarrow> seg_below (gs @ [(n, log', tail')]) k m"
  by (auto simp: seg_below_def)

lemma wal_disk_append:
  assumes inv: "wal_disk c w files acked gc pend gs log" and fits: "\<forall>e \<in> set new. entry_fits c e"
    and seqs: "\<forall>e \<in> set new. fst e \<le> seq" "ww_current_seq w \<le> seq"
  shows "wal_disk c (w\<lparr>ww_current_seq := seq, ww_current_size := sz\<rparr>)
    (fs_append (ww_file w) (log_bytes c new) files) (acked @ new) gc pend gs (log @ new)"
proof -
  have lay: "wal_layout c w files gs log" using inv by (simp add: wal_disk_def)
  then have "wal_layout c (w\<lparr>ww_current_seq := seq, ww_current_size := sz\<rparr>)
      (fs_append (ww_file w) (log_bytes c new) files) gs (log @ new)"
    using dir_holds_append [of c "files" "ww_wal_dir w" gs "ww_current_segment w" log new "[]"] fits
    by (auto simp: wal_layout_def)
  moreover have "wal_seqs (w\<lparr>ww_current_seq := seq, ww_current_size := sz\<rparr>) (segs_of w gs (log @ new)) gc"
    using inv seqs by (force simp: wal_disk_def wal_seqs_def segs_log_snoc le_max_iff_disj)
  moreover have "wal_completed (w\<lparr>ww_current_seq := seq, ww_current_size := sz\<rparr>) (segs_of w gs (log @ new)) gc"
    using inv by (fastforce simp: wal_disk_def wal_completed_def intro: seg_below_other)
  moreover have "wal_pending (w\<lparr>ww_current_seq := seq, ww_current_size := sz\<rparr>) (segs_of w gs (log @ new))
      gc pend"
    using inv by (fastforce simp: wal_disk_def wal_pending_def intro: seg_below_other)
  ultimately show ?thesis
    using inv by (simp add: wal_disk_def segs_log_snoc)
qed


text \<open>Rotating to a fresh segment.\<close>

lemma dir_holds_fresh:
  assumes "dir_holds c files dir segs" "\<forall>g \<in> set segs. fst g < n"
  shows "files (segment_path dir n) = None"
    "dir_holds c (fs_open_append (segment_path dir n) files) dir (segs @ [(n, [], [])])"
proof -
  show none: "files (segment_path dir n) = None"
  proof (rule ccontr)
    assume "\<not> ?thesis"
    then have "segment_name n \<in> segment_name ` fst ` set segs"
      using assms(1) unfolding dir_holds_def segment_path_def by (metis path_extension_segment)
    with assms(2) show False by auto
  qed
  have open_eq: "fs_open_append (segment_path dir n) files = files(segment_path dir n \<mapsto> [])"
    by (simp add: fs_open_append_def none)
  show "dir_holds c (fs_open_append (segment_path dir n) files) dir (segs @ [(n, [], [])])"
    using assms unfolding open_eq
    by (auto simp: dir_holds_def sorted_wrt_append segment_bytes_def segment_path_def)
qed

lemma dir_holds_current:
  assumes "dir_holds c files dir (segs_of w gs log)" "g \<in> set (segs_of w gs log)"
  shows "fst g \<le> ww_current_segment w"
  using assms(2) dir_holds_last [OF assms(1), of g] by (cases "g \<in> set gs") auto

lemma wal_disk_rotate:
  assumes inv: "wal_disk c w files acked gc pend gs log" and room: "unat (ww_current_segment w) + 1 < 2 ^ 64"
    and rot: "ww_rotate True w files = (w', files', r)"
  shows "wal_disk c w' files' acked gc pend (segs_of w gs log) []"
    "ww_current_seq w' = ww_current_seq w" "ww_wal_dir w' = ww_wal_dir w"
    "ww_current_segment w' = ww_current_segment w + 1" "r = Inr ()"
proof -
  let ?segs = "segs_of w gs log"
  let ?n = "ww_current_segment w" and ?dir = "ww_wal_dir w"
  have w': "w' = w\<lparr>ww_completed_segments := ww_completed_segments w @ [(?n, ww_current_seq w)],
      ww_current_segment := ?n + 1, ww_file := segment_path ?dir (?n + 1), ww_current_size := 0\<rparr>"
    and files': "files' = fs_open_append (segment_path ?dir (?n + 1)) files" and r: "r = Inr ()"
    using rot by (auto simp: ww_rotate_def current_segment_path_def Let_def)
  then show "ww_current_seq w' = ww_current_seq w" "ww_wal_dir w' = ?dir"
    "ww_current_segment w' = ?n + 1" "r = Inr ()" by simp_all
  have lt: "?n < ?n + 1"
    using room by (simp add: word_less_nat_alt unat_word_ariths)
  have lay: "wal_layout c w files gs log" using inv by (simp add: wal_disk_def)
  then have holds: "dir_holds c files ?dir ?segs" by (simp add: wal_layout_def)
  have below: "\<forall>g \<in> set ?segs. fst g < ?n + 1"
    using dir_holds_current [OF holds] lt by fastforce
  have lay': "wal_layout c w' files' ?segs []"
    using lay dir_holds_fresh(2) [OF holds below] by (auto simp: wal_layout_def w' files' segment_ok_def)
  have sb: "seg_below (segs_of w' ?segs []) k m" if "seg_below ?segs k m" for k m
    using that by (auto simp: seg_below_def)
  have "seg_below ?segs ?n (max (ww_current_seq w) gc)"
    using inv by (auto simp: wal_disk_def wal_seqs_def seg_below_def set_segs_log)
  then have "wal_completed w' (segs_of w' ?segs []) gc"
    using inv sb lt unfolding wal_disk_def wal_completed_def
    by (auto simp: w' intro: less_trans [OF _ lt])
  moreover have "wal_pending w' (segs_of w' ?segs []) gc pend"
    using inv sb lt unfolding wal_disk_def wal_pending_def
    by (fastforce simp: w' intro: less_trans [OF _ lt])
  moreover have "segs_log (segs_of w' ?segs []) = segs_log ?segs" by (simp add: segs_log_def)
  ultimately show "wal_disk c w' files' acked gc pend ?segs []"
    using inv lay' unfolding wal_disk_def by (simp add: wal_seqs_def w')
qed


text \<open>Handing out closed segments for deletion.\<close>

lemma seg_below_mono: "seg_below segs n m \<Longrightarrow> m \<le> m' \<Longrightarrow> seg_below segs n m'"
  by (auto simp: seg_below_def intro: order_trans)

lemma wal_disk_drain:
  assumes inv: "wal_disk c w files acked gc pend gs log"
    and drain: "drain_completed_before flushed w = (w', paths)"
  shows "wal_disk c w' files acked (max gc flushed) (pend \<union> set paths) gs log"
    "w' = w\<lparr>ww_completed_segments := ww_completed_segments w'\<rparr>"
proof -
  let ?segs = "segs_of w gs log" and ?gc = "max gc flushed"
  have w': "w' = w\<lparr>ww_completed_segments :=
        filter (\<lambda>(seg, m). \<not> m \<le> flushed) (ww_completed_segments w)\<rparr>"
    and paths: "paths = map (\<lambda>(seg, m). segment_path (ww_wal_dir w) seg)
        (filter (\<lambda>(seg, m). m \<le> flushed) (ww_completed_segments w))"
    using drain by (simp_all add: drain_completed_before_def)
  then show "w' = w\<lparr>ww_completed_segments := ww_completed_segments w'\<rparr>" by simp
  have up: "seg_below ?segs n (max m gc) \<Longrightarrow> seg_below ?segs n (max m ?gc)" for n m
    by (erule seg_below_mono) (intro max.mono; simp)
  have comp: "wal_completed w' ?segs ?gc" "wal_completed w ?segs gc"
    using inv up by (auto simp: wal_disk_def wal_completed_def w')
  have "wal_pending w' ?segs ?gc pend"
    using inv by (fastforce simp: wal_disk_def wal_pending_def w' intro: seg_below_mono)
  moreover have "wal_pending w' ?segs ?gc (set paths)"
  proof -
    have "\<exists>n. p = segment_path (ww_wal_dir w) n \<and> n < ww_current_segment w \<and> seg_below ?segs n ?gc"
      if p: "p \<in> set paths" for p
    proof -
      obtain n m where nm: "(n, m) \<in> set (ww_completed_segments w)" "m \<le> flushed"
        "p = segment_path (ww_wal_dir w) n" using p by (auto simp: paths)
      then have "n < ww_current_segment w" "seg_below ?segs n (max m gc)"
        using comp(2) by (auto simp: wal_completed_def)
      moreover have "max m gc \<le> ?gc" using nm(2) by (auto simp: max_def)
      ultimately show ?thesis using nm(3) seg_below_mono by blast
    qed
    then show ?thesis by (simp add: wal_pending_def w')
  qed
  ultimately have "wal_pending w' ?segs ?gc (pend \<union> set paths)"
    by (auto simp: wal_pending_def)
  moreover have "above ?gc (segs_log ?segs) = above ?gc acked"
    using inv by (auto simp: wal_disk_def intro: above_eq_mono)
  moreover have "wal_layout c w' files gs log"
    using inv by (simp add: wal_disk_def wal_layout_def w')
  moreover have "wal_seqs w' ?segs ?gc"
    using inv max.mono [of "ww_current_seq w" "ww_current_seq w" gc ?gc]
    unfolding wal_disk_def wal_seqs_def w' by (auto intro: order_trans)
  ultimately show "wal_disk c w' files acked ?gc (pend \<union> set paths) gs log"
    using comp(1) by (simp add: wal_disk_def w')
qed

text \<open>Deleting one of them.\<close>

lemma dir_holds_delete:
  assumes "dir_holds c files dir segs"
  shows "dir_holds c (files(segment_path dir n := None)) dir (filter (\<lambda>g. fst g \<noteq> n) segs)"
proof -
  let ?segs = "filter (\<lambda>g. fst g \<noteq> n) segs"
  have sorted: "sorted_wrt (<) (map fst ?segs)"
    using assms sorted_wrt_filter [of "(<)" "map fst segs" "\<lambda>k. k \<noteq> n"]
    by (simp add: dir_holds_def filter_map comp_def)
  have kept: "m \<in> segment_name ` fst ` set ?segs"
    if m: "m \<in> segment_name ` fst ` set segs" "m \<noteq> segment_name n" for m
  proof -
    obtain g where "g \<in> set segs" "m = segment_name (fst g)" using m(1) by auto
    with m(2) have "g \<in> set ?segs" by auto
    then show ?thesis using \<open>m = segment_name (fst g)\<close> by (simp only: imageI)
  qed
  have bytes: "\<forall>g \<in> set ?segs. (files(segment_path dir n := None)) (segment_path dir (fst g)) =
      Some (segment_bytes c g)"
    using assms by (simp add: dir_holds_def)
  have names: "m \<in> segment_name ` fst ` set ?segs"
    if "(files(segment_path dir n := None)) (join dir m) \<noteq> None" "path_extension m = Some ''wal''" for m
  proof -
    have "m \<noteq> segment_name n" "files (join dir m) \<noteq> None"
      using that(1) by (auto simp: segment_path_def split: if_splits)
    then show ?thesis using kept that(2) assms by (simp only: dir_holds_def) blast
  qed
  show ?thesis
    unfolding dir_holds_def using sorted bytes names by simp
qed

lemma above_filter_segs:
  assumes "seg_below segs n gc"
  shows "above gc (segs_log (filter (\<lambda>g. fst g \<noteq> n) segs)) = above gc (segs_log segs)"
  using assms
proof (induction segs)
  case Nil
  then show ?case by simp
next
  case (Cons g segs)
  have "above gc (seg_entries g) = []" if "fst g = n"
    using Cons.prems that by (auto simp: seg_below_def above_def filter_empty_conv not_less)
  moreover have "seg_below segs n gc" using Cons.prems by (simp add: seg_below_def)
  ultimately show ?case using Cons.IH by (simp add: segs_log_def)
qed

lemma seg_below_subset: "seg_below segs n m \<Longrightarrow> set segs' \<subseteq> set segs \<Longrightarrow> seg_below segs' n m"
  unfolding seg_below_def by blast

lemma wal_disk_delete:
  assumes inv: "wal_disk c w files acked gc pend gs log" and p: "p \<in> pend"
  shows "\<exists>gs'. wal_disk c w (files(p := None)) acked gc pend gs' log"
proof -
  let ?segs = "segs_of w gs log"
  obtain n where n: "p = segment_path (ww_wal_dir w) n" "n < ww_current_segment w" "seg_below ?segs n gc"
    using inv p by (auto simp: wal_disk_def wal_pending_def)
  let ?gs = "filter (\<lambda>g. fst g \<noteq> n) gs"
  have segs: "segs_of w ?gs log = filter (\<lambda>g. fst g \<noteq> n) ?segs" using n(2) by auto
  have sb: "seg_below (segs_of w ?gs log) k m" if "seg_below ?segs k m" for k m
    using that by (rule seg_below_subset) (auto simp: segs)
  have "wal_layout c w (files(p := None)) ?gs log"
    using inv dir_holds_delete [of c "files" "ww_wal_dir w" ?segs n, folded segs]
    unfolding wal_disk_def wal_layout_def n(1) by simp
  moreover have "wal_seqs w (segs_of w ?gs log) gc"
    using inv by (auto simp: wal_disk_def wal_seqs_def set_segs_log)
  moreover have "above gc (segs_log (segs_of w ?gs log)) = above gc acked"
    using inv above_filter_segs [OF n(3)] by (simp add: wal_disk_def segs)
  moreover have "wal_completed w (segs_of w ?gs log) gc"
    "wal_pending w (segs_of w ?gs log) gc pend"
    using inv sb unfolding wal_disk_def wal_completed_def wal_pending_def by blast+
  ultimately have "wal_disk c w (files(p := None)) acked gc pend ?gs log"
    by (simp add: wal_disk_def)
  then show ?thesis by blast
qed


subsection \<open>A batch that is committed\<close>

definition reply_paths :: "(nat \<times> wal_reply) list \<Rightarrow> path set" where
  "reply_paths sent = {p. \<exists>r ps. (r, PathsReply (Inr ps)) \<in> set sent \<and> p \<in> set ps}"

lemma reply_paths_append [simp]: "reply_paths (a @ b) = reply_paths a \<union> reply_paths b"
  by (auto simp: reply_paths_def)

lemma reply_paths_Nil [simp]: "reply_paths [] = {}"
  by (simp add: reply_paths_def)

lemma b_sent_no_paths: "reply_paths (b_sent b) = {} \<Longrightarrow> reply_paths (b_sent (fold (gather_msg c) msgs b)) = {}"
proof (induction msgs arbitrary: b)
  case Nil
  then show ?case by simp
next
  case (Cons m msgs)
  have "reply_paths (b_sent (gather_msg c m b)) = {}"
    using Cons.prems by (cases m) (auto simp: Let_def reply_paths_def split: option.splits)
  with Cons.IH show ?case by simp
qed

lemma gather_no_paths [simp]: "reply_paths (b_sent (gather c msgs seq)) = {}"
  unfolding gather_def by (rule b_sent_no_paths) (simp add: batch_init_def)

lemma append_replies_no_paths [simp]:
  "reply_paths (map (\<lambda>(seq, reply). (reply, SeqReply (f seq))) xs) = {}"
  by (auto simp: reply_paths_def)

lemma reply_paths_drains:
  assumes "drains \<noteq> []"
  shows "reply_paths (map (\<lambda>(_, reply). (reply, PathsReply (Inr paths))) drains) = set paths"
proof -
  obtain a r xs where "drains = (a, r) # xs" using assms by (metis neq_Nil_conv prod.collapse)
  then have r: "(r, PathsReply (Inr paths)) \<in> set (map (\<lambda>(_, reply). (reply, PathsReply (Inr paths))) drains)"
    by simp
  show ?thesis
  proof
    show "set paths \<subseteq> reply_paths (map (\<lambda>(_, reply). (reply, PathsReply (Inr paths))) drains)"
      using r unfolding reply_paths_def by blast
  qed (auto simp: reply_paths_def)
qed

lemma fs_append_Nil: "files p \<noteq> None \<Longrightarrow> fs_append p [] files = files"
  by (auto simp: fs_append_def)

lemma wal_layout_file:
  "wal_layout c w files gs log \<Longrightarrow> files (ww_file w) = Some (log_bytes c log)"
  by (simp add: wal_layout_def dir_holds_def segment_bytes_def)

lemma log_bytes_eq_Nil [simp]: "log_bytes c log = [] \<longleftrightarrow> log = []"
  by (cases log) (auto simp: log_bytes_def encode_frame_def Let_def dest: arg_cong [where f = length])

lemma wal_auto_rotate:
  assumes "wal_disk c w files acked gc pend gs log" "unat (ww_current_segment w) + 1 < 2 ^ 64"
    "auto_rotate True w files = (w', files')"
  shows "\<exists>gs' log'. wal_disk c w' files' acked gc pend gs' log'"
    "unat (ww_current_segment w') \<le> unat (ww_current_segment w) + 1"
    "ww_current_seq w' = ww_current_seq w"
proof -
  obtain w1 files1 r where rot: "ww_rotate True w files = (w1, files1, r)" by (metis prod_cases3)
  note rotated = wal_disk_rotate [OF assms(1,2) rot]
  have "unat (ww_current_segment w1) = unat (ww_current_segment w) + 1"
    using assms(2) by (simp add: rotated(4) unat_word_ariths)
  moreover have "(w', files') = (if ww_max_segment_bytes w \<le> ww_current_size w then (w1, files1)
      else (w, files))"
    using assms(3) rot by (simp add: auto_rotate_def split: if_splits)
  ultimately show "\<exists>gs' log'. wal_disk c w' files' acked gc pend gs' log'"
    "unat (ww_current_segment w') \<le> unat (ww_current_segment w) + 1"
    "ww_current_seq w' = ww_current_seq w"
    using rotated(1,2) assms(1) by (auto split: if_splits)
qed

lemma wal_drain_requests:
  assumes "wal_disk c w files acked gc pend gs log" "drain_requests drains w = (w', sent)"
  shows "wal_disk c w' files acked (max gc (foldl max 0 (map fst drains))) (pend \<union> reply_paths sent) gs log"
    "ww_current_segment w' = ww_current_segment w"
    "ww_current_seq w' = ww_current_seq w"
proof -
  let ?m = "foldl max 0 (map fst drains)"
  obtain w1 paths where d: "drain_completed_before ?m w = (w1, paths)" by fastforce
  note drained = wal_disk_drain [OF assms(1) d]
  have "wal_disk c w' files acked (max gc ?m) (pend \<union> reply_paths sent) gs log \<and>
      ww_current_segment w' = ww_current_segment w \<and>
      ww_current_seq w' = ww_current_seq w"
  proof (cases "drains = []")
    case True
    then show ?thesis using assms by (auto simp: drain_requests_def)
  next
    case False
    then have w: "w' = w1" and sent: "sent = map (\<lambda>(_, reply). (reply, PathsReply (Inr paths))) drains"
      using assms(2) d by (simp_all add: drain_requests_def Let_def)
    have "reply_paths sent = set paths" unfolding sent using False by (rule reply_paths_drains)
    moreover have "ww_current_segment w1 = ww_current_segment w"
      "ww_current_seq w1 = ww_current_seq w"
      using drained(2) by (metis wal_writer.select_convs wal_writer.surjective wal_writer.update_convs(7))+
    ultimately show ?thesis using drained(1) by (simp add: w)
  qed
  then show "wal_disk c w' files acked (max gc ?m) (pend \<union> reply_paths sent) gs log"
    "ww_current_segment w' = ww_current_segment w"
    "ww_current_seq w' = ww_current_seq w" by blast+
qed


lemma U64_MAX_greatest: "w \<le> U64_MAX"
  using unat_u64_less [of w] by (simp add: U64_MAX_def word_le_nat_alt)

lemma wal_rotate_request:
  assumes "wal_disk c w files acked gc pend gs log" "unat (ww_current_segment w) + 1 < 2 ^ 64"
    "rotate_request True r w files = (w', files', sent)"
  shows "\<exists>gs' log'. wal_disk c w' files' acked (if r = None then gc else U64_MAX)
      (pend \<union> reply_paths sent) gs' log'"
    "ww_current_seq w' = ww_current_seq w"
proof -
  have "(\<exists>gs' log'. wal_disk c w' files' acked (if r = None then gc else U64_MAX)
      (pend \<union> reply_paths sent) gs' log') \<and>
      ww_current_seq w' = ww_current_seq w"
  proof (cases r)
    case None
    then have "w' = w" "files' = files" "sent = []"
      using assms(3) by (simp_all add: rotate_request_def)
    with None assms(1) show ?thesis by auto
  next
    case (Some reply)
    obtain w1 files1 u where rot: "ww_rotate True w files = (w1, files1, u)"
      by (metis prod_cases3)
    obtain w2 paths where d: "drain_completed_before U64_MAX w1 = (w2, paths)" by fastforce
    note rotated = wal_disk_rotate [OF assms(1,2) rot]
    have res: "w' = w2" "files' = files1" "sent = [(reply, PathsReply (Inr paths))]"
      using assms(3) Some rot d rotated(5) by (simp_all add: rotate_request_def)
    have "wal_disk c w2 files1 acked (max gc U64_MAX) (pend \<union> set paths) (segs_of w gs log) []"
      using wal_disk_drain(1) [OF rotated(1), of U64_MAX w2 paths] d by simp
    moreover have "max gc U64_MAX = U64_MAX" by (simp add: max_absorb2 U64_MAX_greatest)
    moreover have "reply_paths sent = set paths"
      using reply_paths_drains [of "[(0, reply)]" paths] by (simp add: res)
    moreover have "ww_current_seq w2 = ww_current_seq w1"
      using d by (auto simp: drain_completed_before_def)
    ultimately show ?thesis using Some rotated(2) by (auto simp: res)
  qed
  then show "\<exists>gs' log'. wal_disk c w' files' acked (if r = None then gc else U64_MAX)
      (pend \<union> reply_paths sent) gs' log'"
    "ww_current_seq w' = ww_current_seq w" by blast+
qed

text \<open>The largest sequence a batch gives to garbage collection; a rotation gives up everything.\<close>

definition batch_gc :: "wal_message list \<Rightarrow> u64 \<Rightarrow> u64" where
  "batch_gc msgs gc =
     (if rotates_of msgs \<noteq> [] then U64_MAX else max gc (foldl max 0 (map fst (drains_of msgs))))"

text \<open>What the code relies on: entries fit the frame, and no counter wraps.\<close>

definition batch_ok :: "'z wal_crates_scheme \<Rightarrow> wal_message list \<Rightarrow> wal_writer \<Rightarrow> bool" where
  "batch_ok c msgs w \<longleftrightarrow>
     (\<forall>e \<in> set (batch_log (ww_current_seq w) msgs). entry_fits c e) \<and>
     unat (ww_current_seq w) + length (append_replies msgs) < 2 ^ 64 \<and>
     unat (ww_current_segment w) + 2 < 2 ^ 64"

lemma commit_ok_parts:
  assumes "files (ww_file w) \<noteq> None"
    "w1 = w\<lparr>ww_current_seq := b_current_seq b,
            ww_current_size := ww_current_size w + word_of_nat (length (b_frames b))\<rparr>"
    "auto_rotate (be_auto_rotate env) w1 (fs_append (ww_file w) (b_frames b) files) = (w2, files2)"
    "drain_requests (b_drain_replies b) w2 = (w3, drained)"
    "rotate_request (be_explicit_rotate env) (b_rotate_reply b) w3 files2 = (w4, files4, rotated)"
  shows "commit_ok env b \<lparr>wt_writer = w, wt_last_seq = l\<rparr> files =
    (\<lparr>wt_writer = w4, wt_last_seq = (if b_seqs b = [] then l else last (b_seqs b))\<rparr>, files4,
     b_sent b @ map (\<lambda>(seq, reply). (reply, SeqReply (Inr seq))) (zip (b_seqs b) (b_replies b)) @
     drained @ rotated)"
proof -
  have "(if b_frames b = [] then files else fs_append (ww_file w) (b_frames b) files) =
      fs_append (ww_file w) (b_frames b) files"
    using fs_append_Nil [of files "ww_file w"] assms(1) by simp
  with assms(2-) show ?thesis by (simp add: commit_ok_def Let_def)
qed

lemma commit_ok_inv:
  assumes inv: "wal_disk c w files acked gc pend gs log" and ok: "batch_ok c msgs w"
    and env: "be_auto_rotate env" "be_explicit_rotate env"
    and res: "commit_ok env (gather c msgs (ww_current_seq w)) \<lparr>wt_writer = w, wt_last_seq = l\<rparr> files =
      (t', files', sent)"
  shows "\<exists>gs' log'. wal_disk c (wt_writer t') files' (acked @ batch_log (ww_current_seq w) msgs)
      (batch_gc msgs gc) (pend \<union> reply_paths sent) gs' log'"
    "ww_current_seq (wt_writer t') = ww_current_seq w + word_of_nat (length (append_replies msgs))"
    "wt_last_seq t' = (if batch_log (ww_current_seq w) msgs = [] then l
       else last (map fst (batch_log (ww_current_seq w) msgs)))"
proof -
  let ?seq = "ww_current_seq w"
  let ?new = "batch_log ?seq msgs" and ?n = "length (append_replies msgs)"
  let ?r = "case rotates_of msgs of [] \<Rightarrow> None | r # _ \<Rightarrow> Some r"
  let ?w1 = "w\<lparr>ww_current_seq := ?seq + word_of_nat ?n,
      ww_current_size := ww_current_size w + word_of_nat (length (log_bytes c ?new))\<rparr>"
  let ?files1 = "fs_append (ww_file w) (log_bytes c ?new) files"
  have lay: "wal_layout c w files gs log" using inv by (simp add: wal_disk_def)
  have room: "unat ?seq + ?n < 2 ^ 64" "unat (ww_current_segment w) + 2 < 2 ^ 64"
    and fits: "\<forall>e \<in> set ?new. entry_fits c e" using ok by (simp_all add: batch_ok_def)
  have "unat (word_of_nat ?n :: u64) = ?n" using room(1) by (simp add: unat_of_nat)
  then have "?seq \<le> ?seq + word_of_nat ?n" using room(1) by (simp add: word_le_nat_alt unat_word_ariths)
  then have inv1: "wal_disk c ?w1 ?files1 (acked @ ?new) gc pend gs (log @ ?new)"
    using batch_log_bound(2) [OF _ room(1)] by (intro wal_disk_append [OF inv fits]) blast
  obtain w2 files2 where a: "auto_rotate True ?w1 ?files1 = (w2, files2)" by fastforce
  obtain w3 drained where d: "drain_requests (drains_of msgs) w2 = (w3, drained)" by fastforce
  obtain w4 files4 rotated where q: "rotate_request True ?r w3 files2 = (w4, files4, rotated)"
    by (metis prod_cases3)
  have "commit_ok env (gather c msgs ?seq) \<lparr>wt_writer = w, wt_last_seq = l\<rparr> files =
    (\<lparr>wt_writer = w4, wt_last_seq = (if map fst ?new = [] then l else last (map fst ?new))\<rparr>,
     files4, b_sent (gather c msgs ?seq) @
     map (\<lambda>(seq, reply). (reply, SeqReply (Inr seq))) (zip (map fst ?new) (append_replies msgs)) @
     drained @ rotated)"
    using commit_ok_parts [where b = "gather c msgs ?seq" and w = w and ?w1.0 = ?w1, unfolded gather_fields,
        OF _ refl, of files env w2 files2 w3 drained w4 files4 rotated] wal_layout_file [OF lay]
      a d q env by simp
  then have out: "wt_writer t' = w4" "files' = files4"
    "reply_paths sent = reply_paths drained \<union> reply_paths rotated"
    and last: "wt_last_seq t' = (if map fst ?new = [] then l else last (map fst ?new))"
    using res by auto
  have room1: "unat (ww_current_segment ?w1) + 1 < 2 ^ 64" using room(2) by simp
  note r2 = wal_auto_rotate [OF inv1 room1 a]
  then obtain gs2 log2 where inv2: "wal_disk c w2 files2 (acked @ ?new) gc pend gs2 log2" by blast
  note r3 = wal_drain_requests [OF inv2 d]
  have seg3: "unat (ww_current_segment w3) + 1 < 2 ^ 64" using r2(2) r3(2) room(2) by simp
  note r4 = wal_rotate_request [OF r3(1) seg3 q]
  have "(if ?r = None then max gc (foldl max 0 (map fst (drains_of msgs))) else U64_MAX) = batch_gc msgs gc"
    by (simp add: batch_gc_def split: list.splits)
  with r4(1) show "\<exists>gs' log'. wal_disk c (wt_writer t') files' (acked @ ?new) (batch_gc msgs gc)
      (pend \<union> reply_paths sent) gs' log'"
    by (simp add: out Un_assoc)
  show "ww_current_seq (wt_writer t') = ?seq + word_of_nat ?n" using r2(3) r3(3) r4(2) by (simp add: out)
  show "wt_last_seq t' = (if ?new = [] then l else last (map fst ?new))" using last by simp
qed


subsection \<open>The log as a state machine\<close>

text \<open>
  A batch whose write and rotations succeed, and the deletion of a segment file that a reply
  handed out. \<open>batch_state\<close> is the state after a committed batch.
\<close>

definition batch_state ::
    "wal_state \<Rightarrow> wal_message list \<Rightarrow> wal_task \<Rightarrow> fs \<Rightarrow> (nat \<times> wal_reply) list \<Rightarrow> wal_state" where
  "batch_state s msgs t' files' sent =
     \<lparr>ws_writer = wt_writer t', ws_files = files',
      ws_acked = ws_acked s @ batch_log (ww_current_seq (ws_writer s)) msgs,
      ws_gc = batch_gc msgs (ws_gc s), ws_pend = ws_pend s \<union> reply_paths sent,
      ws_last_seq = wt_last_seq t'\<rparr>"

definition ws_task :: "wal_state \<Rightarrow> wal_task" where
  "ws_task s = \<lparr>wt_writer = ws_writer s, wt_last_seq = ws_last_seq s\<rparr>"

inductive wal_step :: "'z wal_crates_scheme \<Rightarrow> wal_state \<Rightarrow> wal_state \<Rightarrow> bool" for c where
  step_batch:
    "batch_ok c msgs (ws_writer s) \<Longrightarrow>
     be_write env = WriteOk \<Longrightarrow> be_auto_rotate env \<Longrightarrow> be_explicit_rotate env \<Longrightarrow>
     wal_batch c env msgs (ws_task s) (ws_files s) = (t', files', sent) \<Longrightarrow>
     wal_step c s (batch_state s msgs t' files' sent)"
| step_delete:
    "p \<in> ws_pend s \<Longrightarrow> wal_step c s (s\<lparr>ws_files := (ws_files s)(p := None)\<rparr>)"

text \<open>
  The start: the directory holds the segments \<open>segs\<close> of an earlier run, all entries above
  the watermark \<open>wm\<close> are at most the sequence \<open>seq\<close> recovery returned, and the writer was
  opened and, when there was a segment, rotated.
\<close>

inductive wal_start :: "'z wal_crates_scheme \<Rightarrow> wal_state \<Rightarrow> bool" for c where
  start_fresh:
    "dir_holds c files0 dir [] \<Longrightarrow> lists_dir files0 dir names \<Longrightarrow> names = [] \<Longrightarrow>
     ww_open names SegmentOk dir max_bytes 0 files0 = (files, Inr w) \<Longrightarrow>
     wal_start c \<lparr>ws_writer = w, ws_files = files, ws_acked = [], ws_gc = 0, ws_pend = {}, ws_last_seq = 0\<rparr>"
| start_again:
    "dir_holds c files0 dir segs \<Longrightarrow> segs \<noteq> [] \<Longrightarrow> \<forall>g \<in> set segs. segment_ok c g \<Longrightarrow>
     unat (fst (last segs)) + 1 < 2 ^ 64 \<Longrightarrow>
     \<forall>e \<in> set (segs_log segs). fst e \<le> max seq wm \<Longrightarrow>
     lists_dir files0 dir names \<Longrightarrow> set names \<subseteq> range segment_name \<Longrightarrow>
     ww_open names SegmentOk dir max_bytes seq files0 = (files1, Inr w1) \<Longrightarrow>
     ww_rotate True w1 files1 = (w, files, Inr u) \<Longrightarrow>
     wal_start c \<lparr>ws_writer = w, ws_files = files, ws_acked = segs_log segs, ws_gc = wm, ws_pend = {},
        ws_last_seq = seq\<rparr>"

lemma batch_log_Nil: "batch_log seq msgs = [] \<longleftrightarrow> append_replies msgs = []"
  using length_batch_log [of seq msgs] by (metis length_0_conv)

lemma last_batch_log:
  assumes "batch_log seq msgs \<noteq> []"
  shows "last (map fst (batch_log seq msgs)) = seq + word_of_nat (length (append_replies msgs))"
proof -
  obtain n where n: "length (append_replies msgs) = Suc n"
    using assms length_batch_log [of seq msgs] by (metis length_0_conv not0_implies_Suc)
  show ?thesis unfolding batch_log_seqs n by simp
qed

lemma wal_inv_step: "wal_inv c s \<Longrightarrow> wal_step c s s' \<Longrightarrow> wal_inv c s'"
proof (erule wal_step.cases)
  fix msgs u env t' files' sent
  assume inv: "wal_inv c s" and eqs: "s = u" "s' = batch_state u msgs t' files' sent"
    and ok: "batch_ok c msgs (ws_writer u)"
    and env: "be_write env = WriteOk" "be_auto_rotate env" "be_explicit_rotate env"
    and batch: "wal_batch c env msgs (ws_task u) (ws_files u) = (t', files', sent)"
  let ?w = "ws_writer u"
  obtain gs log where disk: "wal_disk c ?w (ws_files u) (ws_acked u) (ws_gc u) (ws_pend u) gs log"
    and l: "ws_last_seq u = ww_current_seq ?w" using inv eqs(1) by (auto simp: wal_inv_def)
  have "commit_ok env (gather c msgs (ww_current_seq ?w)) \<lparr>wt_writer = ?w, wt_last_seq = ws_last_seq u\<rparr>
      (ws_files u) = (t', files', sent)"
    using batch env(1) by (simp add: wal_batch_def ws_task_def Let_def split: if_splits)
  note res = commit_ok_inv [OF disk ok env(2,3) this]
  have "wt_last_seq t' = ww_current_seq (wt_writer t')"
    using res(2,3) l last_batch_log [of "ww_current_seq ?w" msgs] batch_log_Nil [of "ww_current_seq ?w" msgs]
    by auto
  then show "wal_inv c s'" using res(1) by (simp add: wal_inv_def batch_state_def eqs)
next
  fix p u
  assume "wal_inv c s" "s = u" "s' = u\<lparr>ws_files := (ws_files u)(p := None)\<rparr>" "p \<in> ws_pend u"
  then obtain gs log where "wal_disk c (ws_writer u) (ws_files u) (ws_acked u) (ws_gc u) (ws_pend u) gs log"
    and l: "ws_last_seq u = ww_current_seq (ws_writer u)" and p: "p \<in> ws_pend u"
    and s': "s' = u\<lparr>ws_files := (ws_files u)(p := None)\<rparr>" by (auto simp: wal_inv_def)
  from wal_disk_delete [OF this(1) p] l show "wal_inv c s'" by (auto simp: wal_inv_def s')
qed


text \<open>Opening a directory without segments, and one with segments of an earlier run.\<close>

lemma wal_inv_fresh:
  assumes "dir_holds c files0 dir []" "ww_open [] SegmentOk dir max_bytes 0 files0 = (files, Inr w)"
  shows "wal_disk c w files [] 0 {} [] []" "ww_current_seq w = 0"
proof -
  have w: "ww_file w = segment_path dir 1" "ww_current_segment w = 1" "ww_wal_dir w = dir"
    "ww_current_seq w = 0" "ww_completed_segments w = []"
    "files = fs_open_append (segment_path dir 1) files0"
    using assms(2) by (auto simp: ww_open_def highest_segment_number_def Let_def)
  then show "ww_current_seq w = 0" by simp
  have "dir_holds c files dir [(1, [], [])]"
    using dir_holds_fresh(2) [OF assms(1), of 1] by (simp add: w)
  then show "wal_disk c w files [] 0 {} [] []"
    by (simp add: wal_disk_def wal_layout_def wal_seqs_def wal_completed_def wal_pending_def w
        segs_log_def)
qed

lemma dir_names_segments:
  assumes "dir_holds c files dir segs" "lists_dir files dir names" "set names \<subseteq> range segment_name"
  shows "\<exists>ns. names = map segment_name ns \<and> set ns = fst ` set segs"
proof -
  obtain ns where ns: "names = map segment_name ns"
    using assms(3) by (metis ex_map_conv image_iff subsetD)
  have "set names = segment_name ` fst ` set segs"
  proof
    show "set names \<subseteq> segment_name ` fst ` set segs"
      using assms by (auto simp: dir_holds_def lists_dir_def ns)
    show "segment_name ` fst ` set segs \<subseteq> set names"
      using assms(1,2) by (force simp: dir_holds_def lists_dir_def segment_path_def)
  qed
  moreover have "inj segment_name" by (rule injI) simp
  ultimately have "set ns = fst ` set segs" by (simp add: ns inj_image_eq_iff)
  with ns show ?thesis by blast
qed

lemma Max_last_segs:
  assumes "dir_holds c files dir segs" "segs \<noteq> []"
  shows "Max (fst ` set segs) = fst (last segs)"
proof (rule Max_eqI)
  fix k
  assume "k \<in> fst ` set segs"
  then obtain g where g: "g \<in> set segs" "k = fst g" by auto
  have split: "segs = butlast segs @ [last segs]" using assms(2) by simp
  then have "g \<in> set (butlast segs) \<or> g = last segs" using g(1) assms(2)
    by (metis in_set_butlastD rotate1.simps(2) set_ConsD set_rotate1)
  moreover have "dir_holds c files dir (butlast segs @ [last segs])" using assms by simp
  ultimately show "k \<le> fst (last segs)"
    unfolding g(2) using dir_holds_last less_imp_le by blast
qed (use assms(2) in auto)

lemma wal_inv_again:
  assumes holds: "dir_holds c files0 dir segs" and ne: "segs \<noteq> []" and ok: "\<forall>g \<in> set segs. segment_ok c g"
    and room: "unat (fst (last segs)) + 1 < 2 ^ 64"
    and seqs: "\<forall>e \<in> set (segs_log segs). fst e \<le> max seq wm"
    and names: "lists_dir files0 dir names" "set names \<subseteq> range segment_name"
    and opened: "ww_open names SegmentOk dir max_bytes seq files0 = (files1, Inr w1)"
    and rotated: "ww_rotate True w1 files1 = (w, files, Inr u)"
  shows "wal_disk c w files (segs_log segs) wm {} segs []" "ww_current_seq w = seq"
proof -
  let ?n = "fst (last segs)"
  obtain ns where ns: "names = map segment_name ns" "set ns = fst ` set segs"
    using dir_names_segments [OF holds names] by blast
  have "ns \<noteq> []" using ns(2) ne by auto
  then have high: "highest_segment_number names = Some ?n"
    by (simp add: ns highest_segment_number_segments Max_last_segs [OF holds ne])
  have "files0 (segment_path dir ?n) = Some (segment_bytes c (last segs))"
    using holds ne by (simp add: dir_holds_def)
  then have files1: "files1 = files0"
    using opened by (simp add: ww_open_def high fs_open_append_def Let_def)
  have w: "ww_file w = segment_path dir (?n + 1)" "ww_current_segment w = ?n + 1" "ww_wal_dir w = dir"
    "ww_current_seq w = seq" "files = fs_open_append (segment_path dir (?n + 1)) files0"
    and comp: "ww_completed_segments w =
      map (\<lambda>n. (word_of_nat n, U64_MAX)) [1..<unat ?n] @ [(?n, seq)]"
    using opened rotated
    by (auto simp: ww_open_def ww_rotate_def current_segment_path_def high files1 Let_def)
  then show "ww_current_seq w = seq" by simp
  have lt: "?n < ?n + 1" using room by (simp add: word_less_nat_alt unat_word_ariths)
  have below: "\<forall>g \<in> set segs. fst g < ?n + 1"
  proof
    fix g
    assume "g \<in> set segs"
    then have "fst g \<le> Max (fst ` set segs)" by simp
    then show "fst g < ?n + 1" using lt unfolding Max_last_segs [OF holds ne] by (rule le_less_trans)
  qed
  have lay: "wal_layout c w files segs []"
    using dir_holds_fresh(2) [OF holds below] ok by (simp add: wal_layout_def w)
  have low: "word_of_nat k < ?n" if "k < unat ?n" for k
    using that unat_u64_less [of ?n] by (simp add: word_less_nat_alt unat_of_nat)
  have "fst x < ww_current_segment w \<and> seg_below (segs_of w segs []) (fst x) (max (snd x) wm)"
    if x: "x \<in> set (ww_completed_segments w)" for x
  proof (cases "snd x = U64_MAX \<and> fst x < ?n")
    case True
    then have "max (snd x) wm = U64_MAX" using U64_MAX_greatest by (simp add: max_absorb1)
    then show ?thesis
      using True less_trans [OF _ lt] by (simp add: w seg_below_def U64_MAX_greatest)
  next
    case False
    then have "x = (?n, seq)" using x low by (auto simp: comp)
    then show ?thesis using seqs lt by (auto simp: w seg_below_def set_segs_log)
  qed
  with lay seqs show "wal_disk c w files (segs_log segs) wm {} segs []"
    by (simp add: wal_disk_def wal_seqs_def wal_completed_def wal_pending_def w segs_log_snoc)
qed

lemma wal_inv_start: "wal_start c s \<Longrightarrow> wal_inv c s"
proof (induction rule: wal_start.induct)
  case (start_fresh files0 dir names max_bytes files w)
  then show ?case using wal_inv_fresh [of c files0 dir max_bytes files w] by (auto simp: wal_inv_def)
next
  case (start_again files0 dir segs seq wm names max_bytes files1 w1 w files u)
  from wal_inv_again [OF start_again] show ?case by (auto simp: wal_inv_def)
qed

interpretation wal: state_machine "wal_start c" "wal_step c" "wal_inv c"
  by unfold_locales (auto intro: wal_inv_start wal_inv_step)

end
