(* ===== verification/Wal_Crash.thy ===== *)
theory Wal_Crash
  imports Wal_Durability "HOL-Library.Multiset"
begin

section \<open>Crashes, replies and failures of the log of a shard\<close>

text \<open>
  What recovery finds when the process stops at any moment of a run of the group-commit task,
  the answers the task gives, and what the failure branches of the code leave behind.
\<close>

subsection \<open>A batch cut off in the middle\<close>

text \<open>Any prefix of the bytes of a log is a prefix of its frames and a torn tail.\<close>

lemma take_log_bytes:
  assumes "\<forall>e \<in> set log. entry_fits c e"
  obtains k tail where "take n (log_bytes c log) = log_bytes c (take k log) @ tail"
    "torn_tail c tail \<or> tail = []"
  using assms
proof (induction log arbitrary: n thesis)
  case Nil
  from Nil(1) [of 0 "[]"] show ?case by simp
next
  case (Cons e log)
  obtain seq points where e: "e = (seq, points)" by (cases e)
  let ?f = "encode_frame c seq points"
  show ?case
  proof (cases "n < length ?f")
    case True
    then have "torn_tail c (take n ?f)" using Cons.prems(2) by (auto simp: torn_tail_def e)
    with True Cons.prems(1) [of 0 "take n ?f"] show ?thesis by (simp add: e)
  next
    case False
    obtain k tail where "take (n - length ?f) (log_bytes c log) = log_bytes c (take k log) @ tail"
      "torn_tail c tail \<or> tail = []" using Cons.IH Cons.prems(2) by auto
    with False Cons.prems(1) [of "Suc k" tail] show ?thesis by (simp add: e)
  qed
qed

lemma wal_disk_crash:
  assumes prost: "prost_lossless c" and disk: "wal_disk c w files acked gc pend gs log"
    and fits: "\<forall>e \<in> set new. entry_fits c e" and wm: "gc \<le> wm"
    and names: "lists_dir (fs_append (ww_file w) (take n (log_bytes c new)) files) (ww_wal_dir w) names"
  shows "\<exists>res k. recover c all_read (fs_append (ww_file w) (take n (log_bytes c new)) files) (ww_wal_dir w) names wm =
      Inr res \<and> rr_points res = concat (map snd (above wm (acked @ take k new)))"
proof -
  obtain k tail where cut: "take n (log_bytes c new) = log_bytes c (take k new) @ tail"
    and tail: "torn_tail c tail \<or> tail = []" by (rule take_log_bytes [OF fits])
  let ?segs = "gs @ [(ww_current_segment w, log @ take k new, tail)]"
  let ?files = "fs_append (ww_file w) (take n (log_bytes c new)) files"
  have lay: "wal_layout c w files gs log" using disk by (simp add: wal_disk_def)
  then have holds: "dir_holds c ?files (ww_wal_dir w) ?segs"
    using dir_holds_append [of c files "ww_wal_dir w" gs "ww_current_segment w" log "take k new" tail]
    by (simp add: wal_layout_def cut)
  have "entry_fits c e" if "e \<in> set (log @ take k new)" for e
    using that lay fits set_take_subset [of k new] by (auto simp: wal_layout_def)
  then have "\<forall>s \<in> set ?segs. segment_ok c s"
    using lay tail by (auto simp: wal_layout_def segment_ok_def)
  from recover_holds [OF prost holds this names]
  have "recover c all_read ?files (ww_wal_dir w) names wm = Inr (replay_segments wm ?segs rr_init)" .
  moreover have "above wm (segs_log ?segs) = above wm (acked @ take k new)"
    using above_eq_mono [OF _ wm, of "segs_log (segs_of w gs log)" acked] disk
    by (simp add: wal_disk_def segs_log_snoc)
  ultimately show ?thesis by (auto simp: replay_segments_fields rr_init_def)
qed

text \<open>
  C3.  Whatever batches the task has committed since its start, whichever segments
  garbage collection has deleted, and however many bytes of one more batch reach the disk
  before the process stops: recovery with a watermark not below the sequences given to garbage
  collection returns every acknowledged entry above the watermark, in order, followed by a
  prefix of the batch in flight.
\<close>

theorem wal_crash_durable:
  assumes "prost_lossless c" "wal_start c s0" "(wal_step c)\<^sup>*\<^sup>* s0 s"
    "batch_ok c msgs (ws_writer s)" "ws_gc s \<le> wm"
    "frames = b_frames (gather c msgs (ww_current_seq (ws_writer s)))"
    "files' = fs_append (ww_file (ws_writer s)) (take n frames) (ws_files s)"
    "lists_dir files' (ws_dir s) names"
  shows "\<exists>res k. recover c all_read files' (ws_dir s) names wm = Inr res \<and>
    rr_points res =
      concat (map snd (above wm (ws_acked s @ take k (batch_log (ww_current_seq (ws_writer s)) msgs))))"
proof -
  have "wal_inv c s" by (rule wal.inv_reachable [OF assms(2,3)])
  then obtain gs log where
    "wal_disk c (ws_writer s) (ws_files s) (ws_acked s) (ws_gc s) (ws_pend s) gs log"
    by (auto simp: wal_inv_def)
  from wal_disk_crash [OF assms(1) this _ assms(5)] assms(4,6-8) show ?thesis
    by (simp add: batch_ok_def)
qed


text \<open>A run: a fresh directory, one committed batch, and three bytes of a second one.\<close>

abbreviation example_writer :: "u64 \<Rightarrow> u64 \<Rightarrow> wal_writer" where
  "example_writer seq sz \<equiv>
     \<lparr>ww_file = segment_path [''wal''] 1, ww_current_seq = seq, ww_current_size = sz,
      ww_current_segment = 1, ww_wal_dir = [''wal''], ww_max_segment_bytes = U64_MAX,
      ww_completed_segments = []\<rparr>"

abbreviation example_start :: wal_state where
  "example_start \<equiv>
     \<lparr>ws_writer = example_writer 0 0, ws_files = [segment_path [''wal''] 1 \<mapsto> []], ws_acked = [],
      ws_gc = 0, ws_pend = {}, ws_last_seq = 0\<rparr>"

abbreviation example_frame :: bytes where
  "example_frame \<equiv> encode_frame plain_wal 1 [example_point 5]"

abbreviation example_run :: wal_state where
  "example_run \<equiv>
     \<lparr>ws_writer = example_writer 1 (word_of_nat (length example_frame)),
      ws_files = [segment_path [''wal''] 1 \<mapsto> example_frame],
      ws_acked = [(1, [example_point 5])], ws_gc = 0, ws_pend = {}, ws_last_seq = 1\<rparr>"

lemma length_example_frame: "length (encode_frame plain_wal seq [example_point t]) = 38"
  by (simp add: length_encode_frame plain_wal_def wal_entry_of_def put_entry_def put_list_def
      wal_of_point_def put_point_def put_str_def)

lemma example_starts: "wal_start plain_wal example_start"
proof (rule wal_start.start_fresh [where ?files0.0 = "\<lambda>_. None" and dir = "[''wal'']" and names = "[]"
      and max_bytes = U64_MAX])
  show "ww_open [] SegmentOk [''wal''] U64_MAX 0 (\<lambda>_. None) =
      ([segment_path [''wal''] 1 \<mapsto> []], Inr (example_writer 0 0))"
    by (simp add: ww_open_def highest_segment_number_def fs_open_append_def Let_def)
qed (simp_all add: dir_holds_def lists_dir_def)

lemma example_batch_ok:
  "ww_current_seq w = 0 \<or> ww_current_seq w = 1 \<Longrightarrow> ww_current_segment w = 1 \<Longrightarrow>
   batch_ok plain_wal [Append [example_point t] r] w"
  by (auto simp: batch_ok_def example_entry_fits)

lemma example_steps: "wal_step plain_wal example_start example_run"
proof -
  let ?env = "\<lparr>be_write = WriteOk, be_auto_rotate = True, be_explicit_rotate = True\<rparr>"
  let ?msgs = "[Append [example_point 5] 0]"
  have "wal_step plain_wal example_start (batch_state example_start ?msgs
      \<lparr>wt_writer = ws_writer example_run, wt_last_seq = 1\<rparr> (ws_files example_run) [(0, SeqReply (Inr 1))])"
  proof (rule step_batch [where env = ?env])
    have "\<not> U64_MAX \<le> word_of_nat (length example_frame)"
      by (simp add: length_example_frame U64_MAX_def)
    moreover have "example_frame \<noteq> []" using length_example_frame [of 1 5] by (metis length_0_conv zero_neq_numeral)
    ultimately show "wal_batch plain_wal ?env ?msgs (ws_task example_start) (ws_files example_start) =
        (\<lparr>wt_writer = ws_writer example_run, wt_last_seq = 1\<rparr>, ws_files example_run, [(0, SeqReply (Inr 1))])"
      by (simp add: wal_batch_def gather_def batch_init_def commit_ok_def auto_rotate_def drain_requests_def
          rotate_request_def ws_task_def fs_append_def Let_def)
  qed (simp_all add: example_batch_ok)
  then show ?thesis by (simp add: batch_state_def batch_gc_def reply_paths_def)
qed

theorem wal_crash_durable_witness:
  "\<exists>res k. recover plain_wal all_read
      [segment_path [''wal''] 1 \<mapsto> example_frame @ take 3 (encode_frame plain_wal 2 [example_point 6])]
      [''wal''] [segment_name 1] 0 = Inr res \<and>
    rr_points res = concat (map snd (above 0 ([(1, [example_point 5])] @ take k [(2, [example_point 6])])))"
proof -
  let ?files = "[segment_path [''wal''] 1 \<mapsto> example_frame @ take 3 (encode_frame plain_wal 2 [example_point 6])]"
  have "lists_dir ?files [''wal''] [segment_name 1]" by (auto simp: lists_dir_def segment_path_def)
  moreover have "?files = fs_append (ww_file (ws_writer example_run))
      (take 3 (encode_frame plain_wal 2 [example_point 6])) (ws_files example_run)"
    by (simp add: fs_append_def)
  ultimately show ?thesis
    using wal_crash_durable [OF plain_wal_lossless example_starts
        r_into_rtranclp [of "wal_step plain_wal", OF example_steps]
        example_batch_ok [of "ws_writer example_run" 6 1], of 0 _ ?files 3 "[segment_name 1]"]
    by simp
qed


subsection \<open>Replies\<close>

fun reply_id :: "wal_message \<Rightarrow> nat" where
  "reply_id (Append points reply) = reply"
| "reply_id (Rotate reply) = reply"
| "reply_id (DrainBefore seq reply) = reply"

text \<open>The reply channels a batch still holds.\<close>

definition batch_ids :: "batch \<Rightarrow> nat multiset" where
  "batch_ids b =
     mset (map fst (b_sent b)) + mset (b_replies b) + mset (map snd (b_drain_replies b)) +
     (case b_rotate_reply b of None \<Rightarrow> {#} | Some r \<Rightarrow> {#r#})"

lemma batch_ids_gather_msg: "batch_ids (gather_msg c m b) = add_mset (reply_id m) (batch_ids b)"
  by (cases m) (simp_all add: batch_ids_def Let_def split: option.splits)

lemma batch_ids_fold:
  "batch_ids (fold (gather_msg c) msgs b) = mset (map reply_id msgs) + batch_ids b"
  by (induction msgs arbitrary: b) (simp_all add: batch_ids_gather_msg)

lemma batch_ids_gather: "batch_ids (gather c msgs seq) = mset (map reply_id msgs)"
  by (simp add: gather_def batch_ids_fold) (simp add: batch_init_def batch_ids_def)

lemma drain_requests_ids:
  "drain_requests drains w = (w', sent) \<Longrightarrow> map fst sent = map snd drains"
  by (auto simp: drain_requests_def Let_def split: if_splits prod.splits)

lemma rotate_request_ids:
  "rotate_request ok r w files = (w', files', sent) \<Longrightarrow>
   map fst sent = (case r of None \<Rightarrow> [] | Some reply \<Rightarrow> [reply])"
  by (auto simp: rotate_request_def split: option.splits prod.splits sum.splits)

lemma commit_failed_ids: "commit_failed b n t files = (t', files', sent) \<Longrightarrow> mset (map fst sent) = batch_ids b"
  by (auto simp: commit_failed_def batch_ids_def image_mset.compositionality comp_def case_prod_beta
      split: option.splits)

lemma commit_ok_ids:
  assumes "commit_ok env b t files = (t', files', sent)" "length (b_seqs b) = length (b_replies b)"
  shows "mset (map fst sent) = batch_ids b"
proof -
  obtain w2 files2 where "auto_rotate (be_auto_rotate env) ((wt_writer t)\<lparr>ww_current_seq := b_current_seq b,
        ww_current_size := ww_current_size (wt_writer t) + word_of_nat (length (b_frames b))\<rparr>)
      (if b_frames b = [] then files else fs_append (ww_file (wt_writer t)) (b_frames b) files) = (w2, files2)"
    by fastforce
  moreover obtain w3 drained where d: "drain_requests (b_drain_replies b) w2 = (w3, drained)" by fastforce
  moreover obtain w4 files4 rotated where
    r: "rotate_request (be_explicit_rotate env) (b_rotate_reply b) w3 files2 = (w4, files4, rotated)"
    by (metis prod_cases3)
  ultimately have "sent = b_sent b @ map (\<lambda>(seq, reply). (reply, SeqReply (Inr seq))) (zip (b_seqs b) (b_replies b)) @
      drained @ rotated"
    using assms(1) by (simp add: commit_ok_def Let_def)
  moreover have "map fst (map (\<lambda>(seq, reply). (reply, SeqReply (Inr seq))) (zip (b_seqs b) (b_replies b))) = b_replies b"
    using assms(2) by (simp add: comp_def case_prod_beta)
  ultimately show ?thesis
    using drain_requests_ids [OF d] rotate_request_ids [OF r]
    by (simp add: batch_ids_def split: option.splits)
qed

lemma wal_batch_ids:
  assumes "wal_batch c env msgs t files = (t', files', sent)"
  shows "mset (map fst sent) = mset (map reply_id msgs)"
proof -
  have "length (b_seqs (gather c msgs seq)) = length (b_replies (gather c msgs seq))" for seq by simp
  then have "mset (map fst sent) = batch_ids (gather c msgs (ww_current_seq (wt_writer t)))"
    using assms commit_failed_ids commit_ok_ids
    by (auto simp: wal_batch_def Let_def split: write_outcome.splits simp del: gather_fields)
  then show ?thesis by (simp only: batch_ids_gather)
qed

lemma take_batch_some:
  assumes "take_batch max_batch k queue = Some (msgs, rest)"
  shows "queue = msgs @ rest" "length rest < length queue" "length msgs \<le> max 1 max_batch"
  using assms by (auto simp: take_batch_def Let_def split: list.splits)

text \<open>
  C22.  Every message on the channel is answered on its reply channel exactly once, whatever
  the batches, their writes and their rotations come to; as many rounds as there are messages
  are enough.
\<close>

theorem wal_task_answers_all:
  "length queue \<le> length envs \<Longrightarrow>
   mset (map fst (snd (snd (wal_task_run c max_batch envs queue t files)))) = mset (map reply_id queue)"
proof (induction c max_batch envs queue t files rule: wal_task_run.induct)
  case (1 c max_batch queue t files)
  then show ?case by simp
next
  case (2 c max_batch k env envs queue t files)
  show ?case
  proof (cases "take_batch max_batch k queue")
    case None
    then show ?thesis by (auto simp: take_batch_def Let_def split: list.splits)
  next
    case (Some a)
    obtain msgs rest where a: "take_batch max_batch k queue = Some (msgs, rest)" using Some by (cases a) auto
    obtain t1 files1 sent where b: "wal_batch c env msgs t files = (t1, files1, sent)" by (metis prod_cases3)
    note q = take_batch_some [OF a]
    have "length rest \<le> length envs" using q(2) "2.prems" by simp
    from "2.IH" [OF a refl b [symmetric] refl this] wal_batch_ids [OF b] show ?thesis
      using arg_cong [OF q(1), of "\<lambda>l. mset (map reply_id l)"] by (auto simp: a b split: prod.splits)
  qed
qed

theorem wal_task_answers_all_witness:
  "mset (map fst (snd (snd (wal_task_run plain_wal 1
      [(0, \<lparr>be_write = WriteFail 3, be_auto_rotate = True, be_explicit_rotate = True\<rparr>),
       (0, \<lparr>be_write = WriteOk, be_auto_rotate = True, be_explicit_rotate = False\<rparr>)]
      [Append [example_point 5] 7, Rotate 8] (ws_task example_start) (ws_files example_start))))) = {#7, 8#}"
  by (subst wal_task_answers_all) simp_all


subsection \<open>A batch and single appends\<close>

text \<open>The appends of a batch one at a time, with \<open>WalWriter::append\<close>.\<close>

fun ww_appends ::
    "'z wal_crates_scheme \<Rightarrow> data_point list list \<Rightarrow> wal_writer \<Rightarrow> fs \<Rightarrow> wal_writer \<times> fs \<times> u64 result list" where
  "ww_appends c [] w files = (w, files, [])"
| "ww_appends c (points # rest) w files =
     (case ww_append c WriteOk True points w files of
        (w1, files1, r) \<Rightarrow>
          (case ww_appends c rest w1 files1 of (w2, files2, rs) \<Rightarrow> (w2, files2, r # rs)))"

abbreviation appends :: "(data_point list \<times> nat) list \<Rightarrow> wal_message list" where
  "appends items \<equiv> map (\<lambda>(points, reply). Append points reply) items"

lemma appends_fields [simp]:
  "append_replies (appends items) = map snd items" "drains_of (appends items) = []"
  "rotates_of (appends items) = []"
  by (induction items) auto

lemma gather_appends_sent: "b_sent (fold (gather_msg c) (appends items) b) = b_sent b"
  by (induction items arbitrary: b) (auto simp: Let_def)

lemma fs_append_fs_append: "fs_append p b (fs_append p a files) = fs_append p (a @ b) files"
  by (auto simp: fs_append_def split: option.splits)

lemma unat_add_length:
  "unat (sz :: u64) + n < 2 ^ 64 \<Longrightarrow> unat (sz + word_of_nat n) = unat sz + n"
  by (simp add: unat_word_ariths unat_of_nat)

lemma ww_append_small:
  assumes "unat (ww_current_size w) + length (encode_frame c (ww_current_seq w + 1) points) <
    unat (ww_max_segment_bytes w)"
  shows "ww_append c WriteOk True points w files =
    (w\<lparr>ww_current_seq := ww_current_seq w + 1,
       ww_current_size := ww_current_size w + word_of_nat (length (encode_frame c (ww_current_seq w + 1) points))\<rparr>,
     fs_append (ww_file w) (encode_frame c (ww_current_seq w + 1) points) files,
     Inr (ww_current_seq w + 1))"
proof -
  have "unat (ww_current_size w) + length (encode_frame c (ww_current_seq w + 1) points) < 2 ^ 64"
    using assms unat_u64_less [of "ww_max_segment_bytes w"] by simp
  from unat_add_length [OF this] assms show ?thesis
    by (simp add: ww_append_def Let_def word_le_nat_alt)
qed

lemma ww_appends_small:
  "unat (ww_current_size w) + length (log_bytes c (batch_log (ww_current_seq w) (appends items))) <
     unat (ww_max_segment_bytes w) \<Longrightarrow> files (ww_file w) \<noteq> None \<Longrightarrow>
   ww_appends c (map fst items) w files =
     (w\<lparr>ww_current_seq := ww_current_seq w + word_of_nat (length items),
        ww_current_size := ww_current_size w +
          word_of_nat (length (log_bytes c (batch_log (ww_current_seq w) (appends items))))\<rparr>,
      fs_append (ww_file w) (log_bytes c (batch_log (ww_current_seq w) (appends items))) files,
      map (Inr \<circ> fst) (batch_log (ww_current_seq w) (appends items)))"
proof (induction items arbitrary: w files)
  case Nil
  then show ?case by (auto simp: fs_append_def)
next
  case (Cons a items)
  obtain points reply where a: "a = (points, reply)" by (cases a)
  let ?f = "encode_frame c (ww_current_seq w + 1) points"
  let ?w1 = "w\<lparr>ww_current_seq := ww_current_seq w + 1,
      ww_current_size := ww_current_size w + word_of_nat (length ?f)\<rparr>"
  let ?log = "log_bytes c (batch_log (ww_current_seq w + 1) (appends items))"
  have small: "unat (ww_current_size w) + (length ?f + length ?log) < unat (ww_max_segment_bytes w)"
    using Cons.prems(1) by (simp add: a)
  then have u: "unat (ww_current_size w + word_of_nat (length ?f)) = unat (ww_current_size w) + length ?f"
    using unat_u64_less [of "ww_max_segment_bytes w"] by (intro unat_add_length) simp
  have one: "ww_append c WriteOk True points w files = (?w1, fs_append (ww_file w) ?f files, Inr (ww_current_seq w + 1))"
    using small by (intro ww_append_small) simp
  have "fs_append (ww_file w) ?f files (ww_file w) \<noteq> None" using Cons.prems(2) by (auto simp: fs_append_def)
  then have "ww_appends c (map fst items) ?w1 (fs_append (ww_file w) ?f files) =
      (?w1\<lparr>ww_current_seq := ww_current_seq w + 1 + word_of_nat (length items),
         ww_current_size := ww_current_size w + word_of_nat (length ?f) + word_of_nat (length ?log)\<rparr>,
       fs_append (ww_file w) ?log (fs_append (ww_file w) ?f files),
       map (Inr \<circ> fst) (batch_log (ww_current_seq w + 1) (appends items)))"
    using Cons.IH [of ?w1 "fs_append (ww_file w) ?f files"] small by (simp add: u)
  with one show ?case by (simp add: a fs_append_fs_append add.assoc)
qed

text \<open>
  C24.  A group commit of appends that stays below the segment size does exactly what appending
  them one at a time does: the same writer, the same file contents and the same sequence
  numbers, each sent to the caller that appended.
\<close>

theorem group_commit_equals_appends:
  assumes "files (ww_file w) \<noteq> None"
    "unat (ww_current_size w) + length (b_frames (gather c (appends items) (ww_current_seq w))) <
       unat (ww_max_segment_bytes w)"
    "be_write env = WriteOk"
    "wal_batch c env (appends items) \<lparr>wt_writer = w, wt_last_seq = l\<rparr> files = (t', files', sent)"
    "ww_appends c (map fst items) w files = (w', files'', rs)"
  shows "wt_writer t' = w' \<and> files' = files'' \<and> sent = zip (map snd items) (map SeqReply rs)"
proof -
  let ?new = "batch_log (ww_current_seq w) (appends items)"
  let ?w1 = "w\<lparr>ww_current_seq := ww_current_seq w + word_of_nat (length items),
      ww_current_size := ww_current_size w + word_of_nat (length (log_bytes c ?new))\<rparr>"
  have small: "unat (ww_current_size w) + length (log_bytes c ?new) < unat (ww_max_segment_bytes w)"
    using assms(2) by simp
  then have "unat (ww_current_size w + word_of_nat (length (log_bytes c ?new))) =
      unat (ww_current_size w) + length (log_bytes c ?new)"
    using unat_u64_less [of "ww_max_segment_bytes w"] by (intro unat_add_length) simp
  with small have "auto_rotate ok ?w1 fs = (?w1, fs)" for ok fs
    by (simp add: auto_rotate_def word_le_nat_alt)
  moreover have "b_sent (gather c (appends items) seq) = []" for seq
    by (simp add: gather_def gather_appends_sent) (simp add: batch_init_def)
  moreover have "fs_append (ww_file w) [] files = files"
    using assms(1) fs_append_Nil [of files "ww_file w"] by simp
  ultimately have "wt_writer t' = ?w1 \<and> files' = fs_append (ww_file w) (log_bytes c ?new) files \<and>
      sent = map (\<lambda>(seq, reply). (reply, SeqReply (Inr seq))) (zip (map fst ?new) (map snd items))"
    using assms(3,4) by (auto simp: wal_batch_def commit_ok_def drain_requests_def rotate_request_def Let_def
        split: if_splits)
  moreover have "map (\<lambda>(seq, reply). (reply, SeqReply (Inr seq))) (zip xs ys) =
      zip ys (map SeqReply (map Inr xs))" for xs and ys :: "nat list"
    by (induction xs ys rule: list_induct2') auto
  ultimately show ?thesis
    using assms(5) ww_appends_small [where w = w and files = files, OF small assms(1)]
    by (auto simp: comp_def)
qed


theorem group_commit_equals_appends_witness:
  "wt_writer (fst (wal_batch plain_wal \<lparr>be_write = WriteOk, be_auto_rotate = True, be_explicit_rotate = True\<rparr>
      (appends [([example_point 5], 7), ([example_point 6], 8)]) (ws_task example_start) (ws_files example_start))) =
   fst (ww_appends plain_wal [[example_point 5], [example_point 6]] (example_writer 0 0) (ws_files example_start))"
proof -
  let ?items = "[([example_point 5], 7), ([example_point 6], 8)] :: (data_point list \<times> nat) list"
  have "unat (0 :: u64) + length (b_frames (gather plain_wal (appends ?items) 0)) < unat U64_MAX"
    by (simp add: length_example_frame U64_MAX_def)
  moreover obtain t' files' sent where b: "wal_batch plain_wal
      \<lparr>be_write = WriteOk, be_auto_rotate = True, be_explicit_rotate = True\<rparr> (appends ?items)
      (ws_task example_start) (ws_files example_start) = (t', files', sent)" by (metis prod_cases3)
  moreover obtain w' files'' rs where a: "ww_appends plain_wal (map fst ?items) (example_writer 0 0)
      (ws_files example_start) = (w', files'', rs)" by (metis prod_cases3)
  ultimately have "wt_writer t' = w'"
    using group_commit_equals_appends [of "ws_files example_start" "example_writer 0 0" plain_wal ?items
        "\<lparr>be_write = WriteOk, be_auto_rotate = True, be_explicit_rotate = True\<rparr>" 0 t' files' sent w' files'' rs]
    by (simp add: ws_task_def)
  with a b show ?thesis by simp
qed


subsection \<open>Segments of earlier runs\<close>

text \<open>
  Segment \<open>n\<close> is only listed with the largest sequence number, as \<open>WalWriter::open\<close> lists
  the segments it finds below the current one.
\<close>

definition listed_as_max :: "path \<Rightarrow> u64 \<Rightarrow> wal_writer \<Rightarrow> bool" where
  "listed_as_max dir n w \<longleftrightarrow>
     ww_wal_dir w = dir \<and> n < ww_current_segment w \<and>
     (\<forall>x \<in> set (ww_completed_segments w). fst x = n \<longrightarrow> snd x = U64_MAX)"

lemma listed_as_max_open:
  assumes "ww_open names SegmentOk dir max_bytes seq files = (files', Inr w)" "n < ww_current_segment w"
  shows "listed_as_max dir n w"
  using assms by (auto simp: ww_open_def listed_as_max_def Let_def)

lemma listed_as_max_auto_rotate:
  assumes "listed_as_max dir n w" "unat (ww_current_segment w) + 1 < 2 ^ 64"
    "auto_rotate ok w files = (w', files')"
  shows "listed_as_max dir n w'" "unat (ww_current_segment w') \<le> unat (ww_current_segment w) + 1"
proof -
  have u: "unat (ww_current_segment w + 1) = unat (ww_current_segment w) + 1"
    using assms(2) by (simp add: unat_word_ariths)
  then have "n < ww_current_segment w \<Longrightarrow> n < ww_current_segment w + 1" by (simp add: word_less_nat_alt)
  with u assms(1,3) show "listed_as_max dir n w'"
    "unat (ww_current_segment w') \<le> unat (ww_current_segment w) + 1"
    by (auto simp: auto_rotate_def ww_rotate_def listed_as_max_def Let_def split: if_splits)
qed

lemma foldl_max_less:
  "(a :: u64) < m \<Longrightarrow> \<forall>x \<in> set xs. x < m \<Longrightarrow> foldl max a xs < m"
  by (induction xs arbitrary: a) auto

lemma listed_as_max_drain:
  assumes "listed_as_max dir n w" "\<forall>d \<in> set drains. fst d < U64_MAX" "drain_requests drains w = (w', sent)"
  shows "listed_as_max dir n w'" "ww_current_segment w' = ww_current_segment w"
    "segment_path dir n \<notin> reply_paths sent"
proof -
  let ?m = "foldl max 0 (map fst drains)"
  have "?m < U64_MAX" using assms(2) by (intro foldl_max_less) (auto simp: U64_MAX_def)
  then have "segment_path dir n \<notin> set (snd (drain_completed_before ?m w))"
    using assms(1) by (auto simp: drain_completed_before_def listed_as_max_def)
  moreover have "sent = [] \<or> sent = map (\<lambda>(_, reply). (reply, PathsReply (Inr (snd (drain_completed_before ?m w))))) drains"
    using assms(3) by (auto simp: drain_requests_def Let_def split: if_splits prod.splits)
  ultimately show "segment_path dir n \<notin> reply_paths sent" by (auto simp: reply_paths_def)
  show "listed_as_max dir n w'" "ww_current_segment w' = ww_current_segment w"
    using assms(1,3) by (auto simp: drain_requests_def drain_completed_before_def listed_as_max_def Let_def split: if_splits)
qed


lemma rotates_of_append [simp]: "rotates_of (a @ b) = rotates_of a @ rotates_of b"
  by (induction a rule: rotates_of.induct) auto

lemma drains_of_append [simp]: "drains_of (a @ b) = drains_of a @ drains_of b"
  by (induction a rule: drains_of.induct) auto

lemma commit_failed_no_paths:
  "reply_paths (b_sent b) = {} \<Longrightarrow> commit_failed b n t files = (t', files', sent) \<Longrightarrow> reply_paths sent = {}"
  by (auto simp: commit_failed_def reply_paths_def split: option.splits)

lemma listed_as_max_batch:
  assumes "listed_as_max dir n (wt_writer t)" "unat (ww_current_segment (wt_writer t)) + 1 < 2 ^ 64"
    "rotates_of msgs = []" "\<forall>d \<in> set (drains_of msgs). fst d < U64_MAX"
    "wal_batch c env msgs t files = (t', files', sent)"
  shows "listed_as_max dir n (wt_writer t')" "segment_path dir n \<notin> reply_paths sent"
    "unat (ww_current_segment (wt_writer t')) \<le> unat (ww_current_segment (wt_writer t)) + 1"
proof -
  let ?b = "gather c msgs (ww_current_seq (wt_writer t))"
  have "listed_as_max dir n (wt_writer t') \<and> segment_path dir n \<notin> reply_paths sent \<and>
      unat (ww_current_segment (wt_writer t')) \<le> unat (ww_current_segment (wt_writer t)) + 1"
  proof (cases "b_frames ?b = [] \<or> be_write env = WriteOk")
    case False
    then obtain k where f: "commit_failed ?b k t files = (t', files', sent)"
      using assms(5) by (cases "be_write env") (auto simp: wal_batch_def Let_def)
    then show ?thesis
      using commit_failed_no_paths [OF _ f] assms(1)
      by (auto simp: commit_failed_def listed_as_max_def)
  next
    case True
    then have ok: "commit_ok env ?b t files = (t', files', sent)"
      using assms(5) by (auto simp: wal_batch_def Let_def split: if_splits)
    let ?w1 = "(wt_writer t)\<lparr>ww_current_seq := b_current_seq ?b,
      ww_current_size := ww_current_size (wt_writer t) + word_of_nat (length (b_frames ?b))\<rparr>"
    let ?files1 = "if b_frames ?b = [] then files else fs_append (ww_file (wt_writer t)) (b_frames ?b) files"
    obtain w2 files2 where a: "auto_rotate (be_auto_rotate env) ?w1 ?files1 = (w2, files2)" by fastforce
    obtain w3 drained where d: "drain_requests (drains_of msgs) w2 = (w3, drained)" by fastforce
    have res: "wt_writer t' = w3" "reply_paths sent = reply_paths drained"
      using ok a d assms(3) by (auto simp: commit_ok_def rotate_request_def Let_def)
    have "listed_as_max dir n ?w1" "unat (ww_current_segment ?w1) + 1 < 2 ^ 64"
      using assms(1,2) by (simp_all add: listed_as_max_def)
    from listed_as_max_auto_rotate [OF this a] listed_as_max_drain [OF _ assms(4) d] show ?thesis
      by (simp add: res)
  qed
  then show "listed_as_max dir n (wt_writer t')" "segment_path dir n \<notin> reply_paths sent"
    "unat (ww_current_segment (wt_writer t')) \<le> unat (ww_current_segment (wt_writer t)) + 1" by blast+
qed

lemma listed_as_max_run:
  "listed_as_max dir n (wt_writer t) \<Longrightarrow> unat (ww_current_segment (wt_writer t)) + length envs < 2 ^ 64 \<Longrightarrow>
   rotates_of queue = [] \<Longrightarrow> \<forall>d \<in> set (drains_of queue). fst d < U64_MAX \<Longrightarrow>
   segment_path dir n \<notin> reply_paths (snd (snd (wal_task_run c max_batch envs queue t files)))"
proof (induction c max_batch envs queue t files rule: wal_task_run.induct)
  case (2 c max_batch k env envs queue t files)
  show ?case
  proof (cases "take_batch max_batch k queue")
    case (Some a)
    obtain msgs rest where a: "take_batch max_batch k queue = Some (msgs, rest)" using Some by (cases a) auto
    obtain t1 files1 sent where b: "wal_batch c env msgs t files = (t1, files1, sent)" by (metis prod_cases3)
    note q = take_batch_some(1) [OF a]
    have "unat (ww_current_segment (wt_writer t)) + 1 < 2 ^ 64" using "2.prems"(2) by simp
    from listed_as_max_batch [OF "2.prems"(1) this _ _ b] "2.prems" q
    have r: "listed_as_max dir n (wt_writer t1)" "segment_path dir n \<notin> reply_paths sent"
      "unat (ww_current_segment (wt_writer t1)) + length envs < 2 ^ 64" by auto
    have "segment_path dir n \<notin> reply_paths (snd (snd (wal_task_run c max_batch envs rest t1 files1)))"
      using "2.IH" [OF a refl b [symmetric] refl r(1,3)] "2.prems" q by auto
    with r(2) show ?thesis by (auto simp: a b split: prod.splits)
  qed simp
qed simp

text \<open>
  C29.  The segments an earlier run left below the highest one are never handed out for
  deletion: whatever messages the task gets, other than an explicit rotation or a sequence of
  the largest number, no reply names such a segment, although \<open>WalWriter::open\<close> lists it as
  safe to delete.
\<close>

theorem earlier_segments_never_drained:
  assumes "ww_open names SegmentOk dir max_bytes seq files0 = (files, Inr w)" "n < ww_current_segment w"
    "unat (ww_current_segment w) + length envs < 2 ^ 64"
    "rotates_of queue = []" "\<forall>d \<in> set (drains_of queue). fst d < U64_MAX"
    "wt_spawn capacity w = Some t" "wal_task_run c max_batch envs queue t files = (t', files', sent)"
    "(reply, PathsReply (Inr paths)) \<in> set sent"
  shows "segment_path dir n \<notin> set paths"
proof -
  have t: "t = new_task w" using assms(6) by (simp add: wt_spawn_def split: if_splits)
  have "listed_as_max dir n (wt_writer t)"
    using listed_as_max_open [OF assms(1,2)] by (simp add: t new_task_def)
  moreover have "unat (ww_current_segment (wt_writer t)) + length envs < 2 ^ 64"
    using assms(3) by (simp add: t new_task_def)
  ultimately have "segment_path dir n \<notin> reply_paths sent"
    using listed_as_max_run [of dir n t envs queue c max_batch files] assms(4,5,7) by simp
  with assms(8) show ?thesis by (auto simp: reply_paths_def)
qed

abbreviation example_reopened :: wal_writer where
  "example_reopened \<equiv>
     \<lparr>ww_file = segment_path [''wal''] 2, ww_current_seq = 0, ww_current_size = 0,
      ww_current_segment = 2, ww_wal_dir = [''wal''], ww_max_segment_bytes = 1,
      ww_completed_segments = [(1, U64_MAX)]\<rparr>"

theorem earlier_segments_never_drained_witness:
  "\<exists>paths. (4, PathsReply (Inr paths)) \<in> set (snd (snd (wal_task_run plain_wal 1
      [(0, \<lparr>be_write = WriteOk, be_auto_rotate = True, be_explicit_rotate = True\<rparr>)] [DrainBefore 9 4]
      (new_task example_reopened) [segment_path [''wal''] 2 \<mapsto> []]))) \<and>
    segment_path [''wal''] 1 \<notin> set paths"
proof -
  let ?files = "[segment_path [''wal''] 2 \<mapsto> []]"
  let ?w = example_reopened
  let ?env = "\<lparr>be_write = WriteOk, be_auto_rotate = True, be_explicit_rotate = True\<rparr>"
  have "[1..<2] = [1 :: nat]" by (simp add: upt_rec)
  have "highest_segment_number (map segment_name [2]) = Some 2"
    by (subst highest_segment_number_segments) simp_all
  with \<open>[1..<2] = [1]\<close> have "ww_open [segment_name 2] SegmentOk [''wal''] 1 0 ?files = (?files, Inr ?w)"
    by (simp add: ww_open_def fs_open_append_def Let_def)
  moreover have "wt_spawn 1024 ?w = Some (new_task ?w)" by (simp add: wt_spawn_def channel_ok_def)
  moreover have run: "wal_task_run plain_wal 1 [(0, ?env)] [DrainBefore 9 4] (new_task ?w) ?files =
      (new_task ?w, ?files, [(4, PathsReply (Inr []))])"
    by (simp add: take_batch_def wal_batch_def gather_def batch_init_def commit_ok_def auto_rotate_def
        drain_requests_def drain_completed_before_def rotate_request_def new_task_def U64_MAX_def Let_def)
  ultimately have "segment_path [''wal''] 1 \<notin> set []"
    using earlier_segments_never_drained [of "[segment_name 2]" "[''wal'']" 1 0 ?files ?files ?w 1
        "[(0, ?env)]" "[DrainBefore 9 4]" 1024 "new_task ?w" plain_wal 1 "new_task ?w" ?files "[(4, PathsReply (Inr []))]" 4 "[]"]
    by (simp add: U64_MAX_def)
  with run show ?thesis by auto
qed


subsection \<open>After a failure\<close>

abbreviation env_ok :: batch_env where
  "env_ok \<equiv> \<lparr>be_write = WriteOk, be_auto_rotate = True, be_explicit_rotate = True\<rparr>"

lemmas run_simps = take_batch_def wal_batch_def gather_def batch_init_def commit_ok_def commit_failed_def
  auto_rotate_def drain_requests_def rotate_request_def drain_completed_before_def ww_rotate_def
  current_segment_path_def fs_append_def fs_open_append_def Let_def

text \<open>The answers to a batch of appends that is committed.\<close>

definition acknowledged :: "(data_point list \<times> nat) list \<Rightarrow> wal_log \<Rightarrow> (nat \<times> wal_reply) list" where
  "acknowledged items log = map (\<lambda>(seq, reply). (reply, SeqReply (Inr seq))) (zip (map fst log) (map snd items))"

lemma wal_batch_appends:
  assumes "be_write env = WriteOk" "files (ww_file w) \<noteq> None" "new = batch_log (ww_current_seq w) (appends items)"
    "auto_rotate (be_auto_rotate env)
       (w\<lparr>ww_current_seq := ww_current_seq w + word_of_nat (length items),
          ww_current_size := ww_current_size w + word_of_nat (length (log_bytes c new))\<rparr>)
       (fs_append (ww_file w) (log_bytes c new) files) = (w2, files2)"
  shows "wal_batch c env (appends items) \<lparr>wt_writer = w, wt_last_seq = l\<rparr> files =
    (\<lparr>wt_writer = w2, wt_last_seq = (if items = [] then l else ww_current_seq w + word_of_nat (length items))\<rparr>,
     files2, acknowledged items new)"
proof -
  have sent: "b_sent (gather c (appends items) seq) = []" for seq by (simp add: gather_def gather_appends_sent batch_init_def)
  have last: "last (map fst new) = ww_current_seq w + word_of_nat (length items)" if "items \<noteq> []"
    using that last_batch_log [of "ww_current_seq w" "appends items"] by (simp add: assms(3) batch_log_Nil)
  have nil: "new = [] \<longleftrightarrow> items = []" by (simp add: assms(3) batch_log_Nil)
  have "commit_ok env (gather c (appends items) (ww_current_seq w)) \<lparr>wt_writer = w, wt_last_seq = l\<rparr> files =
    (\<lparr>wt_writer = w2, wt_last_seq = (if map fst new = [] then l else last (map fst new))\<rparr>, files2,
     acknowledged items new)"
    using commit_ok_parts [where b = "gather c (appends items) (ww_current_seq w)" and w = w and files = files and
        env = env and ?w2.0 = w2 and ?files2.0 = files2 and ?w3.0 = w2 and drained = "[]" and ?w4.0 = w2 and
        ?files4.0 = files2 and rotated = "[]" and l = l, OF _ refl] assms(2-4)
    by (simp add: sent drain_requests_def rotate_request_def acknowledged_def)
  then show ?thesis using assms(1) last by (simp add: wal_batch_def Let_def nil)
qed

lemma take_torn:
  assumes "k < length log" "log ! k = (seq, points)" "m < length (encode_frame c seq points)"
  shows "take (length (log_bytes c (take k log)) + m) (log_bytes c log) =
    log_bytes c (take k log) @ take m (encode_frame c seq points)"
proof -
  have "log_bytes c log = log_bytes c (take k log) @ encode_frame c seq points @ log_bytes c (drop (Suc k) log)"
    using assms(2) by (subst id_take_nth_drop [OF assms(1)]) simp
  then show ?thesis using assms(3) by simp
qed

text \<open>
  C27.  A failed write hides later batches. In any state the task can reach, let the write of
  a batch fail inside the frame of its entry \<open>k\<close>, past the eight bytes of the frame's header. The
  task goes on in the same segment: a following batch of appends that is written (and does
  not fill the segment) is acknowledged entry by entry. When the checksum in the torn header
  does not happen to be that of the bytes read in place of the payload, recovery with any
  watermark not below the sequences given to garbage collection returns the entries
  acknowledged before and the \<open>k\<close> whole entries of the failed batch, and nothing of the later
  batch.
\<close>

theorem failed_write_hides_later_batches:
  assumes "prost_lossless c" "wal_start c s0" "(wal_step c)\<^sup>*\<^sup>* s0 s" "batch_ok c msgs (ws_writer s)"
    "new = batch_log (ww_current_seq (ws_writer s)) msgs" "k < length new" "new ! k = (seq, points)"
    "8 \<le> m" "m < length (encode_frame c seq points)"
    "be_write env = WriteFail (length (log_bytes c (take k new)) + m)"
    "wal_batch c env msgs (ws_task s) (ws_files s) = (t1, files1, sent1)"
    "batch = batch_log (ww_current_seq (wt_writer t1)) (appends items)" "be_write env2 = WriteOk"
    "ww_current_size (ws_writer s) + word_of_nat (length (log_bytes c batch)) < ww_max_segment_bytes (ws_writer s)"
    "wal_batch c env2 (appends items) t1 files1 = (t2, files2, sent2)"
    "wal_crc32 c (misread c seq points m (log_bytes c batch)) \<noteq> wal_crc32 c (encode_to_vec c (wal_entry_of seq points))"
    "ws_gc s \<le> wm" "lists_dir files2 (ws_dir s) names"
  shows "sent2 = acknowledged items batch \<and>
    (\<exists>res. recover c all_read files2 (ws_dir s) names wm = Inr res \<and>
       rr_points res = concat (map snd (above wm (ws_acked s @ take k new))) \<and> rr_torn_write_detected res)"
proof -
  let ?w = "ws_writer s"
  let ?torn = "log_bytes c (take k new) @ take m (encode_frame c seq points)"
  let ?w2 = "(wt_writer t1)\<lparr>ww_current_seq := ww_current_seq (wt_writer t1) + word_of_nat (length items),
      ww_current_size := ww_current_size (wt_writer t1) + word_of_nat (length (log_bytes c batch))\<rparr>"
  let ?files2 = "fs_append (ww_file (wt_writer t1)) (log_bytes c batch) files1"
  obtain gs log where disk: "wal_disk c ?w (ws_files s) (ws_acked s) (ws_gc s) (ws_pend s) gs log"
    using wal.inv_reachable [OF assms(2,3)] by (auto simp: wal_inv_def)
  then have lay: "wal_layout c ?w (ws_files s) gs log" by (simp add: wal_disk_def)
  have "new \<noteq> []" using assms(6) by auto
  then have t1: "t1 = (ws_task s)\<lparr>wt_writer := ?w\<lparr>ww_current_seq := ww_current_seq ?w + word_of_nat (length (append_replies msgs))\<rparr>\<rparr>"
    and files1: "files1 = fs_append (ww_file ?w) ?torn (ws_files s)"
    using assms(5,10,11) take_torn [OF assms(6,7,9)]
    by (auto simp: wal_batch_def commit_failed_def ws_task_def Let_def)
  have w1: "t1 = \<lparr>wt_writer = wt_writer t1, wt_last_seq = wt_last_seq t1\<rparr>" by simp
  have "wal_batch c env2 (appends items) \<lparr>wt_writer = wt_writer t1, wt_last_seq = wt_last_seq t1\<rparr> files1 =
      (t2, files2, sent2)" by (subst w1 [symmetric]) (rule assms(15))
  moreover have "files1 (ww_file (wt_writer t1)) \<noteq> None"
    using wal_layout_file [OF lay] by (simp add: files1 t1 fs_append_def)
  moreover have "\<not> ww_max_segment_bytes ?w \<le> ww_current_size ?w + word_of_nat (length (log_bytes c batch))"
    using assms(14) by (simp add: not_le)
  then have "auto_rotate (be_auto_rotate env2) ?w2 ?files2 = (?w2, ?files2)"
    by (simp add: auto_rotate_def t1 ws_task_def)
  ultimately have sent2: "sent2 = acknowledged items batch" and files2: "files2 = ?files2"
    using wal_batch_appends [OF assms(13) _ assms(12), of files1 c ?w2 ?files2 "wt_last_seq t1"] by simp_all
  have files2': "files2 = fs_append (segment_path (ws_dir s) (ww_current_segment ?w))
      (log_bytes c (take k new) @ take m (encode_frame c seq points) @ log_bytes c batch) (ws_files s)"
    using lay by (simp add: files2 files1 t1 ws_task_def fs_append_fs_append wal_layout_def)
  have holds: "dir_holds c files2 (ws_dir s)
      (gs @ [(ww_current_segment ?w, log @ take k new, take m (encode_frame c seq points) @ log_bytes c batch)])"
    unfolding files2' using lay by (intro dir_holds_append) (simp add: wal_layout_def)
  have fits: "\<forall>e \<in> set new. entry_fits c e" using assms(4,5) by (simp add: batch_ok_def)
  then have "entry_fits c (seq, points)" using assms(6,7) nth_mem by fastforce
  moreover have "\<forall>e \<in> set (log @ take k new). entry_fits c e"
    using lay fits set_take_subset [of k new] by (auto simp: wal_layout_def)
  moreover have "\<forall>g \<in> set gs. segment_ok c g" using lay by (simp add: wal_layout_def)
  moreover have "above wm (segs_log gs @ log @ take k new) = above wm (ws_acked s @ take k new)"
    using above_eq_mono [OF _ assms(17), of "segs_log (segs_of ?w gs log)" "ws_acked s"] disk
    by (simp add: wal_disk_def segs_log_snoc)
  ultimately show ?thesis
    using recover_misread [OF assms(1) holds _ _ assms(18) _ assms(8,16), of wm] sent2 by (simp only:)
qed

lemma example_misread:
  "wal_crc32 plain_wal (misread plain_wal 1 [example_point 5] 8 (log_bytes plain_wal [(2, [example_point 6])])) \<noteq>
   wal_crc32 plain_wal (encode_to_vec plain_wal (wal_entry_of 1 [example_point 5]))"
  by code_simp

theorem failed_write_hides_later_batches_witness:
  "\<exists>t1 files1 sent1 t2 files2 res.
     wal_batch plain_wal (env_ok\<lparr>be_write := WriteFail 8\<rparr>) [Append [example_point 5] 7] (ws_task example_start)
       (ws_files example_start) = (t1, files1, sent1) \<and>
     wal_batch plain_wal env_ok [Append [example_point 6] 8] t1 files1 = (t2, files2, [(8, SeqReply (Inr 2))]) \<and>
     recover plain_wal all_read files2 [''wal''] [segment_name 1] 0 = Inr res \<and> rr_points res = []"
proof -
  let ?w = "ws_writer example_start"
  have ok: "batch_ok plain_wal [Append [example_point 5] 7] ?w" by (simp add: example_batch_ok)
  obtain t1 files1 sent1 where b1: "wal_batch plain_wal (env_ok\<lparr>be_write := WriteFail 8\<rparr>) [Append [example_point 5] 7]
      (ws_task example_start) (ws_files example_start) = (t1, files1, sent1)" by (metis prod_cases3)
  have ne: "encode_frame plain_wal seq [example_point t] \<noteq> []" for seq t
    using length_example_frame [of seq t] by auto
  have t1: "ww_current_seq (wt_writer t1) = 1" "files1 = [segment_path [''wal''] 1 \<mapsto> take 8 example_frame]"
    "ww_file (wt_writer t1) = segment_path [''wal''] 1"
    using b1 by (auto simp: run_simps ws_task_def ne)
  obtain t2 files2 sent2 where b2: "wal_batch plain_wal env_ok (appends [([example_point 6], 8)]) t1 files1 =
      (t2, files2, sent2)" by (metis prod_cases3)
  have lt: "\<not> U64_MAX \<le> word_of_nat (length (encode_frame plain_wal 2 [example_point 6]))"
    by (simp add: length_example_frame U64_MAX_def)
  have files2: "files2 = [segment_path [''wal''] 1 \<mapsto> take 8 example_frame @ encode_frame plain_wal 2 [example_point 6]]"
    using b1 b2 by (auto simp: run_simps ws_task_def ne lt)
  then have names: "lists_dir files2 [''wal''] [segment_name 1]" by (auto simp: lists_dir_def segment_path_def)
  have "sent2 = acknowledged [([example_point 6], 8)] [(2, [example_point 6])] \<and>
    (\<exists>res. recover plain_wal all_read files2 (ws_dir example_start) [segment_name 1] 0 = Inr res \<and>
       rr_points res = concat (map snd (above 0 (ws_acked example_start @ take 0 [(1, [example_point 5])]))) \<and>
       rr_torn_write_detected res)"
    by (rule failed_write_hides_later_batches [OF plain_wal_lossless example_starts rtranclp.rtrancl_refl ok _ _ _ _ _ _ b1 _ _ _ b2])
      (use example_misread names in \<open>simp_all add: t1 length_example_frame U64_MAX_def\<close>)
  with b1 b2 show ?thesis by (auto simp: acknowledged_def above_def)
qed

text \<open>A batch of appends that fills the segment.\<close>

lemma wal_batch_fills:
  assumes "be_write env = WriteOk" "files (ww_file w) \<noteq> None" "new = batch_log (ww_current_seq w) (appends items)"
    "ww_max_segment_bytes w \<le> ww_current_size w + word_of_nat (length (log_bytes c new))"
    "wal_batch c env (appends items) \<lparr>wt_writer = w, wt_last_seq = ww_current_seq w\<rparr> files = (t', files', sent)"
  shows "sent = acknowledged items new" "wt_last_seq t' = ww_current_seq w + word_of_nat (length items)"
    "\<exists>u. ww_rotate (be_auto_rotate env)
       (w\<lparr>ww_current_seq := ww_current_seq w + word_of_nat (length items),
          ww_current_size := ww_current_size w + word_of_nat (length (log_bytes c new))\<rparr>)
       (fs_append (ww_file w) (log_bytes c new) files) = (wt_writer t', files', u)"
proof -
  let ?w1 = "w\<lparr>ww_current_seq := ww_current_seq w + word_of_nat (length items),
      ww_current_size := ww_current_size w + word_of_nat (length (log_bytes c new))\<rparr>"
  let ?files1 = "fs_append (ww_file w) (log_bytes c new) files"
  obtain w2 files2 u where rot: "ww_rotate (be_auto_rotate env) ?w1 ?files1 = (w2, files2, u)" by (metis prod_cases3)
  have "auto_rotate (be_auto_rotate env) ?w1 ?files1 = (w2, files2)"
    using assms(4) by (simp add: auto_rotate_def rot)
  from wal_batch_appends [OF assms(1-3) this, of "ww_current_seq w"] assms(5) rot
  show "sent = acknowledged items new" "wt_last_seq t' = ww_current_seq w + word_of_nat (length items)"
    "\<exists>u. ww_rotate (be_auto_rotate env) ?w1 ?files1 = (wt_writer t', files', u)" by auto
qed

lemma wal_batch_drain:
  assumes "wal_batch c env [DrainBefore seq reply] t files = (t', files', sent)"
    "ww_current_size (wt_writer t) < ww_max_segment_bytes (wt_writer t)" "(n, m) \<in> set (ww_completed_segments (wt_writer t))"
    "m \<le> seq"
  shows "files' = files \<and>
    (\<exists>paths. sent = [(reply, PathsReply (Inr paths))] \<and> segment_path (ww_wal_dir (wt_writer t)) n \<in> set paths)"
proof -
  let ?w = "wt_writer t"
  let ?paths = "map (\<lambda>(seg, m). segment_path (ww_wal_dir ?w) seg) (filter (\<lambda>(seg, m). m \<le> seq) (ww_completed_segments ?w))"
  have "\<not> ww_max_segment_bytes ?w \<le> ww_current_size ?w" using assms(2) by (simp add: not_le)
  moreover have "max 0 seq = seq" by (simp add: max_def)
  ultimately have "snd (wal_batch c env [DrainBefore seq reply] t files) = (files, [(reply, PathsReply (Inr ?paths))])"
    by (simp add: run_simps)
  moreover have "segment_path (ww_wal_dir ?w) n \<in> set ?paths" using assms(3,4) by force
  ultimately show ?thesis using assms(1) by simp
qed

text \<open>The directory after the current segment is deleted and a later one opened.\<close>

lemma recover_without_current:
  assumes prost: "prost_lossless c" and disk: "wal_disk c w files acked gc pend gs log"
    and q: "ww_current_seq w \<le> q" "gc \<le> q" and n: "ww_current_segment w < n"
    and files': "files' = (fs_open_append (segment_path (ww_wal_dir w) n)
      (fs_append (ww_file w) (log_bytes c new) files))(ww_file w := None)"
    and names: "lists_dir files' (ww_wal_dir w) names"
  shows "\<exists>res. recover c all_read files' (ww_wal_dir w) names q = Inr res \<and> rr_points res = []"
proof -
  let ?cur = "ww_current_segment w" and ?dir = "ww_wal_dir w"
  let ?segs = "gs @ [(?cur, log @ new, [])]" and ?files1 = "fs_append (ww_file w) (log_bytes c new) files"
  have lay: "wal_layout c w files gs log" using disk by (simp add: wal_disk_def)
  then have holds: "dir_holds c files ?dir (segs_of w gs log)" and p: "ww_file w = segment_path ?dir ?cur"
    by (simp_all add: wal_layout_def)
  have low: "fst g < ?cur" if "g \<in> set gs" for g using dir_holds_last [OF holds that] by simp
  have "dir_holds c ?files1 ?dir ?segs"
    using dir_holds_append [OF holds, of new "[]"] by (simp add: p)
  moreover have "\<forall>g \<in> set ?segs. fst g < n" using low n by (auto intro: less_trans)
  ultimately have "dir_holds c (fs_open_append (segment_path ?dir n) ?files1) ?dir (?segs @ [(n, [], [])])"
    by (rule dir_holds_fresh(2))
  from dir_holds_delete [OF this, of ?cur]
  have "dir_holds c files' ?dir (filter (\<lambda>g. fst g \<noteq> ?cur) (?segs @ [(n, [], [])]))" by (simp add: files' p)
  moreover have "filter (\<lambda>g. fst g \<noteq> ?cur) (?segs @ [(n, [], [])]) = gs @ [(n, [], [])]"
    using low n by (force simp: filter_id_conv)
  ultimately have final: "dir_holds c files' ?dir (gs @ [(n, [], [])])" by simp
  have "\<forall>g \<in> set (gs @ [(n, [], [])]). segment_ok c g" using lay by (auto simp: wal_layout_def segment_ok_def)
  note rec = recover_holds [OF prost final this names, of q]
  have "fst e \<le> q" if "e \<in> set (segs_log gs)" for e
  proof -
    have "fst e \<le> max (ww_current_seq w) gc" using that disk by (auto simp: wal_disk_def wal_seqs_def segs_log_snoc)
    then show ?thesis using q by (meson max.boundedI order_trans)
  qed
  then have "above q (segs_log gs) = []" by (auto simp: above_def filter_empty_conv not_less)
  then show ?thesis by (simp add: rec replay_segments_fields segs_log_snoc) (simp add: rr_init_def)
qed

text \<open>
  C28.  A failed rotation loses acknowledged entries. In any state the task can reach, let a
  committed batch of appends fill the segment and the rotation after it fail. The current
  segment is then listed as complete up to the last sequence, but the task keeps writing to it:
  the entries of a second batch are acknowledged, with larger sequences. A drain of the
  sequences up to the end of the first batch hands that segment out for deletion, and recovery
  after the deletion, with the drained sequence as the watermark, returns nothing. (The rotation
  after the second batch succeeds, and no segment number wraps.)
\<close>

theorem failed_rotation_loses_acknowledged_entries:
  assumes "prost_lossless c" "wal_start c s0" "(wal_step c)\<^sup>*\<^sup>* s0 s" "batch_ok c (appends items1) (ws_writer s)"
    "new = batch_log (ww_current_seq (ws_writer s)) (appends items1)" "be_write env1 = WriteOk" "\<not> be_auto_rotate env1"
    "ww_max_segment_bytes (ws_writer s) \<le> ww_current_size (ws_writer s) + word_of_nat (length (log_bytes c new))"
    "wal_batch c env1 (appends items1) (ws_task s) (ws_files s) = (t1, files1, sent1)"
    "batch_ok c (appends items2) (wt_writer t1)" "batch = batch_log (wt_last_seq t1) (appends items2)"
    "be_write env2 = WriteOk" "be_auto_rotate env2"
    "ww_max_segment_bytes (ws_writer s) \<le> ww_current_size (wt_writer t1) + word_of_nat (length (log_bytes c batch))"
    "wal_batch c env2 (appends items2) t1 files1 = (t2, files2, sent2)" "0 < ww_max_segment_bytes (ws_writer s)"
    "wal_batch c env3 [DrainBefore (wt_last_seq t1) reply] t2 files2 = (t3, files3, sent3)"
    "ws_gc s \<le> wt_last_seq t1" "files' = files3(ww_file (ws_writer s) := None)" "lists_dir files' (ws_dir s) names"
  shows "sent2 = acknowledged items2 batch \<and> (\<forall>e \<in> set batch. wt_last_seq t1 < fst e) \<and>
    (\<exists>paths. sent3 = [(reply, PathsReply (Inr paths))] \<and> ww_file (ws_writer s) \<in> set paths) \<and>
    (\<exists>res. recover c all_read files' (ws_dir s) names (wt_last_seq t1) = Inr res \<and> rr_points res = [])"
proof -
  let ?w = "ws_writer s" and ?q = "wt_last_seq t1"
  let ?n = "ww_current_segment ?w" and ?p = "segment_path (ws_dir s) (ww_current_segment ?w)"
  obtain gs log where disk: "wal_disk c ?w (ws_files s) (ws_acked s) (ws_gc s) (ws_pend s) gs log"
    and l: "ws_last_seq s = ww_current_seq ?w"
    using wal.inv_reachable [OF assms(2,3)] by (auto simp: wal_inv_def)
  then have lay: "wal_layout c ?w (ws_files s) gs log" by (simp add: wal_disk_def)
  then have cur: "ws_files s (ww_file ?w) \<noteq> None" "ww_file ?w = ?p"
    using wal_layout_file [OF lay] by (simp_all add: wal_layout_def)
  have "wal_batch c env1 (appends items1) \<lparr>wt_writer = ?w, wt_last_seq = ww_current_seq ?w\<rparr> (ws_files s) = (t1, files1, sent1)"
    using assms(9) l by (simp add: ws_task_def)
  note b1 = wal_batch_fills [OF assms(6) cur(1) assms(5,8) this]
  have w1: "wt_writer t1 = ?w\<lparr>ww_current_seq := ?q, ww_current_size := ww_current_size ?w + word_of_nat (length (log_bytes c new)),
      ww_completed_segments := ww_completed_segments ?w @ [(?n, ?q)], ww_current_segment := ?n + 1\<rparr>"
    and files1: "files1 = fs_append ?p (log_bytes c new) (ws_files s)"
    using b1(2,3) assms(7) cur(2) by (auto simp: ww_rotate_def Let_def)
  have t1: "t1 = \<lparr>wt_writer = wt_writer t1, wt_last_seq = ww_current_seq (wt_writer t1)\<rparr>" by (simp add: w1)
  have "wal_batch c env2 (appends items2) \<lparr>wt_writer = wt_writer t1, wt_last_seq = ww_current_seq (wt_writer t1)\<rparr> files1 =
      (t2, files2, sent2)" by (subst t1 [symmetric]) (rule assms(15))
  note b2 = wal_batch_fills [OF assms(12) _ _ _ this, of batch]
  have pre: "files1 (ww_file (wt_writer t1)) \<noteq> None" "batch = batch_log (ww_current_seq (wt_writer t1)) (appends items2)"
    "ww_max_segment_bytes (wt_writer t1) \<le> ww_current_size (wt_writer t1) + word_of_nat (length (log_bytes c batch))"
    using assms(11,14) cur by (auto simp: w1 files1 fs_append_def)
  obtain u where rotated: "ww_rotate (be_auto_rotate env2)
      ((wt_writer t1)\<lparr>ww_current_seq := ww_current_seq (wt_writer t1) + word_of_nat (length items2),
         ww_current_size := ww_current_size (wt_writer t1) + word_of_nat (length (log_bytes c batch))\<rparr>)
      (fs_append (ww_file (wt_writer t1)) (log_bytes c batch) files1) = (wt_writer t2, files2, u)"
    using b2(3) [OF pre] by blast
  have w2': "wt_writer t2 = ?w\<lparr>ww_current_seq := wt_last_seq t2, ww_current_size := 0,
      ww_completed_segments := ww_completed_segments ?w @ [(?n, ?q), (?n + 1, wt_last_seq t2)],
      ww_current_segment := ?n + 1 + 1, ww_file := segment_path (ws_dir s) (?n + 1 + 1)\<rparr>"
    and files2: "files2 = fs_open_append (segment_path (ws_dir s) (?n + 1 + 1)) (fs_append ?p (log_bytes c (new @ batch)) (ws_files s))"
    using b2(2) [OF pre] rotated [symmetric] assms(13) cur(2)
    by (simp_all add: ww_rotate_def current_segment_path_def Let_def w1 files1 fs_append_fs_append)
  then have w2: "ww_completed_segments (wt_writer t2) = ww_completed_segments ?w @ [(?n, ?q), (?n + 1, wt_last_seq t2)]"
      "ww_current_size (wt_writer t2) = 0" "ww_wal_dir (wt_writer t2) = ws_dir s"
      "ww_max_segment_bytes (wt_writer t2) = ww_max_segment_bytes ?w" by simp_all
  have room: "unat (?n + 1) + 2 < 2 ^ 64" "unat ?n + 2 < 2 ^ 64" using assms(4,10) by (simp_all add: batch_ok_def w1)
  have "ww_current_size (wt_writer t2) < ww_max_segment_bytes (wt_writer t2)" "(?n, ?q) \<in> set (ww_completed_segments (wt_writer t2))"
    using assms(16) by (simp_all add: w2)
  note b3 = wal_batch_drain [OF assms(17) this order_refl, unfolded w2(3), folded cur(2)]
  have seqs: "unat (ww_current_seq ?w) + length items1 < 2 ^ 64" "unat ?q + length items2 < 2 ^ 64"
    using assms(4,10) by (simp_all add: batch_ok_def w1)
  have larger: "\<forall>e \<in> set batch. ?q < fst e"
    using batch_log_bound(1) [of _ ?q "appends items2"] assms(11) seqs(2) by simp
  have "unat (word_of_nat (length items1) :: u64) = length items1" using seqs(1) by (simp add: unat_of_nat)
  then have grown: "ww_current_seq ?w \<le> ?q" using seqs(1) b1(2) by (simp add: word_le_nat_alt unat_word_ariths)
  have beyond: "?n < ?n + 1 + 1" using room by (simp add: word_less_nat_alt unat_word_ariths)
  have "files' = (fs_open_append (segment_path (ws_dir s) (?n + 1 + 1))
      (fs_append (ww_file ?w) (log_bytes c (new @ batch)) (ws_files s)))(ww_file ?w := None)"
    using b3 by (simp add: assms(19) files2 cur(2))
  from recover_without_current [OF assms(1) disk grown assms(18) beyond this assms(20)] b2(1) [OF pre] larger b3
  show ?thesis by blast
qed

abbreviation small_start :: wal_state where
  "small_start \<equiv> example_start\<lparr>ws_writer := (example_writer 0 0)\<lparr>ww_max_segment_bytes := 1\<rparr>\<rparr>"

lemma small_starts: "wal_start plain_wal small_start"
proof -
  have "wal_start plain_wal \<lparr>ws_writer = (example_writer 0 0)\<lparr>ww_max_segment_bytes := 1\<rparr>,
      ws_files = [segment_path [''wal''] 1 \<mapsto> []], ws_acked = [], ws_gc = 0, ws_pend = {}, ws_last_seq = 0\<rparr>"
    by (rule wal_start.start_fresh [where ?files0.0 = "\<lambda>_. None" and dir = "[''wal'']" and names = "[]" and max_bytes = 1])
      (simp_all add: dir_holds_def lists_dir_def ww_open_def highest_segment_number_def fs_open_append_def Let_def)
  then show ?thesis by simp
qed

theorem failed_rotation_loses_acknowledged_entries_witness:
  "\<exists>t1 files1 t2 files2 t3 files3 paths res.
     wal_batch plain_wal (env_ok\<lparr>be_auto_rotate := False\<rparr>) (appends [([example_point 5], 7)]) (ws_task small_start)
       (ws_files small_start) = (t1, files1, [(7, SeqReply (Inr 1))]) \<and>
     wal_batch plain_wal env_ok (appends [([example_point 6], 8)]) t1 files1 = (t2, files2, [(8, SeqReply (Inr 2))]) \<and>
     wal_batch plain_wal env_ok [DrainBefore 1 9] t2 files2 = (t3, files3, [(9, PathsReply (Inr paths))]) \<and>
     segment_path [''wal''] 1 \<in> set paths \<and>
     recover plain_wal all_read (files3(segment_path [''wal''] 1 := None)) [''wal''] [segment_name 3] 1 = Inr res \<and>
     rr_points res = []"
proof -
  let ?f = "\<lambda>seq t. encode_frame plain_wal seq [example_point t]"
  let ?w = "ws_writer small_start"
  have ne: "?f seq t \<noteq> []" for seq t using length_example_frame [of seq t] by auto
  define t1 where "t1 = \<lparr>wt_writer = ?w\<lparr>ww_current_seq := 1, ww_current_size := 38, ww_current_segment := 2,
        ww_completed_segments := [(1, 1)]\<rparr>, wt_last_seq = 1\<rparr>"
  define files1 :: fs where "files1 = [segment_path [''wal''] 1 \<mapsto> ?f 1 5]"
  define t2 where "t2 = \<lparr>wt_writer = ?w\<lparr>ww_file := segment_path [''wal''] 3, ww_current_seq := 2, ww_current_size := 0,
        ww_current_segment := 3, ww_completed_segments := [(1, 1), (2, 2)]\<rparr>, wt_last_seq = 2\<rparr>"
  define files2 :: fs where "files2 = [segment_path [''wal''] 1 \<mapsto> ?f 1 5 @ ?f 2 6, segment_path [''wal''] 3 \<mapsto> []]"
  have b1: "wal_batch plain_wal (env_ok\<lparr>be_auto_rotate := False\<rparr>) (appends [([example_point 5], 7)])
      (ws_task small_start) (ws_files small_start) = (t1, files1, [(7, SeqReply (Inr 1))])"
    by (simp add: t1_def files1_def run_simps ws_task_def ne length_example_frame word_le_nat_alt)
  have b2: "wal_batch plain_wal env_ok (appends [([example_point 6], 8)]) t1 files1 = (t2, files2, [(8, SeqReply (Inr 2))])"
    by (simp add: t1_def files1_def t2_def files2_def run_simps ne length_example_frame word_le_nat_alt)
  obtain t3 files3 sent3 where b3: "wal_batch plain_wal env_ok [DrainBefore (wt_last_seq t1) 9] t2 files2 =
      (t3, files3, sent3)" by (metis prod_cases3)
  then have f3: "files3 = files2" by (auto simp: run_simps t1_def t2_def word_le_nat_alt)
  have "lists_dir (files3(ww_file ?w := None)) (ws_dir small_start) [segment_name 3]"
    by (auto simp: f3 files2_def lists_dir_def segment_path_def)
  note loss = failed_rotation_loses_acknowledged_entries [OF plain_wal_lossless small_starts rtranclp.rtrancl_refl
      _ refl _ _ _ b1 _ refl _ _ _ b2 _ b3 _ refl this]
  have "(\<exists>paths. sent3 = [(9, PathsReply (Inr paths))] \<and> ww_file ?w \<in> set paths) \<and>
    (\<exists>res. recover plain_wal all_read (files3(ww_file ?w := None)) (ws_dir small_start) [segment_name 3] (wt_last_seq t1) = Inr res \<and>
       rr_points res = [])"
    by (intro conjunct2 [OF conjunct2 [OF loss]])
      (simp_all add: batch_ok_def example_entry_fits t1_def length_example_frame word_le_nat_alt)
  with b1 b2 b3 show ?thesis by (auto simp: t1_def)
qed

end
