(* ===== verification/Server.thy ===== *)
theory Server
  imports Query Config Index_Persistence Wal_Crash
begin

section \<open>The storage server\<close>

text \<open>
  \<open>server/mod.rs\<close>: the shared state, the four RPCs, the background tasks and opening after a
  crash. Every shard has a WAL task, a memtable, a live and a persisted watermark; the index
  and the chunk files are shared. An RPC handler or one round of a background task is a
  function on the state and the files; handlers that release their locks half-way are split
  into the parts between which others may run (\<open>append_wal\<close> and \<open>append_insert\<close>,
  \<open>flush_begin\<close> and \<open>flush_end\<close>). Logging and metrics are left out, and so is the failure of a
  send to a WAL task that has ended, which happens only at shutdown.
\<close>

subsection \<open>State\<close>

record server =
  sv_wals :: "wal_task list"
  sv_memtables :: "memtable list"
  sv_index :: chunk_index
  sv_chunk_dir :: path
  sv_compaction_worker :: compaction_worker
  sv_snapshot_path :: path
  sv_shard_watermarks :: "u64 list"
  sv_persisted_watermarks :: "u64 list"
  sv_append_seq :: u64


subsection \<open>Append\<close>

text \<open>A point of the request; its tags come as a \<open>HashMap\<close> and are collected in key order.\<close>

record proto_point =
  pp_metric_name :: string
  pp_tags :: "(string \<times> string) list"
  pp_timestamp_ns :: i64
  pp_value :: f64

definition decode_point :: "proto_point \<Rightarrow> data_point" where
  "decode_point pt =
     \<lparr>dp_metric_name = pp_metric_name pt, dp_tags = fold (\<lambda>(k, v). bt_insert k v) (pp_tags pt) [],
      dp_timestamp_ns = pp_timestamp_ns pt, dp_value = pp_value pt\<rparr>"

text \<open>
  \<open>sort_unstable_by_key\<close> sorts by shard and leaves the order within a shard open: the sort is
  an argument that returns a permutation with ascending shards.
\<close>

type_synonym shard_sort = "(usize \<times> nat) list \<Rightarrow> (usize \<times> nat) list"

definition sorts_by_shard :: "shard_sort \<Rightarrow> bool" where
  "sorts_by_shard srt \<longleftrightarrow> (\<forall>xs. mset (srt xs) = mset xs \<and> sorted (map fst (srt xs)))"

definition indexed_points ::
    "('h, 'z) xxh64_crate_scheme \<Rightarrow> usize \<Rightarrow> data_point list \<Rightarrow> (usize \<times> nat) list" where
  "indexed_points h shards_num pts = map (\<lambda>(i, p). (shard_index h p shards_num, i)) (enumerate 0 pts)"

text \<open>
  The loop that groups consecutive entries of one shard; \<open>partition_point\<close> finds the end of
  the run of equal shards.
\<close>

function group_runs :: "(usize \<times> nat) list \<Rightarrow> (usize \<times> nat list) list" where
  "group_runs [] = []"
| "group_runs ((shard, i) # rest) =
     (shard, i # map snd (takeWhile (\<lambda>e. fst e = shard) rest)) #
     group_runs (dropWhile (\<lambda>e. fst e = shard) rest)"
  by pat_completeness auto
termination
  by (relation "measure length") (auto simp: less_Suc_eq_le length_dropWhile_le)

definition shard_groups ::
    "('h, 'z) xxh64_crate_scheme \<Rightarrow> shard_sort \<Rightarrow> usize \<Rightarrow> data_point list \<Rightarrow> (nat \<times> data_point list) list" where
  "shard_groups h srt shards_num pts =
     map (\<lambda>(shard, is). (unat shard, map (\<lambda>i. pts ! i) is)) (group_runs (srt (indexed_points h shards_num pts)))"

text \<open>
  One task per group sends its points to the WAL task of the shard and awaits the reply. The
  shards have separate tasks and directories, so that the order of the groups does not matter;
  all of them run to the end, then the first error is returned.
\<close>

definition wal_append ::
    "'w wal_crates_scheme \<Rightarrow> batch_env \<Rightarrow> data_point list \<Rightarrow> wal_task \<Rightarrow> fs \<Rightarrow> wal_task \<times> fs \<times> u64 result" where
  "wal_append wc env points t files =
     (case wal_batch wc env [Append points 0] t files of
        (t', files', sent) \<Rightarrow>
          (t', files', case map_of sent 0 of Some (SeqReply r) \<Rightarrow> r | _ \<Rightarrow> Inl WalWriteFailed))"

fun wal_appends ::
    "'w wal_crates_scheme \<Rightarrow> (nat \<Rightarrow> batch_env) \<Rightarrow> (nat \<times> data_point list) list \<Rightarrow> wal_task list \<Rightarrow> fs \<Rightarrow>
     wal_task list \<times> fs \<times> u64 result list" where
  "wal_appends wc env [] wals files = (wals, files, [])"
| "wal_appends wc env ((shard, points) # groups) wals files =
     (case wal_append wc (env shard) points (wals ! shard) files of
        (t, files1, r) \<Rightarrow>
          (case wal_appends wc env groups (wals[shard := t]) files1 of
             (wals', files', rs) \<Rightarrow> (wals', files', r # rs)))"

definition append_wal ::
    "('h, 'z) xxh64_crate_scheme \<Rightarrow> 'w wal_crates_scheme \<Rightarrow> shard_sort \<Rightarrow> (nat \<Rightarrow> batch_env) \<Rightarrow>
     proto_point list \<Rightarrow> server \<Rightarrow> fs \<Rightarrow> server \<times> fs \<times> (nat \<times> data_point list) list result" where
  "append_wal h wc srt env req sv files =
     (let pts = map decode_point req;
          groups = shard_groups h srt (word_of_nat (length (sv_memtables sv))) pts
      in case wal_appends wc env groups (sv_wals sv) files of
           (wals', files', rs) \<Rightarrow>
             (sv\<lparr>sv_wals := wals'\<rparr>, files', rbind (collect_result (\<lambda>r. r) rs) (\<lambda>_. Inr groups)))"

definition append_insert :: "(nat \<times> data_point list) list \<Rightarrow> server \<Rightarrow> server \<times> u64" where
  "append_insert groups sv =
     (let seq = sv_append_seq sv + 1
      in (sv\<lparr>sv_memtables :=
               fold (\<lambda>(shard, points) mems. mems[shard := fold mt_insert points (mems ! shard)]) groups
                 (sv_memtables sv),
             sv_append_seq := seq\<rparr>, seq))"

definition server_append ::
    "('h, 'z) xxh64_crate_scheme \<Rightarrow> 'w wal_crates_scheme \<Rightarrow> shard_sort \<Rightarrow> (nat \<Rightarrow> batch_env) \<Rightarrow>
     proto_point list \<Rightarrow> server \<Rightarrow> fs \<Rightarrow> server \<times> fs \<times> u64 result" where
  "server_append h wc srt env req sv files =
     (case append_wal h wc srt env req sv files of
        (sv1, files1, Inl e) \<Rightarrow> (sv1, files1, Inl e)
      | (sv1, files1, Inr groups) \<Rightarrow>
          (case append_insert groups sv1 of (sv2, seq) \<Rightarrow> (sv2, files1, Inr seq)))"


subsection \<open>Query, Compact and Snapshot\<close>

definition server_query ::
    "('h, 'b, 'z) chunk_crates_scheme \<Rightarrow> query_request \<Rightarrow> nat \<Rightarrow> server \<Rightarrow> fs \<Rightarrow> query_response list" where
  "server_query c req accepted sv files = query c req (sv_memtables sv) (sv_index sv) files accepted"

definition server_compact ::
    "('h, 'b, 'z) chunk_crates_scheme \<Rightarrow> (nat \<Rightarrow> merge_env) \<Rightarrow> server \<Rightarrow> fs \<Rightarrow>
     server \<times> fs \<times> compaction_result result" where
  "server_compact c env sv files =
     (case compact_once c (sv_compaction_worker sv) env (sv_index sv) files of
        (ix, files', r) \<Rightarrow> (sv\<lparr>sv_index := ix\<rparr>, files', r))"

text \<open>The persisted watermarks follow only after the snapshot is saved.\<close>

definition store_watermarks :: "u64 list \<Rightarrow> u64 list \<Rightarrow> u64 list" where
  "store_watermarks old new = map snd (zip old new) @ drop (length new) old"

definition server_snapshot ::
    "'b bincode_crate_scheme \<Rightarrow> save_outcome \<Rightarrow> server \<Rightarrow> fs \<Rightarrow> server \<times> fs \<times> path result" where
  "server_snapshot bc io sv files =
     (let watermarks = sv_shard_watermarks sv
      in case save_index bc io (sv_index sv) (sv_snapshot_path sv) watermarks files of
           (files', Inl e) \<Rightarrow> (sv, files', Inl e)
         | (files', Inr _) \<Rightarrow>
             (sv\<lparr>sv_persisted_watermarks := store_watermarks (sv_persisted_watermarks sv) watermarks\<rparr>,
              files', Inr (sv_snapshot_path sv)))"


subsection \<open>The memtable sweep\<close>

text \<open>
  One shard of the sweep. First the memtable is drained under its lock; then, without the
  lock, the chunk is written and registered, the watermark is set to the published sequence of
  the shard's WAL and the segments covered by the persisted watermark are deleted.
\<close>

definition flush_begin :: "nat \<Rightarrow> server \<Rightarrow> server \<times> series_map option" where
  "flush_begin i sv =
     (let mem = sv_memtables sv ! i
      in if mt_should_flush mem
         then case mt_drain mem of
                (mem', drained) \<Rightarrow> (sv\<lparr>sv_memtables := (sv_memtables sv)[i := mem']\<rparr>, Some drained)
         else (sv, None))"

record flush_env =
  fe_now :: nat
  fe_write :: create_outcome
  fe_wal :: batch_env
  fe_removed :: "path \<Rightarrow> bool"

definition wal_drain ::
    "'w wal_crates_scheme \<Rightarrow> batch_env \<Rightarrow> u64 \<Rightarrow> wal_task \<Rightarrow> fs \<Rightarrow> wal_task \<times> fs \<times> path list result" where
  "wal_drain wc env seq t files =
     (case wal_batch wc env [DrainBefore seq 0] t files of
        (t', files', sent) \<Rightarrow>
          (t', files', case map_of sent 0 of Some (PathsReply r) \<Rightarrow> r | _ \<Rightarrow> Inl WalWriteFailed))"

definition flush_end ::
    "('h, 'b, 'z) chunk_crates_scheme \<Rightarrow> 'w wal_crates_scheme \<Rightarrow> flush_env \<Rightarrow> nat \<Rightarrow> series_map \<Rightarrow> server \<Rightarrow> fs \<Rightarrow>
     server \<times> fs \<times> unit result" where
  "flush_end c wc env i drained sv files =
     (case cw_write c (sv_chunk_dir sv) (fe_now env) (fe_write env) drained files of
        (files1, Inl e) \<Rightarrow> (sv, files1, Inl e)
      | (files1, Inr res) \<Rightarrow>
          (let seq = wt_current_sequence (sv_wals sv ! i);
               gc_seq = sv_persisted_watermarks sv ! i
           in case wal_drain wc (fe_wal env) gc_seq (sv_wals sv ! i) files1 of
                (t, files2, r) \<Rightarrow>
                  (sv\<lparr>sv_index := register_results c res (sv_index sv),
                      sv_shard_watermarks := (sv_shard_watermarks sv)[i := seq],
                      sv_wals := (sv_wals sv)[i := t]\<rparr>,
                   (case r of Inl _ \<Rightarrow> files2 | Inr paths \<Rightarrow> remove_files (fe_removed env) paths files2),
                   Inr ())))"

definition flush_shard ::
    "('h, 'b, 'z) chunk_crates_scheme \<Rightarrow> 'w wal_crates_scheme \<Rightarrow> flush_env \<Rightarrow> nat \<Rightarrow> server \<Rightarrow> fs \<Rightarrow>
     server \<times> fs \<times> unit result" where
  "flush_shard c wc env i sv files =
     (case flush_begin i sv of
        (sv1, None) \<Rightarrow> (sv1, files, Inr ())
      | (sv1, Some drained) \<Rightarrow> flush_end c wc env i drained sv1 files)"

text \<open>A round over all shards: a failed flush is logged and the next shard is swept.\<close>

definition sweep ::
    "('h, 'b, 'z) chunk_crates_scheme \<Rightarrow> 'w wal_crates_scheme \<Rightarrow> (nat \<Rightarrow> flush_env) \<Rightarrow> server \<Rightarrow> fs \<Rightarrow> server \<times> fs" where
  "sweep c wc env sv files =
     fold (\<lambda>i (sv, files). case flush_shard c wc (env i) i sv files of (sv', files', _) \<Rightarrow> (sv', files'))
       [0..<length (sv_memtables sv)] (sv, files)"


subsection \<open>Opening\<close>

text \<open>
  What the environment does while the server opens: the read of the snapshot, the listing of
  every shard's directory and the paths that can be read, the clock and the outcome of the
  recovery chunk, the calls of the WAL writer and the deletion of segments.
\<close>

record open_env =
  oe_load :: load_outcome
  oe_read :: "path \<Rightarrow> bool"
  oe_names :: "nat \<Rightarrow> string list"
  oe_now :: "nat \<Rightarrow> nat"
  oe_write :: "nat \<Rightarrow> create_outcome"
  oe_open :: "nat \<Rightarrow> segment_outcome"
  oe_rotate :: "nat \<Rightarrow> bool"
  oe_removed :: "path \<Rightarrow> bool"

definition watermark_at :: "u64 list \<Rightarrow> nat \<Rightarrow> u64" where
  "watermark_at watermarks i = (if i < length watermarks then watermarks ! i else 0)"

text \<open>The replayed points go through a memtable into a chunk of their own.\<close>

definition recovery_chunk ::
    "('h, 'b, 'z) chunk_crates_scheme \<Rightarrow> storage_config \<Rightarrow> nat \<Rightarrow> create_outcome \<Rightarrow> data_point list \<Rightarrow>
     chunk_index \<Rightarrow> fs \<Rightarrow> fs \<times> chunk_index result" where
  "recovery_chunk c cf now io points ix files =
     (if points = [] then (files, Inr ix)
      else
        let memtable = fold mt_insert points (mt_new (cf_memtable_flush_threshold_bytes cf))
        in case cw_write c (cf_chunk_dir cf) now io (snd (mt_drain memtable)) files of
             (files', Inl e) \<Rightarrow> (files', Inl e)
           | (files', Inr results) \<Rightarrow> (files', Inr (register_results c results ix)))"

text \<open>
  The writer of a shard: opened at the sequence recovery found, rotated when a segment was
  replayed, and the segments below the threshold deleted; then its task is spawned, which may
  panic.
\<close>

definition open_writer ::
    "storage_config \<Rightarrow> open_env \<Rightarrow> nat \<Rightarrow> recovery_result \<Rightarrow> u64 \<Rightarrow> fs \<Rightarrow> fs \<times> wal_task result" where
  "open_writer cf env i recovery shard_watermark files =
     (case ww_open (oe_names env i) (oe_open env i) (shard_dir (cf_wal_dir cf) i)
             (cf_wal_max_segment_bytes cf) (rr_last_sequence recovery) files of
        (files1, Inl e) \<Rightarrow> (files1, Inl e)
      | (files1, Inr w) \<Rightarrow>
          (case (if 0 < rr_segments_replayed recovery then ww_rotate (oe_rotate env i) w files1
                 else (w, files1, Inr ())) of
             (w1, files2, Inl e) \<Rightarrow> (files2, Inl e)
           | (w1, files2, Inr _) \<Rightarrow>
               (let drain_threshold =
                      (if rr_points recovery \<noteq> [] then rr_last_sequence recovery else shard_watermark)
                in case drain_completed_before drain_threshold w1 of
                     (w2, to_delete) \<Rightarrow>
                       (remove_files (oe_removed env) to_delete files2,
                        case wt_spawn (cf_wal_channel_capacity cf) w2 of
                          None \<Rightarrow> Inl Panicked
                        | Some t \<Rightarrow> Inr t))))"

definition open_shard ::
    "('h, 'b, 'z) chunk_crates_scheme \<Rightarrow> 'w wal_crates_scheme \<Rightarrow> storage_config \<Rightarrow> open_env \<Rightarrow> nat \<Rightarrow>
     chunk_index \<Rightarrow> fs \<Rightarrow> fs \<times> (chunk_index \<times> wal_task) result" where
  "open_shard c wc cf env i ix files =
     (let shard_watermark = watermark_at (ci_shard_watermarks ix) i
      in case recover wc (oe_read env) files (shard_dir (cf_wal_dir cf) i) (oe_names env i) shard_watermark of
           Inl e \<Rightarrow> (files, Inl e)
         | Inr recovery \<Rightarrow>
             (case recovery_chunk c cf (oe_now env i) (oe_write env i) (rr_points recovery) ix files of
                (files1, Inl e) \<Rightarrow> (files1, Inl e)
              | (files1, Inr ix1) \<Rightarrow>
                  (case open_writer cf env i recovery shard_watermark files1 of
                     (files2, Inl e) \<Rightarrow> (files2, Inl e)
                   | (files2, Inr t) \<Rightarrow> (files2, Inr (ix1, t)))))"

fun open_shards ::
    "('h, 'b, 'z) chunk_crates_scheme \<Rightarrow> 'w wal_crates_scheme \<Rightarrow> storage_config \<Rightarrow> open_env \<Rightarrow> nat list \<Rightarrow>
     chunk_index \<Rightarrow> wal_task list \<Rightarrow> fs \<Rightarrow> fs \<times> (chunk_index \<times> wal_task list) result" where
  "open_shards c wc cf env [] ix wals files = (files, Inr (ix, wals))"
| "open_shards c wc cf env (i # is) ix wals files =
     (case open_shard c wc cf env i ix files of
        (files1, Inl e) \<Rightarrow> (files1, Inl e)
      | (files1, Inr (ix1, t)) \<Rightarrow> open_shards c wc cf env is ix1 (wals @ [t]) files1)"

text \<open>
  Spawning the task of a shard panics on a bad channel capacity, and \<open>CompactionWorker::new\<close> on
  a size ratio below one, after the shards are recovered.
\<close>

datatype open_outcome = Opened server | OpenError error | OpenPanic

definition server_open ::
    "('h, 'b, 'z) chunk_crates_scheme \<Rightarrow> 'w wal_crates_scheme \<Rightarrow> 'y bincode_crate_scheme \<Rightarrow> storage_config \<Rightarrow>
     open_env \<Rightarrow> fs \<Rightarrow> fs \<times> open_outcome" where
  "server_open c wc bc cf env files =
     (case load_index bc (oe_load env) files (cf_index_path cf) of
        Inl e \<Rightarrow> (files, OpenError e)
      | Inr loaded \<Rightarrow>
          (let idx = (case loaded of None \<Rightarrow> ci_new | Some idx \<Rightarrow> idx);
               n = unat (cf_num_shards cf)
           in case open_shards c wc cf env [0..<n] idx [] files of
                (files', Inl e) \<Rightarrow> (files', if e = Panicked then OpenPanic else OpenError e)
              | (files', Inr (ix, wals)) \<Rightarrow>
                  (case compaction_worker_new (cf_chunk_dir cf) (cf_compaction_min_threshold cf)
                          (cf_compaction_size_ratio cf) of
                     None \<Rightarrow> (files', OpenPanic)
                   | Some worker \<Rightarrow>
                       (files', Opened
                         \<lparr>sv_wals = wals,
                          sv_memtables =
                            replicate n (mt_new (cf_memtable_flush_threshold_bytes cf div cf_num_shards cf)),
                          sv_index = ix, sv_chunk_dir = cf_chunk_dir cf, sv_compaction_worker = worker,
                          sv_snapshot_path = cf_index_path cf, sv_shard_watermarks = replicate n 0,
                          sv_persisted_watermarks = map (watermark_at (ci_shard_watermarks ix)) [0..<n],
                          sv_append_seq = 0\<rparr>))))"

end
