(* ===== verification/Server_State.thy ===== *)
theory Server_State
  imports Server
begin

section \<open>Routing, shape and visibility\<close>

text \<open>
  What every handler keeps: the vectors of the server have one element per shard, so that no
  index is out of range; the points of an append go to the shard of their series; and a flush
  moves points from a memtable to a chunk without changing the answer of any query.
\<close>

subsection \<open>Routing of an append\<close>

lemma concat_group_runs: "concat (map (\<lambda>(s, is). map (Pair s) is) (group_runs xs)) = xs"
proof (induction xs rule: group_runs.induct)
  case (2 shard i rest)
  have "map (Pair shard) (map snd (takeWhile (\<lambda>e. fst e = shard) rest)) = takeWhile (\<lambda>e. fst e = shard) rest"
    by (induction rest) auto
  with 2 show ?case by simp
qed simp

lemma group_runs_not_Nil: "(s, is) \<in> set (group_runs xs) \<Longrightarrow> is \<noteq> []"
  by (induction xs rule: group_runs.induct) auto

lemma set_dropWhile_same:
  "insert s (fst ` set (dropWhile (\<lambda>e. fst e = s) xs)) = insert s (fst ` set xs)"
  by (induction xs) auto

lemma set_group_runs: "fst ` set (group_runs xs) = fst ` set xs"
proof (induction xs rule: group_runs.induct)
  case (2 shard i rest)
  then show ?case using set_dropWhile_same [of shard rest] by simp
qed simp

lemma sorted_dropWhile_neq:
  fixes xs :: "('a :: linorder \<times> 'b) list"
  assumes "sorted (map fst xs)" "\<forall>x \<in> set xs. s \<le> fst x" "x \<in> set (dropWhile (\<lambda>e. fst e = s) xs)"
  shows "fst x \<noteq> s"
  using assms
proof (induction xs)
  case (Cons y ys)
  show ?case
  proof (cases "fst y = s")
    case True
    with Cons show ?thesis by simp
  next
    case False
    with Cons.prems have "s < fst y" "fst y \<le> fst x" by fastforce+
    then show ?thesis by simp
  qed
qed simp

lemma distinct_group_runs: "sorted (map fst xs) \<Longrightarrow> distinct (map fst (group_runs xs))"
proof (induction xs rule: group_runs.induct)
  case (2 shard i rest)
  have s: "sorted (map fst rest)" "\<forall>x \<in> set rest. shard \<le> fst x" using 2(2) by auto
  have "sorted (dropWhile (\<lambda>s. s = shard) (map fst rest))" using s(1) by (rule sorted_dropWhile)
  then have "sorted (map fst (dropWhile (\<lambda>e. fst e = shard) rest))"
    by (simp add: dropWhile_map comp_def)
  moreover have "shard \<notin> fst ` set (dropWhile (\<lambda>e. fst e = shard) rest)"
    using sorted_dropWhile_neq [OF s] by blast
  ultimately show ?case using 2(1) by (simp add: set_group_runs del: dropWhile.simps)
qed simp

text \<open>What the routing promises: a group per shard that has points, with exactly its points.\<close>

definition routed ::
    "('h, 'z) xxh64_crate_scheme \<Rightarrow> usize \<Rightarrow> data_point list \<Rightarrow> (nat \<times> data_point list) list \<Rightarrow> bool" where
  "routed h n pts groups \<longleftrightarrow>
     distinct (map fst groups) \<and> mset (concat (map snd groups)) = mset pts \<and>
     (\<forall>(s, ps) \<in> set groups. ps \<noteq> [] \<and> (\<forall>p \<in> set ps. unat (shard_index h p n) = s))"

lemma snd_concat: "concat (map snd xs) = map snd (concat (map (\<lambda>(s, is). map (Pair s) is) xs))"
  by (induction xs) (auto simp: comp_def)

lemma shard_groups_routed:
  assumes "sorts_by_shard srt"
  shows "routed h n pts (shard_groups h srt n pts)"
proof -
  let ?ix = "indexed_points h n pts" and ?runs = "group_runs (srt (indexed_points h n pts))"
  have srt: "mset (srt ?ix) = mset ?ix" "sorted (map fst (srt ?ix))"
    using assms by (simp_all add: sorts_by_shard_def)
  have elem: "i < length pts \<and> s = shard_index h (pts ! i) n" if "(s, i) \<in> set (srt ?ix)" for s i
  proof -
    have "(s, i) \<in> set ?ix" using that srt(1) by (metis set_mset_mset)
    then show ?thesis by (auto simp: indexed_points_def in_set_enumerate_eq)
  qed
  have mem: "(s, i) \<in> set (srt ?ix)" if "(s, is) \<in> set ?runs" "i \<in> set is" for s i "is"
  proof -
    have "(s, i) \<in> set (concat (map (\<lambda>(s, is). map (Pair s) is) ?runs))" using that by force
    then show ?thesis by (simp only: concat_group_runs)
  qed
  have "inj_on unat (set (map fst ?runs))" by (simp add: inj_on_def word_unat_eq_iff)
  with distinct_group_runs [OF srt(2)] have "distinct (map unat (map fst ?runs))" by (simp only: distinct_map)
  then have d: "distinct (map fst (shard_groups h srt n pts))"
    by (simp add: shard_groups_def comp_def case_prod_unfold)
  have "concat (map snd (shard_groups h srt n pts)) = map ((!) pts) (concat (map snd ?runs))"
    by (simp add: shard_groups_def comp_def case_prod_unfold map_concat)
  also have "\<dots> = map ((!) pts) (map snd (srt ?ix))"
    by (simp only: snd_concat concat_group_runs)
  finally have "mset (concat (map snd (shard_groups h srt n pts))) = mset (map ((!) pts) (map snd ?ix))"
    by (metis mset_map srt(1))
  also have "map ((!) pts) (map snd ?ix) = pts"
    by (rule nth_equalityI) (simp_all add: indexed_points_def nth_enumerate_eq)
  finally show ?thesis
    using d group_runs_not_Nil mem elem
    by (fastforce simp: routed_def shard_groups_def)
qed


subsection \<open>The shape of the state\<close>

definition server_shape :: "nat \<Rightarrow> server \<Rightarrow> bool" where
  "server_shape n sv \<longleftrightarrow>
     (\<exists>k<64. n = 2 ^ k) \<and> length (sv_wals sv) = n \<and> length (sv_memtables sv) = n \<and>
     length (sv_shard_watermarks sv) = n \<and> length (sv_persisted_watermarks sv) = n"

lemma shard_groups_in_range:
  assumes "sorts_by_shard srt" "xxh64_streaming h" "n = 2 ^ k" "k < 64"
    "(s, ps) \<in> set (shard_groups h srt (word_of_nat n) pts)"
  shows "s < n"
proof -
  have w: "(word_of_nat n :: u64) = 2 ^ k" using assms(3) by simp
  have "ps \<noteq> [] \<and> (\<forall>p \<in> set ps. unat (shard_index h p (2 ^ k)) = s)"
    using shard_groups_routed [OF assms(1), of h "word_of_nat n" pts] assms(5) unfolding routed_def w by blast
  then obtain p where "unat (shard_index h p (2 ^ k)) = s" by (meson hd_in_set)
  then show ?thesis by (auto simp: shard_index_mod [OF assms(2)] assms(3))
qed

lemma length_wal_appends:
  "wal_appends wc env groups wals files = (wals', files', rs) \<Longrightarrow>
   length wals' = length wals \<and> length rs = length groups"
  by (induction groups arbitrary: wals files wals' files' rs) (fastforce split: prod.splits)+

lemma length_inserts:
  "length (fold (\<lambda>(s, ps) mems. mems[s := f s ps mems]) groups mems) = length mems"
  by (induction groups arbitrary: mems) (auto split: prod.splits)

lemma append_wal_fields:
  assumes "append_wal h wc srt env req sv files = (sv', files', r)"
  obtains wals' where "sv' = sv\<lparr>sv_wals := wals'\<rparr>" "length wals' = length (sv_wals sv)"
proof -
  obtain wals' files1 rs where w: "wal_appends wc env (shard_groups h srt (word_of_nat (length (sv_memtables sv)))
      (map decode_point req)) (sv_wals sv) files = (wals', files1, rs)" by (metis prod_cases3)
  then have "sv' = sv\<lparr>sv_wals := wals'\<rparr>" using assms by (simp add: append_wal_def Let_def)
  with that length_wal_appends [OF w] show ?thesis by blast
qed

lemma server_append_shape:
  assumes "server_shape n sv"
  shows "server_shape n (fst (server_append h wc srt env req sv files))"
proof -
  obtain sv1 files1 r where w: "append_wal h wc srt env req sv files = (sv1, files1, r)"
    by (metis prod_cases3)
  obtain wals' where "sv1 = sv\<lparr>sv_wals := wals'\<rparr>" "length wals' = length (sv_wals sv)"
    by (rule append_wal_fields [OF w]) (rule that)
  with assms show ?thesis
    by (cases r) (simp_all add: server_append_def w append_insert_def Let_def server_shape_def
        length_inserts)
qed

lemma server_compact_shape:
  "server_shape n sv \<Longrightarrow> server_shape n (fst (server_compact c env sv files))"
  by (simp add: server_compact_def server_shape_def split: prod.splits)

lemma store_watermarks_eq: "length old = length new \<Longrightarrow> store_watermarks old new = new"
  by (simp add: store_watermarks_def)

lemma server_snapshot_shape:
  "server_shape n sv \<Longrightarrow> server_shape n (fst (server_snapshot bc io sv files))"
  by (auto simp: server_snapshot_def Let_def server_shape_def store_watermarks_eq split: prod.splits sum.splits)

lemma flush_begin_shape:
  "server_shape n sv \<Longrightarrow> server_shape n (fst (flush_begin i sv))"
  by (simp add: flush_begin_def Let_def server_shape_def split: prod.splits)

lemma flush_end_shape:
  "server_shape n sv \<Longrightarrow> server_shape n (fst (flush_end c wc env i drained sv files))"
  by (simp add: flush_end_def Let_def server_shape_def split: prod.splits sum.splits)

lemma flush_shard_shape:
  assumes "server_shape n sv"
  shows "server_shape n (fst (flush_shard c wc env i sv files))"
proof -
  obtain sv1 d where f: "flush_begin i sv = (sv1, d)" by fastforce
  then have "server_shape n sv1" using flush_begin_shape [OF assms, of i] by simp
  then show ?thesis by (cases d) (simp_all add: flush_shard_def f flush_end_shape)
qed

lemma sweep_shape:
  assumes "server_shape n sv"
  shows "server_shape n (fst (sweep c wc env sv files))"
proof -
  have "server_shape n (fst (fold (\<lambda>i (sv, files). case flush_shard c wc (env i) i sv files of (sv', files', _) \<Rightarrow> (sv', files'))
      is (sv, files)))" if "server_shape n sv" for "is" sv files
    using that
  proof (induction "is" arbitrary: sv files)
    case (Cons i "is")
    obtain sv1 files1 r where f: "flush_shard c wc (env i) i sv files = (sv1, files1, r)" by (metis prod_cases3)
    then have "server_shape n sv1" using flush_shard_shape [OF Cons.prems, of c wc "env i" i files] by simp
    from Cons.IH [OF this] show ?case by (simp add: f)
  qed simp
  from this [OF assms] show ?thesis by (simp add: sweep_def)
qed

lemma length_open_shards:
  "open_shards c wc cf env is ix wals files = (files', Inr (ix', wals')) \<Longrightarrow>
   length wals' = length wals + length is"
proof (induction "is" arbitrary: ix wals files)
  case (Cons i "is")
  obtain files1 r where o: "open_shard c wc cf env i ix files = (files1, r)" by fastforce
  with Cons.prems obtain x where "r = Inr x" by (cases r) auto
  with Cons o show ?case by (cases x) fastforce
qed simp

lemma server_open_shape:
  assumes "load e = Inr cf" "server_open c wc bc cf env files = (files', Opened sv)"
  shows "server_shape (unat (cf_num_shards cf)) sv"
proof -
  obtain k where k: "k < 64" "cf_num_shards cf = 2 ^ k"
    using load_Inr_shards(2) [OF assms(1)] by (auto simp: is_power_of_two_iff)
  then have "unat (cf_num_shards cf) = 2 ^ k" by (simp add: unat_pow2_u64)
  moreover have "length (sv_wals sv) = unat (cf_num_shards cf) \<and> length (sv_memtables sv) = unat (cf_num_shards cf) \<and>
     length (sv_shard_watermarks sv) = unat (cf_num_shards cf) \<and> length (sv_persisted_watermarks sv) = unat (cf_num_shards cf)"
    using assms(2) by (auto simp: server_open_def Let_def dest!: length_open_shards split: if_splits sum.splits prod.splits option.splits)
  ultimately show ?thesis using k(1) by (auto simp: server_shape_def)
qed


subsection \<open>What a flush does to the visible points\<close>

text \<open>The points a query sees: those of the memtables and those of the chunks.\<close>

definition visible :: "server \<Rightarrow> chunk_db \<Rightarrow> (series_key \<times> i64 \<times> f64) set" where
  "visible sv db = (\<Union>m \<in> set (sv_memtables sv). mt_points m) \<union> db_points db"

lemma set_list_update_UN:
  assumes "i < length xs"
  shows "(\<Union>x \<in> set (xs[i := y]). f x) = f y \<union> (\<Union>j \<in> {j. j < length xs \<and> j \<noteq> i}. f (xs ! j))"
proof -
  have "set (xs[i := y]) = insert y ((!) xs ` {j. j < length xs \<and> j \<noteq> i})"
    using assms by (auto simp: in_set_conv_nth image_iff nth_list_update) metis+
  then show ?thesis by auto
qed

lemma UN_split_nth:
  assumes "i < length xs"
  shows "(\<Union>x \<in> set xs. f x) = f (xs ! i) \<union> (\<Union>j \<in> {j. j < length xs \<and> j \<noteq> i}. f (xs ! j))"
  using set_list_update_UN [OF assms, of f "xs ! i"] by simp

lemma mt_points_drain:
  "mt_points (fst (mt_drain m)) = {}" "{(k, t, v). sm_get (snd (mt_drain m)) k t = Some v} = mt_points m"
  by (auto simp: mt_points_def mt_drain_def mt_get_def sm_get_def)

text \<open>Changes outside the chunk directory do not matter to the store.\<close>

lemma store_ok_frame:
  assumes "store_ok c dir ix files db" "\<forall>cid. files' (chunk_path dir cid) = files (chunk_path dir cid)"
  shows "store_ok c dir ix files' db"
  using assms by (simp add: store_ok_def store_files_def)

lemma fs_append_other: "p \<noteq> q \<Longrightarrow> fs_append p bs files q = files q"
  by (simp add: fs_append_def split: option.splits)

lemma fs_open_append_other: "p \<noteq> q \<Longrightarrow> fs_open_append p files q = files q"
  by (simp add: fs_open_append_def split: option.splits)


subsection \<open>A WAL task touches only its own segments\<close>

definition writer_ok :: "wal_writer \<Rightarrow> bool" where
  "writer_ok w \<longleftrightarrow> ww_file w \<in> range (segment_path (ww_wal_dir w))"

definition same_outside :: "path \<Rightarrow> fs \<Rightarrow> fs \<Rightarrow> bool" where
  "same_outside dir files files' \<longleftrightarrow> (\<forall>p. p \<notin> range (segment_path dir) \<longrightarrow> files' p = files p)"

lemma same_outside_refl [simp]: "same_outside dir files files"
  by (simp add: same_outside_def)

lemma same_outside_trans: "same_outside dir a b \<Longrightarrow> same_outside dir b d \<Longrightarrow> same_outside dir a d"
  by (simp add: same_outside_def)

lemma same_outside_append:
  "writer_ok w \<Longrightarrow> same_outside (ww_wal_dir w) files (fs_append (ww_file w) bs files)"
  unfolding same_outside_def writer_ok_def using fs_append_other by metis

lemma same_outside_open: "same_outside dir files (fs_open_append (segment_path dir n) files)"
  unfolding same_outside_def using fs_open_append_other by (metis rangeI)

lemma ww_rotate_frame:
  assumes "writer_ok w" "ww_rotate ok w files = (w', files', r)"
  shows "writer_ok w'" "ww_wal_dir w' = ww_wal_dir w" "same_outside (ww_wal_dir w) files files'"
  using assms
  by (auto simp: ww_rotate_def Let_def writer_ok_def current_segment_path_def same_outside_open
      split: if_splits)

lemma auto_rotate_frame:
  assumes "writer_ok w" "auto_rotate ok w files = (w', files')"
  shows "writer_ok w'" "ww_wal_dir w' = ww_wal_dir w" "same_outside (ww_wal_dir w) files files'"
proof -
  obtain w1 files1 r where r: "ww_rotate ok w files = (w1, files1, r)" by (metis prod_cases3)
  show "writer_ok w'" "ww_wal_dir w' = ww_wal_dir w" "same_outside (ww_wal_dir w) files files'"
    using assms ww_rotate_frame [OF assms(1) r] by (auto simp: auto_rotate_def r split: if_splits)
qed

lemma drain_completed_frame:
  assumes "drain_completed_before seq w = (w', paths)"
  shows "writer_ok w' \<longleftrightarrow> writer_ok w" "ww_wal_dir w' = ww_wal_dir w" "set paths \<subseteq> range (segment_path (ww_wal_dir w))"
  using assms by (auto simp: drain_completed_before_def writer_ok_def)

lemma drain_requests_frame:
  assumes "drain_requests drains w = (w', sent)"
  shows "writer_ok w' \<longleftrightarrow> writer_ok w" "ww_wal_dir w' = ww_wal_dir w"
    "reply_paths sent \<subseteq> range (segment_path (ww_wal_dir w))"
proof -
  obtain w1 paths where d: "drain_completed_before (foldl max 0 (map fst drains)) w = (w1, paths)" by fastforce
  note f = drain_completed_frame [OF d]
  show "writer_ok w' \<longleftrightarrow> writer_ok w" "ww_wal_dir w' = ww_wal_dir w"
    using assms d f by (auto simp: drain_requests_def split: if_splits)
  show "reply_paths sent \<subseteq> range (segment_path (ww_wal_dir w))"
    using assms d f(3) reply_paths_drains [of drains paths] by (auto simp: drain_requests_def split: if_splits)
qed

text \<open>The two messages the server sends, whatever the environment does.\<close>

lemma wal_append_frame:
  assumes ok: "writer_ok (wt_writer t)" and w: "wal_append wc env points t files = (t', files', r)"
  shows "writer_ok (wt_writer t')" "ww_wal_dir (wt_writer t') = ww_wal_dir (wt_writer t)"
    "same_outside (ww_wal_dir (wt_writer t)) files files'"
proof -
  let ?w = "wt_writer t" and ?b = "gather wc [Append points 0] (ww_current_seq (wt_writer t))"
  let ?w1 = "?w\<lparr>ww_current_seq := b_current_seq ?b,
      ww_current_size := ww_current_size ?w + word_of_nat (length (b_frames ?b))\<rparr>"
  let ?files1 = "if b_frames ?b = [] then files else fs_append (ww_file ?w) (b_frames ?b) files"
  obtain w2 files2 where a: "auto_rotate (be_auto_rotate env) ?w1 ?files1 = (w2, files2)" by fastforce
  have ok1: "writer_ok ?w1" using ok by (simp add: writer_ok_def)
  note f = auto_rotate_frame [OF ok1 a]
  have s: "same_outside (ww_wal_dir ?w) files ?files1" using same_outside_append [OF ok] by simp
  have "(wt_writer t' = w2 \<and> files' = files2) \<or>
      (wt_writer t' = ?w\<lparr>ww_current_seq := b_current_seq ?b\<rparr> \<and> (\<exists>n. files' = fs_append (ww_file ?w) (take n (b_frames ?b)) files))"
  proof (cases "if b_frames ?b = [] then WriteOk else be_write env")
    case WriteOk
    then have "wal_batch wc env [Append points 0] t files = commit_ok env ?b t files"
      by (simp add: wal_batch_def Let_def del: gather_fields)
    then show ?thesis
      using w a by (auto simp: wal_append_def commit_ok_def Let_def drain_requests_def rotate_request_def
          simp del: gather_fields(2) split: prod.splits)
  next
    case (WriteFail n)
    then have "wal_batch wc env [Append points 0] t files = commit_failed ?b n t files"
      by (simp add: wal_batch_def Let_def del: gather_fields)
    then show ?thesis using w by (auto simp: wal_append_def commit_failed_def)
  qed
  then show "writer_ok (wt_writer t')" "ww_wal_dir (wt_writer t') = ww_wal_dir ?w"
      "same_outside (ww_wal_dir ?w) files files'"
    using f ok s same_outside_trans [of "ww_wal_dir ?w" files ?files1 files2] same_outside_append [OF ok]
    by (auto simp: writer_ok_def)
qed

lemma wal_drain_frame:
  assumes ok: "writer_ok (wt_writer t)" and w: "wal_drain wc env seq t files = (t', files', r)"
  shows "writer_ok (wt_writer t')" "ww_wal_dir (wt_writer t') = ww_wal_dir (wt_writer t)"
    "same_outside (ww_wal_dir (wt_writer t)) files files'"
    "\<And>paths. r = Inr paths \<Longrightarrow> set paths \<subseteq> range (segment_path (ww_wal_dir (wt_writer t)))"
proof -
  let ?w = "wt_writer t" and ?b = "gather wc [DrainBefore seq 0] (ww_current_seq (wt_writer t))"
  let ?w1 = "?w\<lparr>ww_current_seq := b_current_seq ?b,
      ww_current_size := ww_current_size ?w + word_of_nat (length (b_frames ?b))\<rparr>"
  obtain w2 files2 where a: "auto_rotate (be_auto_rotate env) ?w1 files = (w2, files2)" by fastforce
  have ok1: "writer_ok ?w1" using ok by (simp add: writer_ok_def)
  note f = auto_rotate_frame [OF ok1 a]
  obtain w3 paths where d: "drain_completed_before seq w2 = (w3, paths)" by fastforce
  note g = drain_completed_frame [OF d]
  have m: "max 0 seq = seq" by (simp add: max_def)
  have "wal_batch wc env [DrainBefore seq 0] t files =
      (\<lparr>wt_writer = w3, wt_last_seq = wt_last_seq t\<rparr>, files2, [(0, PathsReply (Inr paths))])"
    using a d by (simp add: wal_batch_def commit_ok_def Let_def drain_requests_def rotate_request_def m
        gather_def batch_init_def)
  then have t': "wt_writer t' = w3" "files' = files2" "r = Inr paths" using w by (auto simp: wal_drain_def)
  show "writer_ok (wt_writer t')" "ww_wal_dir (wt_writer t') = ww_wal_dir ?w" "same_outside (ww_wal_dir ?w) files files'"
    using f g t' by simp_all
  show "set ps \<subseteq> range (segment_path (ww_wal_dir ?w))" if "r = Inr ps" for ps
    using that t'(3) g(3) f(2) by simp
qed

lemma same_outside_remove:
  assumes "set paths \<subseteq> range (segment_path dir)"
  shows "same_outside dir files (remove_files ok paths files)"
  using assms remove_files_other [of _ paths ok files] by (auto simp: same_outside_def)


lemma chunk_path_not_segment: "chunk_path d cid \<notin> range (segment_path d')"
proof
  assume "chunk_path d cid \<in> range (segment_path d')"
  then obtain n where "''chunk-'' @ fixed_digits 16 16 (unat cid) @ ''.mcs'' = segment_name n"
    by (auto simp: chunk_path_def segment_path_def)
  then have "last (''chunk-'' @ fixed_digits 16 16 (unat cid) @ ''.mcs'') = last (segment_name n)" by (rule arg_cong)
  then show False by (simp add: segment_name_def)
qed

lemma store_ok_outside:
  "store_ok c dir ix files db \<Longrightarrow> same_outside d files files' \<Longrightarrow> store_ok c dir ix files' db"
  by (erule store_ok_frame) (simp add: same_outside_def chunk_path_not_segment)

lemma flush_end_Inr:
  assumes "flush_end c wc env i drained sv files = (sv', files', Inr u)"
    "writer_ok (wt_writer (sv_wals sv ! i))"
  obtains files1 res t where
    "cw_write c (sv_chunk_dir sv) (fe_now env) (fe_write env) drained files = (files1, Inr res)"
    "sv' = sv\<lparr>sv_index := register_results c res (sv_index sv),
       sv_shard_watermarks := (sv_shard_watermarks sv)[i := wt_last_seq (sv_wals sv ! i)],
       sv_wals := (sv_wals sv)[i := t]\<rparr>"
    "same_outside (ww_wal_dir (wt_writer (sv_wals sv ! i))) files1 files'"
    "writer_ok (wt_writer t)" "ww_wal_dir (wt_writer t) = ww_wal_dir (wt_writer (sv_wals sv ! i))"
proof -
  let ?dir = "ww_wal_dir (wt_writer (sv_wals sv ! i))"
  obtain files1 r1 where w: "cw_write c (sv_chunk_dir sv) (fe_now env) (fe_write env) drained files = (files1, r1)"
    by fastforce
  with assms(1) obtain res where r1: "r1 = Inr res" by (cases r1) (auto simp: flush_end_def)
  obtain t files2 r where d: "wal_drain wc (fe_wal env) (sv_persisted_watermarks sv ! i) (sv_wals sv ! i) files1 =
      (t, files2, r)" by (metis prod_cases3)
  note f = wal_drain_frame [OF assms(2) d]
  have sv': "sv' = sv\<lparr>sv_index := register_results c res (sv_index sv),
       sv_shard_watermarks := (sv_shard_watermarks sv)[i := wt_last_seq (sv_wals sv ! i)],
       sv_wals := (sv_wals sv)[i := t]\<rparr>"
    and files': "files' = (case r of Inl _ \<Rightarrow> files2 | Inr paths \<Rightarrow> remove_files (fe_removed env) paths files2)"
    using assms(1) w r1 d by (auto simp: flush_end_def Let_def wt_current_sequence_def)
  have "same_outside ?dir files2 files'"
    using f(4) by (cases r) (simp_all add: files' same_outside_remove)
  with f(3) have "same_outside ?dir files1 files'" by (rule same_outside_trans)
  with that w r1 sv' f(1,2) show ?thesis by blast
qed

lemma flush_shard_cases:
  assumes "i < length (sv_memtables sv)"
  shows "flush_shard c wc env i sv files =
    (let m = sv_memtables sv ! i
     in if mt_should_flush m
        then flush_end c wc env i (mt_entries m)
               (sv\<lparr>sv_memtables := (sv_memtables sv)[i := fst (mt_drain m)]\<rparr>) files
        else (sv, files, Inr ()))"
  by (simp add: flush_shard_def flush_begin_def Let_def mt_drain_def)

lemma visible_flushed:
  assumes "i < length (sv_memtables sv)" "db cid = None"
    "sv_memtables sv' = (sv_memtables sv)[i := fst (mt_drain (sv_memtables sv ! i))]"
  shows "visible sv' (db(cid \<mapsto> mt_entries (sv_memtables sv ! i))) = visible sv db"
proof -
  let ?m = "sv_memtables sv ! i"
  have "db_points (db(cid \<mapsto> mt_entries ?m)) = db_points db \<union> mt_points ?m"
    using db_points_upd [of db cid, OF assms(2)] mt_points_drain(2) [of ?m] by (simp add: mt_drain_def)
  then show ?thesis
    unfolding visible_def assms(3) set_list_update_UN [OF assms(1)] UN_split_nth [OF assms(1)]
    by (auto simp: mt_points_drain)
qed


subsection \<open>The WAL of a shard while its requests succeed\<close>

definition env_good :: "batch_env \<Rightarrow> bool" where
  "env_good env \<longleftrightarrow> be_write env = WriteOk \<and> be_auto_rotate env \<and> be_explicit_rotate env"

text \<open>The state of the log of one shard: its task, the files and what was acknowledged.\<close>

abbreviation shard_wal :: "wal_task \<Rightarrow> fs \<Rightarrow> wal_log \<Rightarrow> u64 \<Rightarrow> path set \<Rightarrow> wal_state" where
  "shard_wal t files log gc pend \<equiv>
     \<lparr>ws_writer = wt_writer t, ws_files = files, ws_acked = log, ws_gc = gc, ws_pend = pend,
      ws_last_seq = wt_last_seq t\<rparr>"

lemma ws_task_shard_wal [simp]: "ws_task (shard_wal t files log gc pend) = t"
  by (simp add: ws_task_def)

lemma wal_append_good:
  assumes inv: "wal_inv wc (shard_wal t files log gc pend)" and env: "env_good env"
    and ok: "batch_ok wc [Append points 0] (wt_writer t)"
    and w: "wal_append wc env points t files = (t', files', r)"
  shows "r = Inr (wt_last_seq t + 1)" "wt_last_seq t' = wt_last_seq t + 1"
    "wal_inv wc (shard_wal t' files' (log @ [(wt_last_seq t + 1, points)]) gc pend)"
proof -
  let ?msgs = "[Append points 0]"
  have seq: "ww_current_seq (wt_writer t) = wt_last_seq t" using inv by (simp add: wal_inv_def)
  obtain sent where b: "wal_batch wc env ?msgs t files = (t', files', sent)"
    using w by (auto simp: wal_append_def split: prod.splits)
  have sent: "sent = [(0, SeqReply (Inr (wt_last_seq t + 1)))]" "wt_last_seq t' = wt_last_seq t + 1"
    using b env seq
    by (auto simp: wal_batch_def commit_ok_def Let_def env_good_def gather_def batch_init_def
        drain_requests_def rotate_request_def split: prod.splits if_splits)
  with w b show "r = Inr (wt_last_seq t + 1)" "wt_last_seq t' = wt_last_seq t + 1"
    by (auto simp: wal_append_def)
  have "wal_step wc (shard_wal t files log gc pend) (batch_state (shard_wal t files log gc pend) ?msgs t' files' sent)"
    using env ok b by (intro step_batch [where env = env]) (simp_all add: env_good_def)
  from wal_inv_step [OF inv this]
  show "wal_inv wc (shard_wal t' files' (log @ [(wt_last_seq t + 1, points)]) gc pend)"
    by (simp add: batch_state_def batch_gc_def reply_paths_def sent seq)
qed

lemma wal_drain_good:
  assumes inv: "wal_inv wc (shard_wal t files log gc pend)" and env: "env_good env"
    and ok: "batch_ok wc [DrainBefore seq 0] (wt_writer t)"
    and w: "wal_drain wc env seq t files = (t', files', r)"
  obtains paths where "r = Inr paths" "wt_last_seq t' = wt_last_seq t"
    "wal_inv wc (shard_wal t' files' log (max gc seq) (pend \<union> set paths))"
proof -
  let ?msgs = "[DrainBefore seq 0]"
  obtain sent where b: "wal_batch wc env ?msgs t files = (t', files', sent)"
    using w by (auto simp: wal_drain_def split: prod.splits)
  have m: "max 0 seq = seq" by (simp add: max_def)
  obtain paths where sent: "sent = [(0, PathsReply (Inr paths))]" "wt_last_seq t' = wt_last_seq t"
    using b env
    by (auto simp: wal_batch_def commit_ok_def Let_def env_good_def gather_def batch_init_def
        drain_requests_def rotate_request_def split: prod.splits if_splits)
  have "wal_step wc (shard_wal t files log gc pend) (batch_state (shard_wal t files log gc pend) ?msgs t' files' sent)"
    using env ok b by (intro step_batch [where env = env]) (simp_all add: env_good_def)
  from wal_inv_step [OF inv this]
  have "wal_inv wc (shard_wal t' files' log (max gc seq) (pend \<union> set paths))"
    by (simp add: batch_state_def batch_gc_def reply_paths_def sent m)
  with that w b sent show ?thesis by (auto simp: wal_drain_def)
qed

lemma wal_remove_good:
  assumes "wal_inv wc (shard_wal t files log gc pend)" "set paths \<subseteq> pend"
  shows "wal_inv wc (shard_wal t (remove_files ok paths files) log gc pend)"
  using assms
proof (induction paths arbitrary: files)
  case (Cons p paths)
  have "wal_step wc (shard_wal t files log gc pend) (shard_wal t (files(p := None)) log gc pend)"
    using step_delete [of p "shard_wal t files log gc pend" wc] Cons.prems(2) by simp
  then have "wal_inv wc (shard_wal t (files(p := None)) log gc pend)" using wal_inv_step Cons.prems(1) by blast
  with Cons show ?case by (simp add: remove_files_def)
qed (simp add: remove_files_def)

text \<open>Recovery of a shard returns what was acknowledged above the watermark.\<close>

lemma wal_inv_recover:
  assumes "prost_lossless wc" "wal_inv wc (shard_wal t files log gc pend)"
    "lists_dir files (ww_wal_dir (wt_writer t)) names" "gc \<le> wm"
  shows "\<exists>res. recover wc all_read files (ww_wal_dir (wt_writer t)) names wm = Inr res \<and>
    rr_points res = concat (map snd (above wm log)) \<and>
    rr_last_sequence res = foldl max 0 (map fst (above wm log))"
proof -
  obtain gs l where d: "wal_disk wc (wt_writer t) files log gc pend gs l"
    using assms(2) by (auto simp: wal_inv_def)
  let ?segs = "segs_of (wt_writer t) gs l"
  have lay: "dir_holds wc files (ww_wal_dir (wt_writer t)) ?segs" "\<forall>s \<in> set ?segs. segment_ok wc s"
    using d by (auto simp: wal_disk_def wal_layout_def segment_ok_def)
  have "above gc (segs_log ?segs) = above gc log" using d by (simp add: wal_disk_def)
  then have "above wm (segs_log ?segs) = above wm log" using assms(4) by (rule above_eq_mono)
  with recover_holds [OF assms(1) lay assms(3), of wm] show ?thesis
    by (simp add: replay_segments_fields) (simp add: rr_init_def)
qed


text \<open>Only the files with the extension of segments matter to the log.\<close>

lemma wal_inv_frame:
  assumes "wal_inv wc (shard_wal t files log gc pend)"
    "\<forall>n. path_extension n = Some ''wal'' \<longrightarrow>
       files' (join (ww_wal_dir (wt_writer t)) n) = files (join (ww_wal_dir (wt_writer t)) n)"
  shows "wal_inv wc (shard_wal t files' log gc pend)"
proof -
  have "dir_holds wc files' (ww_wal_dir (wt_writer t)) segs" if "dir_holds wc files (ww_wal_dir (wt_writer t)) segs" for segs
    using that assms(2) unfolding dir_holds_def segment_path_def by auto
  with assms(1) show ?thesis unfolding wal_inv_def wal_disk_def wal_layout_def by auto
qed

lemma path_extension_chunk: "chunk_path d cid = join d' n \<Longrightarrow> path_extension n = Some ''mcs''"
  by (auto simp: chunk_path_def path_extension_def)

lemma cw_write_other:
  assumes "cw_write c dir now io data files = (files', r)" "\<forall>cid. p \<noteq> chunk_path dir cid"
  shows "files' p = files p"
proof (cases r)
  case (Inl e)
  with assms show ?thesis
    by (auto simp: cw_write_def Let_def split: sum.splits create_outcome.splits option.splits if_splits prod.splits)
next
  case (Inr res)
  with assms cw_write_Inr show ?thesis by (metis fun_upd_other)
qed

lemma cw_write_wal_inv:
  assumes "cw_write c dir now io data files = (files', r)" "wal_inv wc (shard_wal t files log gc pend)"
  shows "wal_inv wc (shard_wal t files' log gc pend)"
proof (rule wal_inv_frame [OF assms(2)], intro allI impI)
  fix n
  assume "path_extension n = Some ''wal''"
  then have "chunk_path dir cid \<noteq> join (ww_wal_dir (wt_writer t)) n" for cid
    using path_extension_chunk [of dir cid "ww_wal_dir (wt_writer t)" n] by auto
  then have "\<forall>cid. join (ww_wal_dir (wt_writer t)) n \<noteq> chunk_path dir cid" by metis
  then show "files' (join (ww_wal_dir (wt_writer t)) n) = files (join (ww_wal_dir (wt_writer t)) n)"
    by (rule cw_write_other [OF assms(1)])
qed

text \<open>A drained memtable is empty, and inserted points are found.\<close>

lemma mt_inv_drained: "mt_inv (fst (mt_drain m))"
  by (simp add: mt_inv_def mt_drain_def sm_inv_def sm_weight_def sm_count_def)

lemma last_write_None: "last_write ws k t = None \<longleftrightarrow> (\<forall>v. (k, t, v) \<notin> set ws)"
  by (force simp: last_write_def map_of_eq_None_iff)

lemma mt_get_inserted:
  assumes "mt_inv m" "p \<in> set ps"
  shows "mt_get (fold mt_insert ps m) (dp_key p) (dp_timestamp_ns p) \<noteq> None"
proof -
  have "last_write (writes_of ps) (dp_key p) (dp_timestamp_ns p) \<noteq> None"
    using assms(2) unfolding last_write_None by (auto simp: writes_of_def)
  with mt_get_inserts [OF assms(1)] show ?thesis by (auto split: option.splits)
qed

text \<open>The second half of a flush, as far as the log of the shard is concerned.\<close>

lemma flush_end_good:
  assumes inv: "wal_inv wc (shard_wal (sv_wals sv ! i) files log gc pend)" and env: "env_good (fe_wal env)"
    and ok: "batch_ok wc [DrainBefore (sv_persisted_watermarks sv ! i) 0] (wt_writer (sv_wals sv ! i))"
    and i: "i < length (sv_wals sv)" and f: "flush_end c wc env i drained sv files = (sv', files', Inr u)"
  obtains pend' where
    "wal_inv wc (shard_wal (sv_wals sv' ! i) files' log (max gc (sv_persisted_watermarks sv ! i)) pend')"
    "wt_last_seq (sv_wals sv' ! i) = wt_last_seq (sv_wals sv ! i)"
proof -
  obtain files1 r1 where w: "cw_write c (sv_chunk_dir sv) (fe_now env) (fe_write env) drained files = (files1, r1)"
    by fastforce
  with f obtain res where r1: "r1 = Inr res" by (cases r1) (auto simp: flush_end_def)
  obtain t files2 r where d: "wal_drain wc (fe_wal env) (sv_persisted_watermarks sv ! i) (sv_wals sv ! i) files1 =
      (t, files2, r)" by (metis prod_cases3)
  obtain paths where g: "r = Inr paths" "wt_last_seq t = wt_last_seq (sv_wals sv ! i)"
      "wal_inv wc (shard_wal t files2 log (max gc (sv_persisted_watermarks sv ! i)) (pend \<union> set paths))"
    by (rule wal_drain_good [OF cw_write_wal_inv [OF w inv] env ok d]) (rule that)
  have "sv_wals sv' = (sv_wals sv)[i := t]" "files' = remove_files (fe_removed env) paths files2"
    using f w r1 d g(1) by (auto simp: flush_end_def Let_def)
  with that g(2) wal_remove_good [OF g(3), of paths] i show ?thesis by auto
qed


subsection \<open>Properties\<close>

text \<open>
  C15.  Routing is a partition: whatever order the unstable sort leaves within a shard, every
  point of a request is in exactly one group, the groups have different shards, and each group
  holds the points whose series hash to its shard.
\<close>

theorem append_routes_points:
  assumes "sorts_by_shard srt"
  shows "routed h n pts (shard_groups h srt n pts)"
  using assms by (rule shard_groups_routed)

theorem append_routes_points_witness:
  "routed length_hasher 2 [example_point 1, example_point 2]
     (shard_groups length_hasher (sort_key fst) 2 [example_point 1, example_point 2])"
  by (rule append_routes_points) (simp add: sorts_by_shard_def)

text \<open>
  C14.  One memtable, WAL task, live and persisted watermark per shard, for a power of two of
  shards: a server opened with a loaded configuration has this shape, every RPC and every
  background task keeps it, also when it fails, and every shard an append addresses is below
  the number of shards, so that no indexing panics.
\<close>

theorem server_shape_kept:
  assumes "server_shape n sv" "sorts_by_shard srt" "xxh64_streaming h" "load e = Inr cf"
  shows "server_shape n (fst (server_append h wc srt env req sv files)) \<and>
    (\<forall>s ps. (s, ps) \<in> set (shard_groups h srt (word_of_nat n) pts) \<longrightarrow> s < n) \<and>
    server_shape n (fst (server_compact c menv sv files)) \<and>
    server_shape n (fst (server_snapshot bc io sv files)) \<and>
    server_shape n (fst (sweep c wc fenv sv files)) \<and>
    (\<forall>oenv files0 files' sv'. server_open c wc bc cf oenv files0 = (files', Opened sv') \<longrightarrow>
       server_shape (unat (cf_num_shards cf)) sv')"
proof -
  obtain k where "k < 64" "n = 2 ^ k" using assms(1) by (auto simp: server_shape_def)
  then have "s < n" if "(s, ps) \<in> set (shard_groups h srt (word_of_nat n) pts)" for s ps
    using shard_groups_in_range [OF assms(2,3)] that by blast
  then show ?thesis
    by (intro conjI allI impI server_append_shape server_compact_shape server_snapshot_shape sweep_shape assms(1)
        server_open_shape [OF assms(4)])
qed

text \<open>
  C8.  A flush of a shard that succeeds on a consistent store keeps the store consistent and
  the set of points in memtables and chunks the same, so that it changes no answer, provided
  that the chunk format can hold the memtable (sizes in range, names without the separators), no
  two series involved share an identifier, and no series of the memtable starts at the time at
  which an existing chunk of that series starts. Without the last condition the flush hides that
  chunk (see \<open>index_same_start_hides_chunk\<close>).
\<close>

theorem flush_keeps_visible:
  assumes "store_ok c (sv_chunk_dir sv) (sv_index sv) files db" "i < length (sv_memtables sv)"
    "data_ok c (new_chunk_id (fe_now env)) (mt_entries (sv_memtables sv ! i))"
    "keys_apart c (mt_entries (sv_memtables sv ! i)) (sv_index sv)"
    "starts_free c (mt_entries (sv_memtables sv ! i)) (sv_index sv)"
    "writer_ok (wt_writer (sv_wals sv ! i))"
    "flush_shard c wc env i sv files = (sv', files', Inr u)"
  shows "\<exists>db'. store_ok c (sv_chunk_dir sv') (sv_index sv') files' db' \<and> visible sv' db' = visible sv db"
proof (cases "mt_should_flush (sv_memtables sv ! i)")
  case False
  then have "sv' = sv" "files' = files" using assms(7) by (simp_all add: flush_shard_cases [OF assms(2)] Let_def)
  with assms(1) show ?thesis by blast
next
  case True
  let ?m = "sv_memtables sv ! i" and ?cid = "new_chunk_id (fe_now env)"
  let ?sv1 = "sv\<lparr>sv_memtables := (sv_memtables sv)[i := fst (mt_drain ?m)]\<rparr>"
  have fl: "flush_end c wc env i (mt_entries ?m) ?sv1 files = (sv', files', Inr u)"
    using assms(7) True by (simp add: flush_shard_cases [OF assms(2)] Let_def)
  have ok1: "writer_ok (wt_writer (sv_wals ?sv1 ! i))" using assms(6) by simp
  obtain files1 res t where w: "cw_write c (sv_chunk_dir ?sv1) (fe_now env) (fe_write env) (mt_entries ?m) files = (files1, Inr res)"
    and sv': "sv' = ?sv1\<lparr>sv_index := register_results c res (sv_index ?sv1),
       sv_shard_watermarks := (sv_shard_watermarks ?sv1)[i := wt_last_seq (sv_wals ?sv1 ! i)],
       sv_wals := (sv_wals ?sv1)[i := t]\<rparr>"
    and out: "same_outside (ww_wal_dir (wt_writer (sv_wals ?sv1 ! i))) files1 files'"
    by (rule flush_end_Inr [OF fl ok1]) (rule that)
  have w': "cw_write c (sv_chunk_dir sv) (fe_now env) (fe_write env) (mt_entries ?m) files = (files1, Inr res)"
    using w by simp
  note st = store_ok_write [OF assms(1) w' assms(3-5)]
  have "store_ok c (sv_chunk_dir sv') (sv_index sv') files' (db(?cid \<mapsto> mt_entries ?m))"
    using store_ok_outside [OF st(1) out] by (simp add: sv')
  moreover have "visible sv' (db(?cid \<mapsto> mt_entries ?m)) = visible sv db"
    using st(2) by (intro visible_flushed [OF assms(2)]) (simp_all add: sv')
  ultimately show ?thesis by blast
qed

text \<open>
  C11.  A flush that fails loses its points to every query: the memtable has been drained, no
  chunk is registered and nothing is put back. The watermark stays, so that the points are
  still in the log.
\<close>

theorem failed_flush_hides_points:
  assumes "i < length (sv_memtables sv)" "flush_shard c wc env i sv files = (sv', files', Inl e)"
  shows "mt_points (sv_memtables sv' ! i) = {} \<and> sv_index sv' = sv_index sv \<and>
    sv_shard_watermarks sv' = sv_shard_watermarks sv \<and> sv_wals sv' = sv_wals sv"
proof -
  let ?m = "sv_memtables sv ! i"
  have "sv' = sv\<lparr>sv_memtables := (sv_memtables sv)[i := fst (mt_drain ?m)]\<rparr>"
    using assms(2)
    by (auto simp: flush_shard_cases [OF assms(1)] Let_def flush_end_def split: if_splits sum.splits prod.splits)
  then show ?thesis using assms(1) by (simp add: mt_points_drain)
qed


text \<open>
  C10.  The watermark of a flush covers points that are only in the memtable: when an append to
  the shard is acknowledged between the draining of the memtable and the end of the flush, the
  new watermark is the sequence of that append. Its points are in the memtable, but recovery
  with that watermark, which the next snapshot stores, replays nothing.
\<close>

theorem flush_watermark_covers_later_append:
  assumes "prost_lossless wc" "wal_inv wc (shard_wal (sv_wals sv ! i) files log gc pend)"
    "\<forall>e \<in> set log. fst e \<le> wt_last_seq (sv_wals sv ! i)" "gc \<le> wt_last_seq (sv_wals sv ! i)"
    "sv_persisted_watermarks sv ! i \<le> wt_last_seq (sv_wals sv ! i)"
    "server_shape n sv" "i < n"
    "flush_begin i sv = (sv1, Some drained)"
    "shard_groups h srt (word_of_nat n) (map decode_point req) = [(i, points)]"
    "batch_ok wc [Append points 0] (wt_writer (sv_wals sv ! i))" "env_good (env i)"
    "server_append h wc srt env req sv1 files = (sv2, files2, r)"
    "batch_ok wc [DrainBefore (sv_persisted_watermarks sv ! i) 0] (wt_writer (sv_wals sv2 ! i))"
    "env_good (fe_wal fenv)" "flush_end c wc fenv i drained sv2 files2 = (sv3, files3, Inr u)"
    "lists_dir files3 (ww_wal_dir (wt_writer (sv_wals sv3 ! i))) names"
  shows "(\<exists>seq. r = Inr seq) \<and>
    (\<forall>p. p \<in> set points \<longrightarrow> mt_get (sv_memtables sv3 ! i) (dp_key p) (dp_timestamp_ns p) \<noteq> None) \<and>
    (\<exists>res. recover wc all_read files3 (ww_wal_dir (wt_writer (sv_wals sv3 ! i))) names (sv_shard_watermarks sv3 ! i) = Inr res \<and>
       rr_points res = [])"
proof -
  let ?t = "sv_wals sv ! i" and ?pw = "sv_persisted_watermarks sv ! i"
  have len: "length (sv_wals sv) = n" "length (sv_memtables sv) = n" "length (sv_shard_watermarks sv) = n"
    using assms(6) by (simp_all add: server_shape_def)
  have sv1: "sv1 = sv\<lparr>sv_memtables := (sv_memtables sv)[i := fst (mt_drain (sv_memtables sv ! i))]\<rparr>"
    using assms(8) by (auto simp: flush_begin_def Let_def mt_drain_def split: if_splits)
  obtain t files1 s where w: "wal_append wc (env i) points ?t files = (t, files1, s)" by (metis prod_cases3)
  note good = wal_append_good [OF assms(2,11,10) w]
  let ?mem = "fold mt_insert points (fst (mt_drain (sv_memtables sv ! i)))"
  have sv2: "sv_wals sv2 = (sv_wals sv)[i := t]" "sv_memtables sv2 = (sv_memtables sv)[i := ?mem]"
      "sv_persisted_watermarks sv2 = sv_persisted_watermarks sv" "sv_shard_watermarks sv2 = sv_shard_watermarks sv"
      "files2 = files1" "\<exists>seq. r = Inr seq"
    using assms(7,9,12) w good(1) len
    by (auto simp: server_append_def append_wal_def append_insert_def Let_def sv1)
  have t2: "sv_wals sv2 ! i = t" using sv2(1) assms(7) len by simp
  have inv2: "wal_inv wc (shard_wal (sv_wals sv2 ! i) files2 (log @ [(wt_last_seq ?t + 1, points)]) gc pend)"
    using good(3) by (simp add: t2 sv2(5))
  have ok2: "batch_ok wc [DrainBefore (sv_persisted_watermarks sv2 ! i) 0] (wt_writer (sv_wals sv2 ! i))"
    using assms(13) by (simp add: sv2(3))
  have i2: "i < length (sv_wals sv2)" using assms(7) len by (simp add: sv2(1))
  obtain pend' where inv3: "wal_inv wc (shard_wal (sv_wals sv3 ! i) files3 (log @ [(wt_last_seq ?t + 1, points)])
      (max gc (sv_persisted_watermarks sv2 ! i)) pend')"
    by (rule flush_end_good [OF inv2 assms(14) ok2 i2 assms(15)]) (rule that)
  have sv3: "sv_shard_watermarks sv3 = (sv_shard_watermarks sv)[i := wt_last_seq t]" "sv_memtables sv3 = sv_memtables sv2"
    using assms(15) t2
    by (auto simp: flush_end_def Let_def wt_current_sequence_def sv2(4) split: sum.splits prod.splits)
  then have wm: "sv_shard_watermarks sv3 ! i = wt_last_seq ?t + 1" using assms(7) len good(2) by simp
  have no_wrap: "wt_last_seq ?t \<le> wt_last_seq ?t + 1"
    using assms(2,10) by (auto simp: batch_ok_def wal_inv_def word_le_nat_alt unat_word_ariths)
  have "max gc (sv_persisted_watermarks sv2 ! i) \<le> wt_last_seq ?t + 1"
    using assms(4,5) no_wrap by (auto simp: sv2(3) intro: order_trans)
  from wal_inv_recover [OF assms(1) inv3 assms(16) this]
  have "\<exists>res. recover wc all_read files3 (ww_wal_dir (wt_writer (sv_wals sv3 ! i))) names (sv_shard_watermarks sv3 ! i) = Inr res \<and>
      rr_points res = []"
    using assms(3) no_wrap unfolding wm by (force simp: above_def filter_empty_conv)
  moreover have "mt_get ?mem (dp_key p) (dp_timestamp_ns p) \<noteq> None" if "p \<in> set points" for p
    using that by (rule mt_get_inserted [OF mt_inv_drained])
  ultimately show ?thesis using sv2(2,6) sv3(2) assms(7) len by simp
qed


text \<open>A server with one shard, a full memtable and an acknowledged entry in its log.\<close>

definition example_server :: server where
  "example_server =
     \<lparr>sv_wals = [\<lparr>wt_writer = ws_writer example_run, wt_last_seq = 1\<rparr>],
      sv_memtables = [\<lparr>mt_entries = later_series, mt_size_bytes = 53, mt_flush_threshold = 10, mt_entry_count = 1\<rparr>],
      sv_index = ci_new, sv_chunk_dir = [''chunks''], sv_compaction_worker = example_worker,
      sv_snapshot_path = [''index.bin''], sv_shard_watermarks = [0], sv_persisted_watermarks = [0],
      sv_append_seq = 1\<rparr>"

lemma example_server_fields [simp]:
  "sv_wals example_server = [\<lparr>wt_writer = ws_writer example_run, wt_last_seq = 1\<rparr>]"
  "sv_memtables example_server =
     [\<lparr>mt_entries = later_series, mt_size_bytes = 53, mt_flush_threshold = 10, mt_entry_count = 1\<rparr>]"
  "sv_index example_server = ci_new" "sv_chunk_dir example_server = [''chunks'']"
  "sv_shard_watermarks example_server = [0]" "sv_persisted_watermarks example_server = [0]"
  "sv_append_seq example_server = 1"
  by (simp_all add: example_server_def)

abbreviation example_flush :: flush_env where
  "example_flush \<equiv> \<lparr>fe_now = 8, fe_write = CreateOk, fe_wal = env_ok, fe_removed = (\<lambda>p. True)\<rparr>"

abbreviation example_request :: "proto_point list" where
  "example_request \<equiv> [\<lparr>pp_metric_name = ''m'', pp_tags = [], pp_timestamp_ns = I64 6, pp_value = F64 0\<rparr>]"

lemma example_run_inv: "wal_inv plain_wal example_run"
  using wal_inv_step [OF wal_inv_start [OF example_starts] example_steps] .

lemma example_write:
  assumes "files (chunk_path [''chunks''] 8) = None"
  shows "\<exists>res. cw_write plain_crates [''chunks''] 8 CreateOk later_series files =
    (files(chunk_path [''chunks''] 8 \<mapsto> file_of plain_crates 8 later_series), Inr res)"
proof -
  obtain files' res where w: "cw_write plain_crates [''chunks''] 8 CreateOk later_series files = (files', Inr res)"
    using cw_write_succeeds [of later_series files "[''chunks'']" 8 plain_crates] assms
    by (auto simp: new_chunk_id_def)
  with cw_write_Inr(5) [OF w] show ?thesis by (simp add: new_chunk_id_def)
qed

lemma example_append:
  "server_append length_hasher plain_wal (sort_key fst) (\<lambda>_. env_ok) example_request
     (fst (flush_begin 0 example_server)) (ws_files example_run) =
   (example_server\<lparr>sv_memtables := [fold mt_insert [example_point 6] (fst (mt_drain (sv_memtables example_server ! 0)))],
      sv_wals := [\<lparr>wt_writer = example_writer 2 76, wt_last_seq = 2\<rparr>], sv_append_seq := 2\<rparr>,
    [segment_path [''wal''] 1 \<mapsto> example_frame @ encode_frame plain_wal 2 [example_point 6]], Inr 2)"
proof -
  have g: "shard_groups length_hasher (sort_key fst) 1 [example_point 6] = [(0, [example_point 6])]"
    by (simp add: shard_groups_def indexed_points_def shard_index_def)
  have "encode_frame plain_wal 2 [example_point 6] \<noteq> []"
    using length_example_frame [of 2 6] by (metis length_0_conv zero_neq_numeral)
  moreover have "\<not> U64_MAX \<le> (76 :: u64)" by (simp add: U64_MAX_def)
  ultimately have "wal_append plain_wal env_ok [example_point 6] \<lparr>wt_writer = ws_writer example_run, wt_last_seq = 1\<rparr>
      (ws_files example_run) =
    (\<lparr>wt_writer = example_writer 2 76, wt_last_seq = 2\<rparr>,
     [segment_path [''wal''] 1 \<mapsto> example_frame @ encode_frame plain_wal 2 [example_point 6]], Inr 2)"
    by (auto simp: wal_append_def run_simps length_example_frame)
  then show ?thesis
    by (simp add: server_append_def append_wal_def append_insert_def flush_begin_def mt_should_flush_def
        mt_drain_def decode_point_def g Let_def)
qed


lemma example_shape: "server_shape 1 example_server"
  by (auto simp: server_shape_def intro: exI [of _ 0])

lemma example_flush_end:
  assumes "sv_wals sv = [\<lparr>wt_writer = example_writer s z, wt_last_seq = l\<rparr>]" "z < U64_MAX"
    "sv_chunk_dir sv = [''chunks'']" "sv_persisted_watermarks sv = [0]"
    "files (chunk_path [''chunks''] 8) = None"
  shows "\<exists>res. cw_write plain_crates [''chunks''] 8 CreateOk later_series files =
        (files(chunk_path [''chunks''] 8 \<mapsto> file_of plain_crates 8 later_series), Inr res) \<and>
      flush_end plain_crates plain_wal example_flush 0 later_series sv files =
      (sv\<lparr>sv_index := register_results plain_crates res (sv_index sv),
          sv_shard_watermarks := (sv_shard_watermarks sv)[0 := l]\<rparr>,
       files(chunk_path [''chunks''] 8 \<mapsto> file_of plain_crates 8 later_series), Inr ())"
proof -
  define files' where "files' = files(chunk_path [''chunks''] 8 \<mapsto> file_of plain_crates 8 later_series)"
  obtain res where w: "cw_write plain_crates [''chunks''] 8 CreateOk later_series files = (files', Inr res)"
    using example_write [of files] assms(5) by (auto simp: files'_def)
  have "wal_drain plain_wal env_ok 0 \<lparr>wt_writer = example_writer s z, wt_last_seq = l\<rparr> files' =
      (\<lparr>wt_writer = example_writer s z, wt_last_seq = l\<rparr>, files', Inr [])"
    using assms(2) by (simp add: wal_drain_def run_simps not_le)
  with w assms(1,3,4) show ?thesis
    unfolding files'_def [symmetric] by (simp add: flush_end_def Let_def wt_current_sequence_def remove_files_def)
qed

theorem server_shape_kept_witness:
  "server_shape 1 (fst (server_append length_hasher plain_wal (sort_key fst) (\<lambda>_. env_ok) example_request
     example_server (ws_files example_run)))"
proof -
  obtain cf where "load (\<lambda>_. None) = Inr cf"
    by (auto simp: load_def Let_def env_usize_def is_power_of_two_def count_ones_def upt_conv_Cons bit_simps)
  then show ?thesis
    by (intro server_shape_kept [THEN conjunct1] example_shape length_hasher_streaming)
      (simp_all add: sorts_by_shard_def)
qed

theorem flush_keeps_visible_witness:
  "\<exists>sv' files' db'. flush_shard plain_crates plain_wal example_flush 0 example_server (ws_files example_run) =
       (sv', files', Inr ()) \<and>
     store_ok plain_crates [''chunks''] (sv_index sv') files' db' \<and>
     visible sv' db' = visible example_server Map.empty"
proof -
  let ?m = "sv_memtables example_server ! 0"
  have free: "ws_files example_run (chunk_path [''chunks''] 8) = None"
    using chunk_path_not_segment [of "[''chunks'']" 8 "[''wal'']"] by auto
  obtain sv' files' where f: "flush_shard plain_crates plain_wal example_flush 0 example_server (ws_files example_run) =
      (sv', files', Inr ())"
    using example_flush_end [of "example_server\<lparr>sv_memtables := [fst (mt_drain ?m)]\<rparr>" 1 38 1 "ws_files example_run"] free
    by (auto simp: flush_shard_cases mt_should_flush_def length_example_frame U64_MAX_def)
  have clean: "data_ok plain_crates (new_chunk_id (fe_now example_flush)) (mt_entries (sv_memtables example_server ! 0))"
    "keys_apart plain_crates (mt_entries (sv_memtables example_server ! 0)) (sv_index example_server)"
    "starts_free plain_crates (mt_entries (sv_memtables example_server ! 0)) (sv_index example_server)"
    using example_data_ok(2) [of "new_chunk_id 8"]
    by (simp_all add: keys_apart_def no_collision_def starts_free_def ci_new_def ci_entry_def)
  have st: "store_ok plain_crates (sv_chunk_dir example_server) (sv_index example_server) (ws_files example_run) Map.empty"
    using store_ok_new by simp
  have ok: "writer_ok (wt_writer (sv_wals example_server ! 0))" by (simp add: writer_ok_def)
  have "sv_chunk_dir sv' = [''chunks'']"
    using f by (auto simp: flush_shard_cases Let_def flush_end_def split: if_splits sum.splits prod.splits)
  with flush_keeps_visible [OF st _ clean ok f] f show ?thesis by fastforce
qed

theorem failed_flush_hides_points_witness:
  "\<exists>sv'. flush_shard plain_crates plain_wal (example_flush\<lparr>fe_write := create_outcome.OpenFailed\<rparr>) 0 example_server (ws_files example_run) =
       (sv', ws_files example_run, Inl IoError) \<and>
     mt_points (sv_memtables example_server ! 0) = {(cpu_key, I64 9, F64 40)} \<and>
     mt_points (sv_memtables sv' ! 0) = {} \<and> sv_index sv' = ci_new"
proof -
  have free: "ws_files example_run (chunk_path [''chunks''] (new_chunk_id 8)) = None"
    using chunk_path_not_segment [of "[''chunks'']" _ "[''wal'']"] by auto
  have "cw_write plain_crates [''chunks''] 8 create_outcome.OpenFailed later_series (ws_files example_run) =
      (ws_files example_run, Inl IoError)"
    using free by (simp add: cw_write_def cw_encode_eq Let_def)
  then obtain sv' where f: "flush_shard plain_crates plain_wal (example_flush\<lparr>fe_write := create_outcome.OpenFailed\<rparr>) 0
      example_server (ws_files example_run) = (sv', ws_files example_run, Inl IoError)"
    by (simp add: flush_shard_cases mt_should_flush_def flush_end_def)
  have "mt_points (sv_memtables example_server ! 0) = {(cpu_key, I64 9, F64 40)}"
    by (auto simp: mt_points_def mt_get_def sm_get_def split: if_splits)
  with failed_flush_hides_points [OF _ f] f show ?thesis by auto
qed


theorem flush_watermark_covers_later_append_witness:
  "\<exists>sv2 sv3 files2 files3 res.
     server_append length_hasher plain_wal (sort_key fst) (\<lambda>_. env_ok) example_request
       (fst (flush_begin 0 example_server)) (ws_files example_run) = (sv2, files2, Inr 2) \<and>
     flush_end plain_crates plain_wal example_flush 0 later_series sv2 files2 = (sv3, files3, Inr ()) \<and>
     mt_get (sv_memtables sv3 ! 0) (SeriesKey ''m'' []) (I64 6) \<noteq> None \<and>
     recover plain_wal all_read files3 [''wal''] [segment_name 1] (sv_shard_watermarks sv3 ! 0) = Inr res \<and> rr_points res = []"
proof -
  let ?sv1 = "fst (flush_begin 0 example_server)"
  obtain sv2 files2 where a: "server_append length_hasher plain_wal (sort_key fst) (\<lambda>_. env_ok) example_request
        ?sv1 (ws_files example_run) = (sv2, files2, Inr 2)"
    and sv2: "sv_wals sv2 = [\<lparr>wt_writer = example_writer 2 76, wt_last_seq = 2\<rparr>]" "sv_chunk_dir sv2 = [''chunks'']"
      "sv_persisted_watermarks sv2 = [0]"
    and files2: "files2 = [segment_path [''wal''] 1 \<mapsto> example_frame @ encode_frame plain_wal 2 [example_point 6]]"
    using example_append by auto
  let ?files3 = "files2(chunk_path [''chunks''] 8 \<mapsto> file_of plain_crates 8 later_series)"
  have apart: "chunk_path [''chunks''] 8 \<noteq> segment_path [''wal''] 1"
    using chunk_path_not_segment [of "[''chunks'']" 8 "[''wal'']"] by auto
  obtain sv3 where f: "flush_end plain_crates plain_wal example_flush 0 later_series sv2 files2 = (sv3, ?files3, Inr ())"
    and sv3: "sv_wals sv3 = sv_wals sv2"
    using example_flush_end [OF sv2(1) _ sv2(2,3), of files2] apart by (auto simp: files2 U64_MAX_def)
  have names: "lists_dir ?files3 (ww_wal_dir (wt_writer (sv_wals sv3 ! 0))) [segment_name 1]"
    by (auto simp: sv3 sv2 files2 lists_dir_def segment_path_def chunk_path_def)
  have drained: "flush_begin 0 example_server = (?sv1, Some later_series)"
    by (simp add: flush_begin_def mt_should_flush_def mt_drain_def)
  have groups: "shard_groups length_hasher (sort_key fst) (word_of_nat 1) (map decode_point example_request) =
      [(0, [example_point 6])]"
    by (simp add: shard_groups_def indexed_points_def shard_index_def decode_point_def)
  have inv: "wal_inv plain_wal (shard_wal (sv_wals example_server ! 0) (ws_files example_run) [(1, [example_point 5])] 0 {})"
    using example_run_inv by simp
  note claim = flush_watermark_covers_later_append [OF plain_wal_lossless inv, where fenv = example_flush and n = 1
      and req = example_request and srt = "sort_key fst" and h = length_hasher and env = "\<lambda>_. env_ok"
      and names = "[segment_name 1]" and c = plain_crates and points = "[example_point 6]"]
  have "batch_ok plain_wal [DrainBefore 0 0] (wt_writer (sv_wals sv2 ! 0))" by (simp add: batch_ok_def sv2)
  then show ?thesis
    using claim [OF _ _ _ example_shape _ drained groups _ _ a _ _ f names] a f
    by (auto simp: env_good_def example_batch_ok sv2 sv3)
qed

end
