(* ===== verification/Server_Run.thy ===== *)
theory Server_Run
  imports Server_State
begin

section \<open>Runs of the server\<close>

text \<open>
  A run of the server from its first start: appends, flushes and snapshots in any order. The
  invariant ties together what the clients were told (the logs of the shards), the memtables,
  the chunk files and the index, the segments on disk and the last snapshot.

  The runs are those in which WAL writes and chunk writes succeed and no operation runs inside
  a flush; what happens otherwise is the subject of other properties. Snapshots may fail.
\<close>

subsection \<open>Points of logs\<close>

definition point_set :: "data_point list \<Rightarrow> (series_key \<times> i64 \<times> f64) set" where
  "point_set ps = (\<lambda>p. (dp_key p, dp_timestamp_ns p, dp_value p)) ` set ps"

definition log_points :: "wal_log \<Rightarrow> (series_key \<times> i64 \<times> f64) set" where
  "log_points log = (\<Union>e \<in> set log. point_set (snd e))"

definition log_upto :: "u64 \<Rightarrow> wal_log \<Rightarrow> wal_log" where
  "log_upto wm log = filter (\<lambda>e. fst e \<le> wm) log"

text \<open>All points acknowledged so far.\<close>

definition acked_points :: "wal_log list \<Rightarrow> (series_key \<times> i64 \<times> f64) set" where
  "acked_points logs = (\<Union>i < length logs. log_points (logs ! i))"

lemma log_points_simps [simp]:
  "log_points [] = {}" "log_points (e # l) = point_set (snd e) \<union> log_points l"
  "log_points (l @ l') = log_points l \<union> log_points l'"
  by (auto simp: log_points_def)

lemma log_points_upto_above: "log_points (log_upto wm log) \<union> log_points (above wm log) = log_points log"
  by (induction log) (auto simp: log_upto_def above_def not_le)

lemma point_set_concat: "point_set (concat (map snd log)) = log_points log"
  by (simp add: point_set_def log_points_def image_UN)

lemma mem_point_set:
  "(k, t, v) \<in> point_set ps \<longleftrightarrow> (\<exists>p \<in> set ps. dp_key p = k \<and> dp_timestamp_ns p = t \<and> dp_value p = v)"
  by (auto simp: point_set_def)

lemma point_set_Un: "point_set (a @ b) = point_set a \<union> point_set b"
  by (simp add: point_set_def image_Un)

lemma log_upto_append [simp]: "log_upto wm (l @ l') = log_upto wm l @ log_upto wm l'"
  by (simp add: log_upto_def)

lemma upto_all: "\<forall>e \<in> set log. fst e \<le> wm \<Longrightarrow> log_upto wm log = log" "\<forall>e \<in> set log. fst e \<le> wm \<Longrightarrow> above wm log = []"
  by (auto simp: log_upto_def above_def filter_id_conv filter_empty_conv)


subsection \<open>Clean histories\<close>

text \<open>
  What the code relies on in the points it was given: no timestamp of a series is written by
  two requests or with two values, the text form of keys is unambiguous, identifiers of series
  do not collide, and every chunk made of the points fits the format.
\<close>

definition no_rewrites :: "wal_log list \<Rightarrow> bool" where
  "no_rewrites logs \<longleftrightarrow>
     (\<forall>i < length logs. \<forall>j < length logs. \<forall>e \<in> set (logs ! i). \<forall>e' \<in> set (logs ! j).
        \<forall>p \<in> set (snd e). \<forall>p' \<in> set (snd e').
          dp_key p = dp_key p' \<longrightarrow> dp_timestamp_ns p = dp_timestamp_ns p' \<longrightarrow>
          i = j \<and> fst e = fst e' \<and> dp_value p = dp_value p')"

definition data_points :: "series_map \<Rightarrow> (series_key \<times> i64 \<times> f64) set" where
  "data_points data = {(k, t, v). sm_get data k t = Some v}"

definition clean_logs :: "('h, 'b, 'z) chunk_crates_scheme \<Rightarrow> wal_log list \<Rightarrow> bool" where
  "clean_logs c logs \<longleftrightarrow>
     no_rewrites logs \<and> (\<forall>k \<in> fst ` acked_points logs. key_type_ok k \<and> key_unambiguous k) \<and>
     inj_on (series_id c) (fst ` acked_points logs) \<and>
     (\<forall>cid data. sm_inv data \<longrightarrow> data \<noteq> [] \<longrightarrow> data_points data \<subseteq> acked_points logs \<longrightarrow>
        chunk_fits c cid data)"

lemma no_rewritesD:
  assumes "no_rewrites logs" "i < length logs" "j < length logs"
    "(k, t, v) \<in> point_set (snd e)" "(k, t, v') \<in> point_set (snd e')" "e \<in> set (logs ! i)" "e' \<in> set (logs ! j)"
  shows "i = j \<and> fst e = fst e' \<and> v = v'"
proof -
  obtain p where p: "p \<in> set (snd e)" "dp_key p = k" "dp_timestamp_ns p = t" "dp_value p = v"
    using assms(4) by (auto simp: mem_point_set)
  obtain p' where p': "p' \<in> set (snd e')" "dp_key p' = k" "dp_timestamp_ns p' = t" "dp_value p' = v'"
    using assms(5) by (auto simp: mem_point_set)
  from assms(1) [unfolded no_rewrites_def, rule_format, OF assms(2,3,6,7) p(1) p'(1)] p p' show ?thesis by simp
qed

lemma log_points_entry: "x \<in> log_points log \<longleftrightarrow> (\<exists>e \<in> set log. x \<in> point_set (snd e))"
  by (auto simp: log_points_def)

lemma acked_entry: "x \<in> acked_points logs \<longleftrightarrow> (\<exists>i < length logs. \<exists>e \<in> set (logs ! i). x \<in> point_set (snd e))"
  by (auto simp: acked_points_def log_points_def)

lemma acked_points_mono:
  assumes "length logs' = length logs" "\<forall>j < length logs. set (logs' ! j) \<subseteq> set (logs ! j)"
  shows "acked_points logs' \<subseteq> acked_points logs"
  using assms unfolding acked_points_def log_points_def by fastforce

lemma clean_logs_mono:
  assumes clean: "clean_logs c logs" and len: "length logs' = length logs"
    and sub: "\<forall>j < length logs. set (logs' ! j) \<subseteq> set (logs ! j)"
  shows "clean_logs c logs'"
proof -
  note ap = acked_points_mono [OF len sub]
  have "no_rewrites logs'"
    unfolding no_rewrites_def
  proof (intro allI impI ballI)
    fix i j e e' p p'
    assume ij: "i < length logs'" "j < length logs'" and e: "e \<in> set (logs' ! i)" "e' \<in> set (logs' ! j)"
      and p: "p \<in> set (snd e)" "p' \<in> set (snd e')" "dp_key p = dp_key p'" "dp_timestamp_ns p = dp_timestamp_ns p'"
    have old: "i < length logs" "j < length logs" "e \<in> set (logs ! i)" "e' \<in> set (logs ! j)"
      using len sub ij e by auto
    have "no_rewrites logs" using clean by (simp add: clean_logs_def)
    from this [unfolded no_rewrites_def, rule_format, OF old p]
    show "i = j \<and> fst e = fst e' \<and> dp_value p = dp_value p'" .
  qed
  moreover have "inj_on (series_id c) (fst ` acked_points logs')"
    using clean ap by (auto simp: clean_logs_def intro: inj_on_subset image_mono)
  moreover have "\<forall>k \<in> fst ` acked_points logs'. key_type_ok k \<and> key_unambiguous k"
    using clean image_mono [OF ap, of fst] unfolding clean_logs_def by blast
  moreover have "chunk_fits c cid data" if "sm_inv data" "data \<noteq> []" "data_points data \<subseteq> acked_points logs'" for cid data
    using clean that subset_trans [OF that(3) ap] by (simp add: clean_logs_def)
  ultimately show ?thesis by (simp add: clean_logs_def)
qed

lemma acked_single_valued:
  assumes "no_rewrites logs" "(k, t, v) \<in> acked_points logs" "(k, t, v') \<in> acked_points logs"
  shows "v = v'"
proof -
  obtain i e where i: "i < length logs" "e \<in> set (logs ! i)" "(k, t, v) \<in> point_set (snd e)"
    using assms(2) unfolding acked_entry by blast
  obtain j e' where j: "j < length logs" "e' \<in> set (logs ! j)" "(k, t, v') \<in> point_set (snd e')"
    using assms(3) unfolding acked_entry by blast
  show ?thesis using no_rewritesD [OF assms(1) i(1) j(1) i(3) j(3) i(2) j(2)] by blast
qed

text \<open>Entries up to the watermarks and an entry above its watermark share no point.\<close>

lemma upto_above_disjoint:
  assumes "no_rewrites logs" "i < length logs" "j < length logs"
    "(k, t, v) \<in> log_points (log_upto (wm j) (logs ! j))" "(k, t, v') \<in> log_points (above (wm i) (logs ! i))"
  shows False
proof -
  obtain e where e: "e \<in> set (logs ! j)" "fst e \<le> wm j" "(k, t, v) \<in> point_set (snd e)"
    using assms(4) unfolding log_points_entry log_upto_def by auto
  obtain e' where e': "e' \<in> set (logs ! i)" "wm i < fst e'" "(k, t, v') \<in> point_set (snd e')"
    using assms(5) unfolding log_points_entry above_def by auto
  have "j = i \<and> fst e = fst e'"
    using no_rewritesD [OF assms(1,3,2) e(3) e'(3) e(1) e'(1)] by blast
  with e(2) e'(2) show False by auto
qed


subsection \<open>Memtables of a clean history\<close>

lemma mem_mt_points: "(k, t, v) \<in> mt_points m \<longleftrightarrow> mt_get m k t = Some v"
  by (simp add: mt_points_def)

lemma mt_points_inserts:
  assumes "mt_inv m"
    and "\<And>k t v v'. (k, t, v) \<in> mt_points m \<union> point_set ps \<Longrightarrow> (k, t, v') \<in> point_set ps \<Longrightarrow> v = v'"
  shows "mt_points (fold mt_insert ps m) = mt_points m \<union> point_set ps"
proof -
  have ws: "set (writes_of ps) = point_set ps" by (simp add: writes_of_def point_set_def)
  have iff: "(k, t, v) \<in> mt_points (fold mt_insert ps m) \<longleftrightarrow> (k, t, v) \<in> mt_points m \<union> point_set ps" for k t v
  proof (cases "last_write (writes_of ps) k t")
    case None
    then have "(k, t, v) \<notin> point_set ps" by (simp add: last_write_None ws)
    moreover have "mt_get (fold mt_insert ps m) k t = mt_get m k t"
      using None by (simp add: mt_get_inserts [OF assms(1)])
    ultimately show ?thesis by (simp add: mem_mt_points)
  next
    case (Some w)
    then have w: "(k, t, w) \<in> point_set ps" using last_write_Some_mem [OF Some] ws by simp
    have "mt_get (fold mt_insert ps m) k t = Some w" using Some by (simp add: mt_get_inserts [OF assms(1)])
    moreover have "v = w" if "(k, t, v) \<in> mt_points m \<union> point_set ps" using assms(2) [OF that w] .
    ultimately show ?thesis using w by (auto simp: mem_mt_points)
  qed
  show ?thesis
  proof (rule set_eqI)
    fix x :: "series_key \<times> i64 \<times> f64"
    obtain k t v where "x = (k, t, v)" by (cases x)
    then show "x \<in> mt_points (fold mt_insert ps m) \<longleftrightarrow> x \<in> mt_points m \<union> point_set ps" using iff by simp
  qed
qed

lemma mt_points_data: "mt_points m = data_points (mt_entries m)"
  by (simp add: mt_points_def data_points_def mt_get_def)


subsection \<open>Chunks of a clean history\<close>

text \<open>Index and files hold the points \<open>pts\<close>, and only keys of \<open>keys\<close> are registered.\<close>

definition chunks_hold ::
    "('h, 'b, 'z) chunk_crates_scheme \<Rightarrow> path \<Rightarrow> series_key set \<Rightarrow> chunk_index \<Rightarrow> fs \<Rightarrow>
     (series_key \<times> i64 \<times> f64) set \<Rightarrow> bool" where
  "chunks_hold c dir keys ix files pts \<longleftrightarrow>
     (\<exists>db. store_ok c dir ix files db \<and> db_points db = pts) \<and>
     (\<forall>sid k. map_of (ci_series_registry ix) sid = Some k \<longrightarrow> k \<in> keys)"

lemma chunks_hold_new: "chunks_hold c dir keys ci_new files {}"
proof -
  have "db_points Map.empty = {}" by (simp add: db_points_def)
  with store_ok_new [of c dir files] show ?thesis unfolding chunks_hold_def by (auto simp: ci_new_def)
qed

lemma chunks_hold_mono: "chunks_hold c dir keys ix files pts \<Longrightarrow> keys \<subseteq> keys' \<Longrightarrow> chunks_hold c dir keys' ix files pts"
  by (auto simp: chunks_hold_def)

lemma chunks_hold_frame:
  assumes "chunks_hold c dir keys ix files pts" "\<forall>cid. files' (chunk_path dir cid) = files (chunk_path dir cid)"
  shows "chunks_hold c dir keys ix files' pts"
  using assms(1) store_ok_frame [OF _ assms(2)] unfolding chunks_hold_def by blast

lemma fst_mem: "(k, t, v) \<in> S \<Longrightarrow> k \<in> fst ` S"
  by force

lemma data_key_point:
  assumes "sm_inv data" "(k, ps) \<in> set data"
  shows "\<exists>v. (k, fst (hd ps), v) \<in> data_points data"
proof -
  have "ps \<noteq> []" using assms by (auto simp: sm_inv_def)
  then have "(fst (hd ps), snd (hd ps)) \<in> set ps" by simp
  with assms(2) have "sm_get data k (fst (hd ps)) = Some (snd (hd ps))" using sm_get_mem [OF assms(1)] by blast
  then show ?thesis by (auto simp: data_points_def)
qed

lemma data_key_acked:
  assumes "sm_inv data" "data_points data \<subseteq> pts" "k \<in> fst ` set data"
  shows "k \<in> fst ` pts"
proof -
  obtain ps where "(k, ps) \<in> set data" using assms(3) by auto
  from data_key_point [OF assms(1) this] obtain v where "(k, fst (hd ps), v) \<in> pts" using assms(2) by blast
  then show ?thesis by force
qed

lemma clean_data_ok:
  assumes "clean_logs c logs" "sm_inv data" "data_points data \<subseteq> acked_points logs" "data \<noteq> []"
  shows "data_ok c cid data"
proof -
  have "key_type_ok k \<and> key_unambiguous k" if "k \<in> fst ` set data" for k
    using assms(1) data_key_acked [OF assms(2,3) that] unfolding clean_logs_def by blast
  moreover have "chunk_fits c cid data" using assms by (simp add: clean_logs_def)
  ultimately show ?thesis using assms(2) by (simp add: data_ok_def)
qed

lemma clean_keys_apart:
  assumes clean: "clean_logs c logs" and sm: "sm_inv data" and sub: "data_points data \<subseteq> acked_points logs"
    and hold: "chunks_hold c dir (fst ` acked_points logs) ix files pts"
  shows "keys_apart c data ix"
proof -
  have inj: "inj_on (series_id c) (fst ` acked_points logs)" using clean by (simp add: clean_logs_def)
  have keys: "fst ` set data \<subseteq> fst ` acked_points logs" using data_key_acked [OF sm sub] by blast
  have reg: "ci_registry_ok c ix" using hold by (auto simp: chunks_hold_def store_ok_def ci_inv_def)
  have "no_collision c k ix" if k: "k \<in> fst ` set data" for k
  proof (cases "map_of (ci_series_registry ix) (series_id c k)")
    case (Some sk)
    then have "sk \<in> fst ` acked_points logs" "series_id c k = series_id c sk"
      using hold reg by (auto simp: chunks_hold_def ci_registry_ok_def)
    moreover have "k \<in> fst ` acked_points logs" using keys k by blast
    ultimately have "k = sk" using inj by (blast dest: inj_onD)
    with Some show ?thesis by (simp add: no_collision_def)
  qed (simp add: no_collision_def)
  then show ?thesis using inj_on_subset [OF inj keys] by (simp add: keys_apart_def)
qed

lemma clean_starts_free:
  assumes clean: "clean_logs c logs" and sm: "sm_inv data" and sub: "data_points data \<subseteq> acked_points logs"
    and ok: "store_ok c dir ix files db" and dbs: "db_points db \<subseteq> acked_points logs"
    and disj: "\<And>k t v v'. (k, t, v) \<in> db_points db \<Longrightarrow> (k, t, v') \<in> data_points data \<Longrightarrow> False"
  shows "starts_free c data ix"
  unfolding starts_free_def
proof (clarify)
  fix k ps
  assume k: "(k, ps) \<in> set data"
  show "ci_entry ix (series_id c k) (fst (hd ps)) = None"
  proof (rule ccontr)
    assume "ci_entry ix (series_id c k) (fst (hd ps)) \<noteq> None"
    then obtain e where e: "ci_entry ix (series_id c k) (fst (hd ps)) = Some e" by blast
    obtain k' ps' data' where w: "db (sce_chunk_id e) = Some data'" "(k', ps') \<in> set data'"
        "series_id c k = series_id c k'" "fst (hd ps) = fst (hd ps')" "data_ok c (sce_chunk_id e) data'"
      by (rule store_ok_entry [OF ok e]) (rule that)
    obtain v where "(k', fst (hd ps'), v) \<in> data_points data'"
      using data_key_point [OF data_okD(1) [OF w(5)] w(2)] by blast
    then have v: "(k', fst (hd ps), v) \<in> db_points db"
      using db_pointsI [of db "sce_chunk_id e" data'] w(1,4) by (simp add: data_points_def)
    obtain v' where v': "(k, fst (hd ps), v') \<in> data_points data" using data_key_point [OF sm k] by blast
    have mem: "k \<in> fst ` acked_points logs" "k' \<in> fst ` acked_points logs"
      using fst_mem [OF subsetD [OF sub v']] fst_mem [OF subsetD [OF dbs v]] by blast+
    have "inj_on (series_id c) (fst ` acked_points logs)" using clean by (simp add: clean_logs_def)
    from inj_onD [OF this w(3) mem] have "k' = k" by simp
    with disj [of k "fst (hd ps)" v v'] v v' show False by simp
  qed
qed

lemma add_chunk:
  assumes clean: "clean_logs c logs" and sm: "sm_inv data" and sub: "data_points data \<subseteq> acked_points logs"
    and hold: "chunks_hold c dir (fst ` acked_points logs) ix files pts" and pts: "pts \<subseteq> acked_points logs"
    and disj: "\<And>k t v v'. (k, t, v) \<in> pts \<Longrightarrow> (k, t, v') \<in> data_points data \<Longrightarrow> False"
    and w: "cw_write c dir now io data files = (files', Inr res)"
  shows "chunks_hold c dir (fst ` acked_points logs) (register_results c res ix) files' (pts \<union> data_points data)"
    "ci_shard_watermarks (register_results c res ix) = ci_shard_watermarks ix"
proof -
  let ?cid = "new_chunk_id now"
  obtain db where ok: "store_ok c dir ix files db" and dbp: "db_points db = pts"
    using hold by (auto simp: chunks_hold_def)
  have free: "starts_free c data ix"
    using clean_starts_free [OF clean sm sub ok] pts disj dbp by blast
  note st = store_ok_write [OF ok w clean_data_ok [OF clean sm sub cw_write_Inr(1) [OF w]] clean_keys_apart [OF clean sm sub hold] free]
  have "db_points (db(?cid \<mapsto> data)) = pts \<union> data_points data"
    using db_points_upd [of db ?cid data] st(2) dbp by (simp add: data_points_def)
  moreover have reg: "register_results c res ix = register_data c ?cid (cwr_chunk_meta res) data ix"
    by (rule register_results_write [OF w sm])
  moreover have "k \<in> fst ` acked_points logs"
    if "map_of (ci_series_registry (register_data c ?cid (cwr_chunk_meta res) data ix)) sid = Some k" for sid k
  proof -
    from that consider "map_of (ci_series_registry ix) sid = Some k" |
        "map_of (rev (map (\<lambda>e. (series_id c (fst e), fst e)) data)) sid = Some k"
      unfolding registry_register_data map_add_Some_iff by blast
    then show ?thesis
    proof cases
      case 1
      with hold show ?thesis by (auto simp: chunks_hold_def)
    next
      case 2
      then have "k \<in> fst ` set data" by (auto dest!: map_of_SomeD)
      then show ?thesis by (rule data_key_acked [OF sm sub])
    qed
  qed
  ultimately show "chunks_hold c dir (fst ` acked_points logs) (register_results c res ix) files' (pts \<union> data_points data)"
    using st(1) unfolding chunks_hold_def by metis
  show "ci_shard_watermarks (register_results c res ix) = ci_shard_watermarks ix" by (simp add: reg)
qed


subsection \<open>What stays when other files change\<close>

text \<open>A file that is neither a segment nor a chunk by its name.\<close>

definition plain_file :: "path \<Rightarrow> bool" where
  "plain_file p \<longleftrightarrow>
     p \<noteq> [] \<and> path_extension (last p) \<noteq> Some ''wal'' \<and> path_extension (last p) \<noteq> Some ''mcs''"

definition snapshot_apart :: "path \<Rightarrow> bool" where
  "snapshot_apart p \<longleftrightarrow> plain_file p \<and> with_extension p ''tmp'' \<noteq> p"

lemma plain_file_segment: "plain_file p \<Longrightarrow> p \<notin> range (segment_path d)"
  by (auto simp: plain_file_def segment_path_def join_def)

lemma plain_file_chunk: "plain_file p \<Longrightarrow> p \<noteq> chunk_path d cid"
  using path_extension_chunk [of d cid] by (auto simp: plain_file_def chunk_path_def join_def)

lemma plain_file_tmp:
  assumes "p \<noteq> []"
  shows "plain_file (with_extension p ''tmp'')"
proof -
  have "path_extension (s @ ''.tmp'') = (if s = [] then None else Some ''tmp'')" for s
    by (simp add: path_extension_def)
  then show ?thesis using assms by (simp add: plain_file_def with_extension_def)
qed

lemma snapshot_apart_segment: "snapshot_apart p \<Longrightarrow> p \<notin> range (segment_path d)"
  by (simp add: snapshot_apart_def plain_file_segment)

lemma snapshot_apart_chunk: "snapshot_apart p \<Longrightarrow> p \<noteq> chunk_path d cid"
  by (simp add: snapshot_apart_def plain_file_chunk)

lemma chunks_hold_plain:
  "chunks_hold c dir keys ix files pts \<Longrightarrow> plain_file p \<Longrightarrow> chunks_hold c dir keys ix (files(p := x)) pts"
  by (erule chunks_hold_frame) (auto dest: plain_file_chunk)

lemma wal_inv_plain:
  assumes "wal_inv wc (shard_wal t files log gc pend)" "plain_file p"
  shows "wal_inv wc (shard_wal t (files(p := x)) log gc pend)"
  using assms by (intro wal_inv_frame [OF assms(1)]) (auto simp: plain_file_def join_def)

lemma outside_wal_inv:
  assumes "wal_inv wc (shard_wal t files log gc pend)" "ww_wal_dir (wt_writer t) = shard_dir d i"
    "same_outside (shard_dir d j) files files'" "i \<noteq> j"
  shows "wal_inv wc (shard_wal t files' log gc pend)"
proof (rule wal_inv_frame [OF assms(1)], intro allI impI)
  fix n
  have "join (shard_dir d i) n \<notin> range (segment_path (shard_dir d j))"
    using assms(4) by (auto simp: segment_path_def)
  then show "files' (join (ww_wal_dir (wt_writer t)) n) = files (join (ww_wal_dir (wt_writer t)) n)"
    using assms(2,3) by (simp add: same_outside_def)
qed

lemma outside_chunks_hold:
  "chunks_hold c dir keys ix files pts \<Longrightarrow> same_outside d files files' \<Longrightarrow> chunks_hold c dir keys ix files' pts"
  by (erule chunks_hold_frame) (simp add: same_outside_def chunk_path_not_segment)

lemma wal_inv_writer_ok: "wal_inv wc (shard_wal t files log gc pend) \<Longrightarrow> writer_ok (wt_writer t)"
  by (auto simp: wal_inv_def wal_disk_def wal_layout_def writer_ok_def)


subsection \<open>The invariant of a run\<close>

record run =
  rn_server :: server
  rn_files :: fs
  rn_logs :: "wal_log list"

text \<open>The log of a shard against its task and the files.\<close>

definition log_inv :: "'w wal_crates_scheme \<Rightarrow> path \<Rightarrow> nat \<Rightarrow> wal_task \<Rightarrow> fs \<Rightarrow> wal_log \<Rightarrow> u64 \<Rightarrow> bool" where
  "log_inv wc wal_dir i t files log pw \<longleftrightarrow>
     (\<exists>gc pend. wal_inv wc (shard_wal t files log gc pend) \<and> gc \<le> pw) \<and>
     ww_wal_dir (wt_writer t) = shard_dir wal_dir i \<and>
     (\<forall>e \<in> set log. 0 < fst e \<and> fst e \<le> wt_last_seq t) \<and> pw \<le> wt_last_seq t"

lemma log_invI:
  assumes "wal_inv wc (shard_wal t files log gc pend)" "gc \<le> pw" "ww_wal_dir (wt_writer t) = shard_dir wal_dir i"
    "\<forall>e \<in> set log. 0 < fst e \<and> fst e \<le> wt_last_seq t" "pw \<le> wt_last_seq t"
  shows "log_inv wc wal_dir i t files log pw"
  using assms unfolding log_inv_def by blast

lemma log_invE:
  assumes "log_inv wc wal_dir i t files log pw"
  obtains gc pend where "wal_inv wc (shard_wal t files log gc pend)" "gc \<le> pw"
    "ww_wal_dir (wt_writer t) = shard_dir wal_dir i"
    "\<forall>e \<in> set log. 0 < fst e \<and> fst e \<le> wt_last_seq t" "pw \<le> wt_last_seq t"
  using assms unfolding log_inv_def by blast

lemma log_inv_writer:
  assumes "log_inv wc wal_dir i t files log pw"
  shows "writer_ok (wt_writer t)" "ww_wal_dir (wt_writer t) = shard_dir wal_dir i"
proof -
  obtain gc pend where "wal_inv wc (shard_wal t files log gc pend)" using assms by (rule log_invE)
  then show "writer_ok (wt_writer t)" by (rule wal_inv_writer_ok)
  show "ww_wal_dir (wt_writer t) = shard_dir wal_dir i" using assms by (simp add: log_inv_def)
qed

text \<open>The memtable of a shard holds what was logged above the watermark.\<close>

definition mem_inv :: "memtable \<Rightarrow> wal_task \<Rightarrow> wal_log \<Rightarrow> u64 \<Rightarrow> bool" where
  "mem_inv m t log wm \<longleftrightarrow> mt_inv m \<and> mt_points m = log_points (above wm log) \<and> wm \<le> wt_last_seq t"

definition flushed :: "u64 list \<Rightarrow> wal_log list \<Rightarrow> (series_key \<times> i64 \<times> f64) set" where
  "flushed wms logs = (\<Union>i < length logs. log_points (log_upto (wms ! i) (logs ! i)))"

text \<open>The snapshot on disk holds what was logged up to the persisted watermarks.\<close>

definition snapshot_inv ::
    "('h, 'b, 'z) chunk_crates_scheme \<Rightarrow> 'y bincode_crate_scheme \<Rightarrow> server \<Rightarrow> fs \<Rightarrow> wal_log list \<Rightarrow> bool" where
  "snapshot_inv c bc sv files logs \<longleftrightarrow>
     (case files (sv_snapshot_path sv) of
        None \<Rightarrow> sv_persisted_watermarks sv = replicate (length logs) 0
      | Some bs \<Rightarrow>
          (\<exists>ix. bc_deserialize bc bs = Some (snapshot_of ix (sv_persisted_watermarks sv)) \<and>
             chunks_hold c (sv_chunk_dir sv) (fst ` acked_points logs) ix files
               (flushed (sv_persisted_watermarks sv) logs)))"

definition run_inv ::
    "('h, 'b, 'z) chunk_crates_scheme \<Rightarrow> 'w wal_crates_scheme \<Rightarrow> 'y bincode_crate_scheme \<Rightarrow> storage_config \<Rightarrow>
     run \<Rightarrow> bool" where
  "run_inv c wc bc cf r \<longleftrightarrow>
     (let sv = rn_server r; files = rn_files r; logs = rn_logs r
      in server_shape (unat (cf_num_shards cf)) sv \<and> length logs = unat (cf_num_shards cf) \<and>
         sv_chunk_dir sv = cf_chunk_dir cf \<and> sv_snapshot_path sv = cf_index_path cf \<and>
         clean_logs c logs \<and>
         chunks_hold c (cf_chunk_dir cf) (fst ` acked_points logs) (sv_index sv) files
           (flushed (sv_shard_watermarks sv) logs) \<and>
         (\<forall>i < length logs.
            log_inv wc (cf_wal_dir cf) i (sv_wals sv ! i) files (logs ! i) (sv_persisted_watermarks sv ! i) \<and>
            mem_inv (sv_memtables sv ! i) (sv_wals sv ! i) (logs ! i) (sv_shard_watermarks sv ! i) \<and>
            sv_persisted_watermarks sv ! i \<le> sv_shard_watermarks sv ! i) \<and>
         snapshot_inv c bc sv files logs)"

lemma run_invD:
  assumes "run_inv c wc bc cf r"
  shows "server_shape (unat (cf_num_shards cf)) (rn_server r)" "length (rn_logs r) = unat (cf_num_shards cf)"
    "sv_chunk_dir (rn_server r) = cf_chunk_dir cf" "sv_snapshot_path (rn_server r) = cf_index_path cf"
    "clean_logs c (rn_logs r)"
    "chunks_hold c (cf_chunk_dir cf) (fst ` acked_points (rn_logs r)) (sv_index (rn_server r)) (rn_files r)
       (flushed (sv_shard_watermarks (rn_server r)) (rn_logs r))"
    "\<And>i. i < unat (cf_num_shards cf) \<Longrightarrow> log_inv wc (cf_wal_dir cf) i (sv_wals (rn_server r) ! i) (rn_files r)
       (rn_logs r ! i) (sv_persisted_watermarks (rn_server r) ! i)"
    "\<And>i. i < unat (cf_num_shards cf) \<Longrightarrow> mem_inv (sv_memtables (rn_server r) ! i) (sv_wals (rn_server r) ! i)
       (rn_logs r ! i) (sv_shard_watermarks (rn_server r) ! i)"
    "snapshot_inv c bc (rn_server r) (rn_files r) (rn_logs r)"
    "\<And>i. i < unat (cf_num_shards cf) \<Longrightarrow>
       sv_persisted_watermarks (rn_server r) ! i \<le> sv_shard_watermarks (rn_server r) ! i"
  using assms by (simp_all add: run_inv_def Let_def)

text \<open>What an acknowledged append adds to the logs.\<close>

definition logged :: "wal_task list \<Rightarrow> (nat \<times> data_point list) list \<Rightarrow> wal_log list \<Rightarrow> wal_log list" where
  "logged wals groups logs =
     map (\<lambda>i. logs ! i @ (case map_of groups i of None \<Rightarrow> [] | Some ps \<Rightarrow> [(wt_last_seq (wals ! i) + 1, ps)]))
       [0..<length logs]"

text \<open>
  One operation at a time: an append that is acknowledged, the flush of a shard that succeeds,
  and a snapshot with any outcome.
\<close>

inductive run_step ::
    "('h, 'b, 'z) chunk_crates_scheme \<Rightarrow> 'w wal_crates_scheme \<Rightarrow> 'y bincode_crate_scheme \<Rightarrow> shard_sort \<Rightarrow>
     run \<Rightarrow> run \<Rightarrow> bool" for c wc bc srt where
  run_append:
    "groups = shard_groups c srt (word_of_nat (length (sv_memtables (rn_server r)))) (map decode_point req) \<Longrightarrow>
     \<forall>s ps. (s, ps) \<in> set groups \<longrightarrow> batch_ok wc [Append ps 0] (wt_writer (sv_wals (rn_server r) ! s)) \<Longrightarrow>
     \<forall>s. env_good (env s) \<Longrightarrow>
     logs' = logged (sv_wals (rn_server r)) groups (rn_logs r) \<Longrightarrow>
     server_append c wc srt env req (rn_server r) (rn_files r) = (sv', files', Inr seq) \<Longrightarrow>
     run_step c wc bc srt r \<lparr>rn_server = sv', rn_files = files', rn_logs = logs'\<rparr>"
| run_flush:
    "i < length (sv_memtables (rn_server r)) \<Longrightarrow> env_good (fe_wal fenv) \<Longrightarrow>
     batch_ok wc [DrainBefore (sv_persisted_watermarks (rn_server r) ! i) 0] (wt_writer (sv_wals (rn_server r) ! i)) \<Longrightarrow>
     flush_shard c wc fenv i (rn_server r) (rn_files r) = (sv', files', Inr u) \<Longrightarrow>
     run_step c wc bc srt r \<lparr>rn_server = sv', rn_files = files', rn_logs = rn_logs r\<rparr>"
| run_snapshot:
    "server_snapshot bc io (rn_server r) (rn_files r) = (sv', files', res) \<Longrightarrow>
     run_step c wc bc srt r \<lparr>rn_server = sv', rn_files = files', rn_logs = rn_logs r\<rparr>"


subsection \<open>Appends keep the invariant\<close>

lemma wal_appends_log_inv:
  assumes "\<forall>s < length wals. writer_ok (wt_writer (wals ! s)) \<and> ww_wal_dir (wt_writer (wals ! s)) = shard_dir d s"
    "distinct (map fst groups)" "fst ` set groups \<subseteq> {..<length wals}" "\<forall>s. env_good (env s)"
    "\<forall>s ps. (s, ps) \<in> set groups \<longrightarrow> batch_ok wc [Append ps 0] (wt_writer (wals ! s))"
    "i < length wals" "wal_inv wc (shard_wal (wals ! i) files log gc pend)"
    "wal_appends wc env groups wals files = (wals', files', rs)"
  shows "wal_inv wc (shard_wal (wals' ! i) files'
      (log @ (case map_of groups i of None \<Rightarrow> [] | Some ps \<Rightarrow> [(wt_last_seq (wals ! i) + 1, ps)])) gc pend) \<and>
    wt_last_seq (wals' ! i) =
      (case map_of groups i of None \<Rightarrow> wt_last_seq (wals ! i) | Some ps \<Rightarrow> wt_last_seq (wals ! i) + 1) \<and>
    ww_wal_dir (wt_writer (wals' ! i)) = shard_dir d i"
  using assms
proof (induction groups arbitrary: wals files log rs)
  case (Cons g groups)
  note prems = Cons.prems
  obtain s ps where g: "g = (s, ps)" by fastforce
  obtain t files1 r where a: "wal_append wc (env s) ps (wals ! s) files = (t, files1, r)" by (metis prod_cases3)
  obtain rs1 where rest: "wal_appends wc env groups (wals[s := t]) files1 = (wals', files', rs1)"
    using prems(8) a by (auto simp: g split: prod.splits)
  have s: "s < length wals" using prems(3) by (simp add: g)
  have fr: "writer_ok (wt_writer t)" "ww_wal_dir (wt_writer t) = shard_dir d s" "same_outside (shard_dir d s) files files1"
    using wal_append_frame [OF _ a] prems(1) s by simp_all
  have w1: "\<forall>j < length (wals[s := t]). writer_ok (wt_writer (wals[s := t] ! j)) \<and>
      ww_wal_dir (wt_writer (wals[s := t] ! j)) = shard_dir d j"
    using prems(1) fr s by (auto simp: nth_list_update)
  have notin: "s \<notin> fst ` set groups" using prems(2) by (simp add: g)
  have ok1: "\<forall>j qs. (j, qs) \<in> set groups \<longrightarrow> batch_ok wc [Append qs 0] (wt_writer (wals[s := t] ! j))"
  proof (intro allI impI)
    fix j qs
    assume "(j, qs) \<in> set groups"
    moreover from this have "j \<noteq> s" using notin by force
    ultimately show "batch_ok wc [Append qs 0] (wt_writer (wals[s := t] ! j))" using prems(5) by simp
  qed
  have dist: "distinct (map fst groups)" and range: "fst ` set groups \<subseteq> {..<length (wals[s := t])}"
    using prems(2,3) by simp_all
  have i1: "i < length (wals[s := t])" using prems(6) by simp
  show ?case
  proof (cases "i = s")
    case True
    have b: "batch_ok wc [Append ps 0] (wt_writer (wals ! i))" using prems(5) by (simp add: g True)
    have a': "wal_append wc (env s) ps (wals ! i) files = (t, files1, r)" using a True by simp
    note good = wal_append_good [OF prems(7) prems(4) [rule_format] b a']
    have inv1: "wal_inv wc (shard_wal (wals[s := t] ! i) files1 (log @ [(wt_last_seq (wals ! i) + 1, ps)]) gc pend)"
      using good(3) s by (simp add: True)
    have none: "map_of groups i = None" using notin True by (simp add: map_of_eq_None_iff)
    note IH = Cons.IH [OF w1 dist range prems(4) ok1 i1 inv1 rest]
    show ?thesis using IH none good(2) s by (auto simp: g True)
  next
    case False
    have inv1: "wal_inv wc (shard_wal (wals[s := t] ! i) files1 log gc pend)"
      using outside_wal_inv [OF prems(7) _ fr(3) False] prems(1,6) False by simp
    have eq: "wals[s := t] ! i = wals ! i" using False by simp
    have "map_of (g # groups) i = map_of groups i" using False by (simp add: g)
    then show ?thesis using Cons.IH [OF w1 dist range prems(4) ok1 i1 inv1 rest] unfolding eq by metis
  qed
qed simp


text \<open>An append changes only segments of the shards.\<close>

lemma wal_appends_outside:
  assumes "\<forall>s < length wals. writer_ok (wt_writer (wals ! s)) \<and> ww_wal_dir (wt_writer (wals ! s)) = shard_dir d s"
    "fst ` set groups \<subseteq> {..<length wals}" "wal_appends wc env groups wals files = (wals', files', rs)"
    "\<forall>s. p \<notin> range (segment_path (shard_dir d s))"
  shows "files' p = files p"
  using assms
proof (induction groups arbitrary: wals files rs)
  case (Cons g groups)
  note prems = Cons.prems
  obtain s ps where g: "g = (s, ps)" by fastforce
  obtain t files1 r where a: "wal_append wc (env s) ps (wals ! s) files = (t, files1, r)" by (metis prod_cases3)
  obtain rs1 where rest: "wal_appends wc env groups (wals[s := t]) files1 = (wals', files', rs1)"
    using prems(3) a by (auto simp: g split: prod.splits)
  have s: "s < length wals" using prems(2) by (simp add: g)
  have fr: "writer_ok (wt_writer t)" "ww_wal_dir (wt_writer t) = shard_dir d s" "same_outside (shard_dir d s) files files1"
    using wal_append_frame [OF _ a] prems(1) s by simp_all
  have "\<forall>j < length (wals[s := t]). writer_ok (wt_writer (wals[s := t] ! j)) \<and>
      ww_wal_dir (wt_writer (wals[s := t] ! j)) = shard_dir d j"
    using prems(1) fr s by (auto simp: nth_list_update)
  from Cons.IH [OF this _ rest prems(4)] prems(2) have "files' p = files1 p" by simp
  with fr(3) prems(4) show ?case by (simp add: same_outside_def)
qed simp

lemma nth_inserts:
  assumes "distinct (map fst groups)" "i < length mems"
  shows "fold (\<lambda>(s, ps) mems. mems[s := fold mt_insert ps (mems ! s)]) groups mems ! i =
    (case map_of groups i of None \<Rightarrow> mems ! i | Some ps \<Rightarrow> fold mt_insert ps (mems ! i))"
  using assms
proof (induction groups arbitrary: mems)
  case (Cons g groups)
  obtain s ps where g: "g = (s, ps)" by fastforce
  have notin: "s \<notin> fst ` set groups" and dist: "distinct (map fst groups)" using Cons.prems(1) by (simp_all add: g)
  have "i < length (mems[s := fold mt_insert ps (mems ! s)])" using Cons.prems(2) by simp
  note IH = Cons.IH [OF dist this]
  show ?case
  proof (cases "i = s")
    case True
    have "map_of groups s = None" using notin by (simp add: map_of_eq_None_iff)
    with IH Cons.prems(2) show ?thesis by (simp add: g True)
  next
    case False
    with IH show ?thesis by (simp add: g cong: option.case_cong)
  qed
qed simp

lemma logged_nth:
  "i < length logs \<Longrightarrow> logged wals groups logs ! i =
     logs ! i @ (case map_of groups i of None \<Rightarrow> [] | Some ps \<Rightarrow> [(wt_last_seq (wals ! i) + 1, ps)])"
  "length (logged wals groups logs) = length logs"
  by (simp_all add: logged_def cong: option.case_cong)

lemma acked_logged: "acked_points logs \<subseteq> acked_points (logged wals groups logs)"
  by (auto simp: acked_points_def logged_nth)

text \<open>Entries above a watermark do not change what was flushed.\<close>

lemma flushed_logged:
  assumes "\<And>i ps. i < length logs \<Longrightarrow> map_of groups i = Some ps \<Longrightarrow> \<not> wt_last_seq (wals ! i) + 1 \<le> wms ! i"
  shows "flushed wms (logged wals groups logs) = flushed wms logs"
proof -
  have "log_points (log_upto (wms ! i) (logged wals groups logs ! i)) = log_points (log_upto (wms ! i) (logs ! i))"
    if "i < length logs" for i
    using that assms by (auto simp: logged_nth log_upto_def split: option.splits)
  then show ?thesis by (simp add: flushed_def logged_nth)
qed

lemma snapshot_inv_mono:
  assumes "snapshot_inv c bc sv files logs" "acked_points logs \<subseteq> acked_points logs'" "length logs' = length logs"
    "flushed (sv_persisted_watermarks sv) logs' = flushed (sv_persisted_watermarks sv) logs"
    "files' (sv_snapshot_path sv) = files (sv_snapshot_path sv)"
    "\<And>ix keys pts. chunks_hold c (sv_chunk_dir sv) keys ix files pts \<Longrightarrow> chunks_hold c (sv_chunk_dir sv) keys ix files' pts"
    "sv_persisted_watermarks sv' = sv_persisted_watermarks sv" "sv_snapshot_path sv' = sv_snapshot_path sv"
    "sv_chunk_dir sv' = sv_chunk_dir sv"
  shows "snapshot_inv c bc sv' files' logs'"
proof -
  have "fst ` acked_points logs \<subseteq> fst ` acked_points logs'" using assms(2) by (rule image_mono)
  then have hold: "chunks_hold c (sv_chunk_dir sv) (fst ` acked_points logs') ix files' pts"
    if "chunks_hold c (sv_chunk_dir sv) (fst ` acked_points logs) ix files pts" for ix pts
    using chunks_hold_mono [OF assms(6) [OF that]] by blast
  show ?thesis
  proof (cases "files (sv_snapshot_path sv)")
    case None
    with assms(1) show ?thesis by (simp add: snapshot_inv_def assms(3,5,7,8))
  next
    case (Some bs)
    with assms(1) obtain ix where "bc_deserialize bc bs = Some (snapshot_of ix (sv_persisted_watermarks sv))"
        "chunks_hold c (sv_chunk_dir sv) (fst ` acked_points logs) ix files (flushed (sv_persisted_watermarks sv) logs)"
      by (auto simp: snapshot_inv_def)
    with hold Some show ?thesis unfolding snapshot_inv_def assms(4,5,7,8,9) by auto
  qed
qed


lemma server_append_Inr:
  assumes "server_append h wc srt env req sv files = (sv', files', Inr seq)"
    "groups = shard_groups h srt (word_of_nat (length (sv_memtables sv))) (map decode_point req)"
  obtains wals' rs where "wal_appends wc env groups (sv_wals sv) files = (wals', files', rs)"
    "sv' = sv\<lparr>sv_wals := wals',
       sv_memtables := fold (\<lambda>(s, ps) mems. mems[s := fold mt_insert ps (mems ! s)]) groups (sv_memtables sv),
       sv_append_seq := sv_append_seq sv + 1\<rparr>"
proof -
  obtain wals' files1 rs where w: "wal_appends wc env groups (sv_wals sv) files = (wals', files1, rs)"
    by (metis prod_cases3)
  then have a: "append_wal h wc srt env req sv files =
      (sv\<lparr>sv_wals := wals'\<rparr>, files1, rbind (collect_result (\<lambda>r. r) rs) (\<lambda>_. Inr groups))"
    by (simp add: append_wal_def Let_def assms(2))
  have "files1 = files' \<and> sv' = sv\<lparr>sv_wals := wals',
       sv_memtables := fold (\<lambda>(s, ps) mems. mems[s := fold mt_insert ps (mems ! s)]) groups (sv_memtables sv),
       sv_append_seq := sv_append_seq sv + 1\<rparr>"
    using assms(1) a
    by (cases "collect_result (\<lambda>r. r) rs") (auto simp: server_append_def append_insert_def Let_def)
  with that w show ?thesis by blast
qed

text \<open>Sequences do not wrap while batches are within their bounds.\<close>

lemma batch_ok_no_wrap:
  assumes "batch_ok wc [Append ps 0] (wt_writer t)" "wal_inv wc (shard_wal t files log gc pend)"
  shows "wt_last_seq t < wt_last_seq t + 1"
  using assms by (auto simp: batch_ok_def wal_inv_def word_less_nat_alt unat_word_ariths)

lemma mem_inv_append:
  assumes mem: "mem_inv m tk log wm" and lt: "wt_last_seq tk < wt_last_seq tk + 1"
    and tk': "wt_last_seq tk' = wt_last_seq tk + 1"
    and single: "\<And>k t v v'. (k, t, v) \<in> log_points (log @ [(wt_last_seq tk + 1, ps)]) \<Longrightarrow>
      (k, t, v') \<in> log_points (log @ [(wt_last_seq tk + 1, ps)]) \<Longrightarrow> v = v'"
  shows "mem_inv (fold mt_insert ps m) tk' (log @ [(wt_last_seq tk + 1, ps)]) wm"
proof -
  have inv: "mt_inv m" and pts: "mt_points m = log_points (above wm log)" and wm: "wm \<le> wt_last_seq tk"
    using mem by (simp_all add: mem_inv_def)
  have sub: "mt_points m \<union> point_set ps \<subseteq> log_points (log @ [(wt_last_seq tk + 1, ps)])"
    using log_points_upto_above [of wm log] by (auto simp: pts)
  have "mt_points (fold mt_insert ps m) = mt_points m \<union> point_set ps"
  proof (rule mt_points_inserts [OF inv])
    fix k t v v'
    assume "(k, t, v) \<in> mt_points m \<union> point_set ps" "(k, t, v') \<in> point_set ps"
    then show "v = v'" using single [of k t v v'] sub by blast
  qed
  moreover have "above wm (log @ [(wt_last_seq tk + 1, ps)]) = above wm log @ [(wt_last_seq tk + 1, ps)]"
    using wm lt by (simp add: above_def)
  ultimately show ?thesis
    using wm lt by (simp add: mem_inv_def mt_inv_inserts [OF inv] pts tk')
qed

lemma run_append_shard:
  assumes log: "log_inv wc d i (wals ! i) files log pw" and mem: "mem_inv (mems ! i) (wals ! i) log wm"
    and wok: "\<forall>s < length wals. writer_ok (wt_writer (wals ! s)) \<and> ww_wal_dir (wt_writer (wals ! s)) = shard_dir d s"
    and dist: "distinct (map fst groups)" and range: "fst ` set groups \<subseteq> {..<length wals}"
    and env: "\<forall>s. env_good (env s)"
    and ok: "\<forall>s ps. (s, ps) \<in> set groups \<longrightarrow> batch_ok wc [Append ps 0] (wt_writer (wals ! s))"
    and i: "i < length wals" "i < length mems"
    and lt: "\<And>ps. map_of groups i = Some ps \<Longrightarrow> wt_last_seq (wals ! i) < wt_last_seq (wals ! i) + 1"
    and w: "wal_appends wc env groups wals files = (wals', files', rs)"
    and log': "log' = log @ (case map_of groups i of None \<Rightarrow> [] | Some ps \<Rightarrow> [(wt_last_seq (wals ! i) + 1, ps)])"
    and single: "\<And>k t v v'. (k, t, v) \<in> log_points log' \<Longrightarrow> (k, t, v') \<in> log_points log' \<Longrightarrow> v = v'"
  shows "log_inv wc d i (wals' ! i) files' log' pw"
    "mem_inv (fold (\<lambda>(s, ps) mems. mems[s := fold mt_insert ps (mems ! s)]) groups mems ! i) (wals' ! i) log' wm"
proof -
  obtain gc pend where inv: "wal_inv wc (shard_wal (wals ! i) files log gc pend)" and gc: "gc \<le> pw"
    using log by (auto simp: log_inv_def)
  note a = wal_appends_log_inv [OF wok dist range env ok i(1) inv w, folded log']
  have seqs: "\<forall>e \<in> set log. 0 < fst e \<and> fst e \<le> wt_last_seq (wals ! i)" "pw \<le> wt_last_seq (wals ! i)"
    using log by (simp_all add: log_inv_def)
  show "log_inv wc d i (wals' ! i) files' log' pw"
  proof (cases "map_of groups i")
    case None
    then have "log' = log" "wt_last_seq (wals' ! i) = wt_last_seq (wals ! i)" using a by (simp_all add: log')
    with a gc seqs show ?thesis by (intro log_invI [of wc _ _ _ gc pend]) auto
  next
    case (Some ps)
    note less = lt [OF Some]
    then have "0 < wt_last_seq (wals ! i) + 1" by (rule order_le_less_trans [OF word_zero_le])
    with less seqs have "\<forall>e \<in> set log'. 0 < fst e \<and> fst e \<le> wt_last_seq (wals ! i) + 1" "pw \<le> wt_last_seq (wals ! i) + 1"
      by (auto simp: log' Some intro: order_trans less_imp_le)
    with a gc Some show ?thesis by (intro log_invI [of wc _ _ _ gc pend]) auto
  qed
  show "mem_inv (fold (\<lambda>(s, ps) mems. mems[s := fold mt_insert ps (mems ! s)]) groups mems ! i) (wals' ! i) log' wm"
  proof (cases "map_of groups i")
    case None
    with a mem show ?thesis by (simp add: nth_inserts [OF dist i(2)] log' mem_inv_def)
  next
    case (Some ps)
    have "mem_inv (fold mt_insert ps (mems ! i)) (wals' ! i) (log @ [(wt_last_seq (wals ! i) + 1, ps)]) wm"
      using a single Some by (intro mem_inv_append [OF mem lt [OF Some]]) (simp_all add: log')
    then show ?thesis by (simp add: nth_inserts [OF dist i(2)] Some log')
  qed
qed

lemma run_inv_append:
  assumes inv: "run_inv c wc bc cf r" and srt: "sorts_by_shard srt" and h: "xxh64_streaming c"
    and apart: "snapshot_apart (cf_index_path cf)"
    and groups: "groups = shard_groups c srt (word_of_nat (length (sv_memtables (rn_server r)))) (map decode_point req)"
    and ok: "\<forall>s ps. (s, ps) \<in> set groups \<longrightarrow> batch_ok wc [Append ps 0] (wt_writer (sv_wals (rn_server r) ! s))"
    and env: "\<forall>s. env_good (env s)" and logs': "logs' = logged (sv_wals (rn_server r)) groups (rn_logs r)"
    and clean: "clean_logs c logs'"
    and app: "server_append c wc srt env req (rn_server r) (rn_files r) = (sv', files', Inr seq)"
  shows "run_inv c wc bc cf \<lparr>rn_server = sv', rn_files = files', rn_logs = logs'\<rparr>"
proof -
  let ?sv = "rn_server r" and ?logs = "rn_logs r" and ?n = "unat (cf_num_shards cf)"
  note shape = run_invD(1) [OF inv] and len = run_invD(2) [OF inv] and dir = run_invD(3) [OF inv]
    and path = run_invD(4) [OF inv] and hold = run_invD(6) [OF inv] and shards = run_invD(7,8) [OF inv]
    and snap = run_invD(9) [OF inv]
  have lens: "length (sv_wals ?sv) = ?n" "length (sv_memtables ?sv) = ?n" using shape by (simp_all add: server_shape_def)
  obtain k where k: "?n = 2 ^ k" "k < 64" using shape by (auto simp: server_shape_def)
  have dist: "distinct (map fst groups)"
    using shard_groups_routed [OF srt] unfolding groups routed_def by blast
  have range: "fst ` set groups \<subseteq> {..<length (sv_wals ?sv)}"
    using shard_groups_in_range [OF srt h k] by (force simp: groups lens)
  obtain wals' rs where w: "wal_appends wc env groups (sv_wals ?sv) (rn_files r) = (wals', files', rs)"
    and sv': "sv' = ?sv\<lparr>sv_wals := wals',
       sv_memtables := fold (\<lambda>(s, ps) mems. mems[s := fold mt_insert ps (mems ! s)]) groups (sv_memtables ?sv),
       sv_append_seq := sv_append_seq ?sv + 1\<rparr>"
    by (rule server_append_Inr [OF app groups]) (rule that)
  have wok: "\<forall>s < length (sv_wals ?sv). writer_ok (wt_writer (sv_wals ?sv ! s)) \<and>
      ww_wal_dir (wt_writer (sv_wals ?sv ! s)) = shard_dir (cf_wal_dir cf) s"
    using log_inv_writer [OF shards(1)] by (simp add: lens)
  have outside: "files' p = rn_files r p" if "\<forall>s. p \<notin> range (segment_path (shard_dir (cf_wal_dir cf) s))" for p
    using wal_appends_outside [OF wok range w that] .
  have chunk_same: "\<forall>cid. files' (chunk_path (cf_chunk_dir cf) cid) = rn_files r (chunk_path (cf_chunk_dir cf) cid)"
    using outside chunk_path_not_segment by blast
  have lt: "wt_last_seq (sv_wals ?sv ! i) < wt_last_seq (sv_wals ?sv ! i) + 1" if "i < ?n" "map_of groups i = Some ps" for i ps
    using batch_ok_no_wrap [OF ok [rule_format, OF map_of_SomeD [OF that(2)]]] shards(1) [OF that(1)]
    by (auto simp: log_inv_def)
  have fl: "flushed wms logs' = flushed wms ?logs" if "\<forall>i < ?n. wms ! i \<le> wt_last_seq (sv_wals ?sv ! i)" for wms
    unfolding logs' by (rule flushed_logged) (use that lt len in \<open>fastforce simp: not_le\<close>)
  have acked: "acked_points ?logs \<subseteq> acked_points logs'" unfolding logs' by (rule acked_logged)
  have len': "length logs' = ?n" by (simp add: logs' logged_nth len)
  have logs'_nth: "logs' ! i = ?logs ! i @
      (case map_of groups i of None \<Rightarrow> [] | Some ps \<Rightarrow> [(wt_last_seq (sv_wals ?sv ! i) + 1, ps)])" if "i < ?n" for i
    using that by (simp add: logs' logged_nth len)
  have single: "v = v'" if "i < ?n" "(k, t, v) \<in> log_points (logs' ! i)" "(k, t, v') \<in> log_points (logs' ! i)" for i k t v v'
  proof -
    have "(k, t, v) \<in> acked_points logs'" "(k, t, v') \<in> acked_points logs'"
      using that len' by (auto simp: acked_points_def)
    with clean acked_single_valued show ?thesis unfolding clean_logs_def by blast
  qed
  have shard: "log_inv wc (cf_wal_dir cf) i (wals' ! i) files' (logs' ! i) (sv_persisted_watermarks ?sv ! i)"
      "mem_inv (sv_memtables sv' ! i) (wals' ! i) (logs' ! i) (sv_shard_watermarks ?sv ! i)" if i: "i < ?n" for i
    using run_append_shard [OF shards [OF i] wok dist range env ok _ _ lt [OF i] w logs'_nth [OF i] single [OF i]] i
    by (simp_all add: lens sv')
  have "snapshot_inv c bc sv' files' logs'"
  proof (rule snapshot_inv_mono [OF snap acked])
    show "flushed (sv_persisted_watermarks ?sv) logs' = flushed (sv_persisted_watermarks ?sv) ?logs"
      using shards(1) by (intro fl) (simp add: log_inv_def)
    show "files' (sv_snapshot_path ?sv) = rn_files r (sv_snapshot_path ?sv)"
      using outside snapshot_apart_segment [OF apart] by (simp add: path)
    show "chunks_hold c (sv_chunk_dir ?sv) keys ix files' pts" if "chunks_hold c (sv_chunk_dir ?sv) keys ix (rn_files r) pts"
      for keys ix pts using chunks_hold_frame [OF that] chunk_same by (simp add: dir)
  qed (use len len' in \<open>simp_all add: sv'\<close>)
  moreover have "chunks_hold c (cf_chunk_dir cf) (fst ` acked_points logs') (sv_index sv') files'
      (flushed (sv_shard_watermarks sv') logs')"
  proof -
    have "flushed (sv_shard_watermarks ?sv) logs' = flushed (sv_shard_watermarks ?sv) ?logs"
      using shards(2) by (intro fl) (simp add: mem_inv_def)
    with chunks_hold_mono [OF chunks_hold_frame [OF hold chunk_same] image_mono [OF acked]] show ?thesis
      by (simp add: sv')
  qed
  moreover have "server_shape ?n sv'"
    using server_append_shape [OF shape, of c wc srt env req "rn_files r"] app by simp
  ultimately show ?thesis
    using shard clean len' dir path run_invD(10) [OF inv] by (simp add: run_inv_def Let_def sv')
qed


subsection \<open>Flushes keep the invariant\<close>

lemma chunks_hold_write:
  assumes "chunks_hold c dir keys ix files pts" "cw_write c dir' now io data files = (files', Inr res)"
  shows "chunks_hold c dir keys ix files' pts"
  using assms(1) cw_write_Inr [OF assms(2)] store_ok_new_file unfolding chunks_hold_def by metis

lemma log_inv_files:
  assumes "log_inv wc d j t files log pw" "cw_write c dir now io data files = (files1, r)"
    "same_outside (shard_dir d i) files1 files'" "j \<noteq> i"
  shows "log_inv wc d j t files' log pw"
proof -
  obtain gc pend where a: "wal_inv wc (shard_wal t files log gc pend)" "gc \<le> pw" "ww_wal_dir (wt_writer t) = shard_dir d j"
      "\<forall>e \<in> set log. 0 < fst e \<and> fst e \<le> wt_last_seq t" "pw \<le> wt_last_seq t"
    using assms(1) by (rule log_invE)
  from outside_wal_inv [OF cw_write_wal_inv [OF assms(2) a(1)] a(3) assms(3,4)] a(2-5) show ?thesis by (rule log_invI)
qed

lemma flushed_update:
  assumes "i < length logs" "length wms = length logs" "\<forall>e \<in> set (logs ! i). fst e \<le> s"
  shows "flushed (wms[i := s]) logs = flushed wms logs \<union> log_points (above (wms ! i) (logs ! i))"
proof -
  have "log_points (log_upto (wms[i := s] ! j) (logs ! j)) =
      log_points (log_upto (wms ! j) (logs ! j)) \<union> (if j = i then log_points (above (wms ! i) (logs ! i)) else {})"
    if "j < length logs" for j
    using that assms upto_all(1) [OF assms(3)] log_points_upto_above [of "wms ! i" "logs ! i"]
    by (simp add: nth_list_update)
  then have "flushed (wms[i := s]) logs =
      (\<Union>j < length logs. log_points (log_upto (wms ! j) (logs ! j)) \<union> (if j = i then log_points (above (wms ! i) (logs ! i)) else {}))"
    unfolding flushed_def by simp
  also have "\<dots> = flushed wms logs \<union> log_points (above (wms ! i) (logs ! i))"
    using assms(1) by (auto simp: flushed_def split: if_splits)
  finally show ?thesis .
qed

text \<open>The chunk of a flush adds what was logged above the watermark.\<close>

lemma flushed_subset: "flushed wms logs \<subseteq> acked_points logs"
  unfolding flushed_def acked_points_def using log_points_upto_above by blast

lemma above_subset: "i < length logs \<Longrightarrow> log_points (above wm (logs ! i)) \<subseteq> acked_points logs"
  unfolding acked_points_def using log_points_upto_above by blast

lemma flushed_above_disjoint:
  assumes "clean_logs c logs" "i < length logs" "(k, t, v) \<in> flushed wms logs"
    "(k, t, v') \<in> log_points (above (wms ! i) (logs ! i))"
  shows False
proof -
  obtain j where j: "j < length logs" "(k, t, v) \<in> log_points (log_upto (wms ! j) (logs ! j))"
    using assms(3) unfolding flushed_def by blast
  have "no_rewrites logs" using assms(1) by (simp add: clean_logs_def)
  from upto_above_disjoint [OF this assms(2) j(1), of k t v "\<lambda>j. wms ! j" v'] j(2) assms(4) show False by blast
qed

lemma flush_chunk:
  assumes clean: "clean_logs c logs" and i: "i < length logs" and len: "length wms = length logs"
    and mem: "mt_inv m" "mt_points m = log_points (above (wms ! i) (logs ! i))" and seqs: "\<forall>e \<in> set (logs ! i). fst e \<le> s"
    and hold: "chunks_hold c dir (fst ` acked_points logs) ix files (flushed wms logs)"
    and w: "cw_write c dir now io (mt_entries m) files = (files', Inr res)"
  shows "chunks_hold c dir (fst ` acked_points logs) (register_results c res ix) files' (flushed (wms[i := s]) logs)"
proof -
  have m: "sm_inv (mt_entries m)" "data_points (mt_entries m) = log_points (above (wms ! i) (logs ! i))"
    using mem by (simp_all add: mt_points_data mt_inv_def)
  have "data_points (mt_entries m) \<subseteq> acked_points logs" using above_subset [OF i] m(2) by blast
  from add_chunk(1) [OF clean m(1) this hold flushed_subset _ w] flushed_above_disjoint [OF clean i]
  show ?thesis unfolding m(2) flushed_update [OF i len seqs] by blast
qed

lemma flush_log_inv:
  assumes log: "log_inv wc d i (sv_wals sv ! i) files log (sv_persisted_watermarks sv ! i)"
    and env: "env_good (fe_wal fenv)" and i: "i < length (sv_wals sv)"
    and ok: "batch_ok wc [DrainBefore (sv_persisted_watermarks sv ! i) 0] (wt_writer (sv_wals sv ! i))"
    and f: "flush_end c wc fenv i data sv files = (sv', files', Inr u)"
    and d: "ww_wal_dir (wt_writer (sv_wals sv' ! i)) = ww_wal_dir (wt_writer (sv_wals sv ! i))"
  shows "log_inv wc d i (sv_wals sv' ! i) files' log (sv_persisted_watermarks sv ! i)"
    "wt_last_seq (sv_wals sv' ! i) = wt_last_seq (sv_wals sv ! i)"
proof -
  obtain gc pend where a: "wal_inv wc (shard_wal (sv_wals sv ! i) files log gc pend)" "gc \<le> sv_persisted_watermarks sv ! i"
      "ww_wal_dir (wt_writer (sv_wals sv ! i)) = shard_dir d i"
      "\<forall>e \<in> set log. 0 < fst e \<and> fst e \<le> wt_last_seq (sv_wals sv ! i)"
      "sv_persisted_watermarks sv ! i \<le> wt_last_seq (sv_wals sv ! i)"
    using log by (rule log_invE)
  obtain pend' where b: "wal_inv wc (shard_wal (sv_wals sv' ! i) files' log (max gc (sv_persisted_watermarks sv ! i)) pend')"
      "wt_last_seq (sv_wals sv' ! i) = wt_last_seq (sv_wals sv ! i)"
    by (rule flush_end_good [OF a(1) env ok i f]) (rule that)
  show "wt_last_seq (sv_wals sv' ! i) = wt_last_seq (sv_wals sv ! i)" by (rule b(2))
  have "max gc (sv_persisted_watermarks sv ! i) \<le> sv_persisted_watermarks sv ! i" using a(2) by simp
  from log_invI [OF b(1) this] a(3-5) b(2) d show "log_inv wc d i (sv_wals sv' ! i) files' log (sv_persisted_watermarks sv ! i)"
    by simp
qed

lemma run_inv_flush:
  assumes inv: "run_inv c wc bc cf r" and apart: "snapshot_apart (cf_index_path cf)"
    and i: "i < length (sv_memtables (rn_server r))" and env: "env_good (fe_wal fenv)"
    and ok: "batch_ok wc [DrainBefore (sv_persisted_watermarks (rn_server r) ! i) 0] (wt_writer (sv_wals (rn_server r) ! i))"
    and f: "flush_shard c wc fenv i (rn_server r) (rn_files r) = (sv', files', Inr u)"
  shows "run_inv c wc bc cf \<lparr>rn_server = sv', rn_files = files', rn_logs = rn_logs r\<rparr>"
proof (cases "mt_should_flush (sv_memtables (rn_server r) ! i)")
  case False
  then have "sv' = rn_server r" "files' = rn_files r" using f by (simp_all add: flush_shard_cases [OF i] Let_def)
  with inv show ?thesis by (simp add: run_inv_def)
next
  case True
  let ?sv = "rn_server r" and ?logs = "rn_logs r" and ?n = "unat (cf_num_shards cf)" and ?files = "rn_files r"
  let ?m = "sv_memtables ?sv ! i" and ?t = "sv_wals ?sv ! i" and ?wm = "sv_shard_watermarks ?sv"
  note shape = run_invD(1) [OF inv] and len = run_invD(2) [OF inv] and dir = run_invD(3) [OF inv]
    and path = run_invD(4) [OF inv] and clean = run_invD(5) [OF inv] and hold = run_invD(6) [OF inv]
    and shards = run_invD(7,8) [OF inv] and snap = run_invD(9) [OF inv]
  have lens: "length (sv_wals ?sv) = ?n" "length (sv_memtables ?sv) = ?n" "length ?wm = ?n"
    using shape by (simp_all add: server_shape_def)
  have i: "i < ?n" using i lens by simp
  let ?sv1 = "?sv\<lparr>sv_memtables := (sv_memtables ?sv)[i := fst (mt_drain ?m)]\<rparr>"
  have fl: "flush_end c wc fenv i (mt_entries ?m) ?sv1 ?files = (sv', files', Inr u)"
    using f True i by (simp add: flush_shard_cases lens Let_def)
  have w1: "writer_ok (wt_writer (sv_wals ?sv1 ! i))" using log_inv_writer(1) [OF shards(1) [OF i]] by simp
  obtain files1 res t where w: "cw_write c (cf_chunk_dir cf) (fe_now fenv) (fe_write fenv) (mt_entries ?m) ?files = (files1, Inr res)"
    and sv': "sv' = ?sv1\<lparr>sv_index := register_results c res (sv_index ?sv), sv_shard_watermarks := ?wm[i := wt_last_seq ?t],
       sv_wals := (sv_wals ?sv)[i := t]\<rparr>"
    and out: "same_outside (shard_dir (cf_wal_dir cf) i) files1 files'"
    and t: "ww_wal_dir (wt_writer t) = ww_wal_dir (wt_writer (sv_wals ?sv1 ! i))"
    by (rule flush_end_Inr [OF fl w1]) (use that dir log_inv_writer(2) [OF shards(1) [OF i]] in simp)
  have seqs: "\<forall>e \<in> set (?logs ! i). fst e \<le> wt_last_seq ?t" using shards(1) [OF i] by (simp add: log_inv_def)
  have i_logs: "i < length ?logs" "length ?wm = length ?logs" using i len lens by simp_all
  have mem: "mt_inv (sv_memtables ?sv ! i)" "mt_points (sv_memtables ?sv ! i) = log_points (above (?wm ! i) (?logs ! i))"
    using shards(2) [OF i] by (simp_all add: mem_inv_def)
  have hold': "chunks_hold c (cf_chunk_dir cf) (fst ` acked_points ?logs) (sv_index sv') files' (flushed (sv_shard_watermarks sv') ?logs)"
    using outside_chunks_hold [OF flush_chunk [OF clean i_logs mem seqs hold w] out] by (simp add: sv')
  have snap': "snapshot_inv c bc sv' files' ?logs"
  proof (rule snapshot_inv_mono [OF snap])
    have "files1 (cf_index_path cf) = ?files (cf_index_path cf)"
      using cw_write_other [OF w] snapshot_apart_chunk [OF apart] by blast
    then show "files' (sv_snapshot_path ?sv) = ?files (sv_snapshot_path ?sv)"
      using out snapshot_apart_segment [OF apart] by (simp add: path same_outside_def)
    show "chunks_hold c (sv_chunk_dir ?sv) keys ix files' pts" if "chunks_hold c (sv_chunk_dir ?sv) keys ix ?files pts"
      for keys ix pts using outside_chunks_hold [OF chunks_hold_write [OF that w] out] .
  qed (simp_all add: sv')
  have ti: "sv_wals sv' ! i = t" using i lens by (simp add: sv')
  have log_i: "log_inv wc (cf_wal_dir cf) i (sv_wals ?sv1 ! i) ?files (?logs ! i) (sv_persisted_watermarks ?sv1 ! i)"
    and i1: "i < length (sv_wals ?sv1)"
    and ok1: "batch_ok wc [DrainBefore (sv_persisted_watermarks ?sv1 ! i) 0] (wt_writer (sv_wals ?sv1 ! i))"
    and dir_i: "ww_wal_dir (wt_writer (sv_wals sv' ! i)) = ww_wal_dir (wt_writer (sv_wals ?sv1 ! i))"
    using shards(1) [OF i] ok i lens t ti by simp_all
  note log_i' = flush_log_inv [OF log_i env i1 ok1 fl dir_i]
  have "mem_inv (fst (mt_drain ?m)) t (?logs ! i) (wt_last_seq ?t)"
    using log_i'(2) upto_all(2) [OF seqs] by (simp add: mem_inv_def mt_inv_drained mt_points_drain ti)
  then have shard_i: "log_inv wc (cf_wal_dir cf) i (sv_wals sv' ! i) files' (?logs ! i) (sv_persisted_watermarks sv' ! i)"
      "mem_inv (sv_memtables sv' ! i) (sv_wals sv' ! i) (?logs ! i) (sv_shard_watermarks sv' ! i)"
    using log_i'(1) i lens by (simp_all add: ti sv')
  have shard_j: "log_inv wc (cf_wal_dir cf) j (sv_wals sv' ! j) files' (?logs ! j) (sv_persisted_watermarks sv' ! j)"
      "mem_inv (sv_memtables sv' ! j) (sv_wals sv' ! j) (?logs ! j) (sv_shard_watermarks sv' ! j)" if "j < ?n" "j \<noteq> i" for j
    using log_inv_files [OF shards(1) [OF that(1)] w out that(2)] shards(2) [OF that(1)] that(2) by (simp_all add: sv')
  have "server_shape ?n sv'" using flush_shard_shape [OF shape, of c wc fenv i ?files] f by simp
  moreover have "sv_chunk_dir sv' = cf_chunk_dir cf" "sv_snapshot_path sv' = cf_index_path cf" by (simp_all add: sv' dir path)
  moreover have "\<forall>j < ?n. log_inv wc (cf_wal_dir cf) j (sv_wals sv' ! j) files' (?logs ! j) (sv_persisted_watermarks sv' ! j) \<and>
      mem_inv (sv_memtables sv' ! j) (sv_wals sv' ! j) (?logs ! j) (sv_shard_watermarks sv' ! j)"
    using shard_i shard_j by metis
  moreover have "\<forall>j < ?n. sv_persisted_watermarks sv' ! j \<le> sv_shard_watermarks sv' ! j"
  proof (intro allI impI)
    fix j
    assume "j < ?n"
    moreover have "sv_persisted_watermarks ?sv ! i \<le> wt_last_seq ?t" using shards(1) [OF i] by (simp add: log_inv_def)
    ultimately show "sv_persisted_watermarks sv' ! j \<le> sv_shard_watermarks sv' ! j"
      using run_invD(10) [OF inv] lens by (cases "j = i") (simp_all add: sv')
  qed
  ultimately show ?thesis using len clean hold' snap' by (simp add: run_inv_def Let_def)
qed


subsection \<open>Snapshots keep the invariant\<close>

lemma save_index_cases:
  assumes "save_index bc io ix p ws files = (files', r)"
  obtains (same) "files' = files" "\<forall>u. r \<noteq> Inr u"
  | (tmp) x where "files' = files(with_extension p ''tmp'' := x)" "\<forall>u. r \<noteq> Inr u"
  | (saved) bs where "files' = (files(with_extension p ''tmp'' := None))(p \<mapsto> bs)" "r = Inr ()"
      "bc_serialize bc (snapshot_of ix ws) = Some bs"
  using assms by (auto simp: save_index_def Let_def split: option.splits save_outcome.splits)

lemma log_inv_plain:
  assumes "log_inv wc d i t files log pw" "plain_file p"
  shows "log_inv wc d i t (files(p := x)) log pw"
  using assms(1) by (auto elim!: log_invE intro!: log_invI wal_inv_plain [OF _ assms(2)])

lemma log_inv_raise:
  assumes "log_inv wc d i t files log pw" "pw \<le> pw'" "pw' \<le> wt_last_seq t"
  shows "log_inv wc d i t files log pw'"
proof -
  obtain gc pend where "wal_inv wc (shard_wal t files log gc pend)" "gc \<le> pw" "ww_wal_dir (wt_writer t) = shard_dir d i"
      "\<forall>e \<in> set log. 0 < fst e \<and> fst e \<le> wt_last_seq t"
    using assms(1) by (rule log_invE)
  moreover have "gc \<le> pw'" using \<open>gc \<le> pw\<close> assms(2) by (rule order_trans)
  ultimately show ?thesis using assms(3) by (intro log_invI)
qed

lemma run_inv_snapshot:
  assumes inv: "run_inv c wc bc cf r" and apart: "snapshot_apart (cf_index_path cf)" and bc: "bincode_lossless bc"
    and s: "server_snapshot bc io (rn_server r) (rn_files r) = (sv', files', res)"
  shows "run_inv c wc bc cf \<lparr>rn_server = sv', rn_files = files', rn_logs = rn_logs r\<rparr>"
proof -
  let ?sv = "rn_server r" and ?n = "unat (cf_num_shards cf)" and ?p = "cf_index_path cf"
  note shape = run_invD(1) [OF inv] and len = run_invD(2) [OF inv] and dir = run_invD(3) [OF inv]
    and path = run_invD(4) [OF inv] and clean = run_invD(5) [OF inv] and hold = run_invD(6) [OF inv]
    and shards = run_invD(7,8) [OF inv] and snap = run_invD(9) [OF inv] and le = run_invD(10) [OF inv]
  have p: "plain_file ?p" and tmp: "plain_file (with_extension ?p ''tmp'')" and ne: "with_extension ?p ''tmp'' \<noteq> ?p"
    using apart plain_file_tmp by (simp_all add: snapshot_apart_def plain_file_def)
  obtain r1 where save: "save_index bc io (sv_index ?sv) ?p (sv_shard_watermarks ?sv) (rn_files r) = (files', r1)"
    using s path by (auto simp: server_snapshot_def Let_def split: prod.splits sum.splits)
  have failed: "sv' = ?sv" if "\<forall>u. r1 \<noteq> Inr u"
    using s save that path by (cases r1) (auto simp: server_snapshot_def Let_def)
  show ?thesis
    using save
  proof (cases rule: save_index_cases)
    case same
    with failed inv show ?thesis by (simp add: run_inv_def)
  next
    case (tmp x)
    have "snapshot_inv c bc ?sv files' (rn_logs r)"
      unfolding tmp(1) using ne chunks_hold_plain [OF _ \<open>plain_file (with_extension ?p ''tmp'')\<close>]
      by (intro snapshot_inv_mono [OF snap]) (simp_all add: path)
    moreover have "log_inv wc (cf_wal_dir cf) i (sv_wals ?sv ! i) files' (rn_logs r ! i) (sv_persisted_watermarks ?sv ! i)"
      if "i < ?n" for i
      unfolding tmp(1) by (rule log_inv_plain [OF shards(1) [OF that] \<open>plain_file (with_extension ?p ''tmp'')\<close>])
    ultimately show ?thesis
      using failed [OF tmp(2)] shape len dir path clean shards(2) le
        chunks_hold_plain [OF hold \<open>plain_file (with_extension ?p ''tmp'')\<close>, of x]
      by (simp add: run_inv_def Let_def tmp(1))
  next
    case (saved bs)
    let ?wm = "sv_shard_watermarks ?sv"
    have sv': "sv' = ?sv\<lparr>sv_persisted_watermarks := ?wm\<rparr>"
      using s save saved(2) path shape
      by (auto simp: server_snapshot_def Let_def store_watermarks_eq server_shape_def)
    have hold': "chunks_hold c (cf_chunk_dir cf) (fst ` acked_points (rn_logs r)) (sv_index ?sv) files' (flushed ?wm (rn_logs r))"
      unfolding saved(1) by (intro chunks_hold_plain p tmp hold)
    have "bc_deserialize bc bs = Some (snapshot_of (sv_index ?sv) ?wm)"
      using bc saved(3) by (simp add: bincode_lossless_def)
    then have snap': "snapshot_inv c bc sv' files' (rn_logs r)"
      using hold' by (auto simp: snapshot_inv_def sv' path dir saved(1))
    have log': "log_inv wc (cf_wal_dir cf) i (sv_wals ?sv ! i) files' (rn_logs r ! i) (?wm ! i)" if "i < ?n" for i
    proof -
      have "?wm ! i \<le> wt_last_seq (sv_wals ?sv ! i)" using shards(2) [OF that] by (simp add: mem_inv_def)
      from log_inv_raise [OF shards(1) [OF that] le [OF that] this] show ?thesis
        unfolding saved(1) by (intro log_inv_plain p tmp)
    qed
    have "server_shape ?n sv'" using shape by (simp add: sv' server_shape_def)
    then show ?thesis
      using len clean hold' snap' log' shards(2) by (simp add: run_inv_def Let_def sv' dir path)
  qed
qed


subsection \<open>Files of one shard\<close>

lemma log_inv_agree:
  assumes "log_inv wc d j t files log pw"
    "\<forall>n. path_extension n = Some ''wal'' \<longrightarrow> files' (join (shard_dir d j) n) = files (join (shard_dir d j) n)"
  shows "log_inv wc d j t files' log pw"
proof -
  obtain gc pend where a: "wal_inv wc (shard_wal t files log gc pend)" "gc \<le> pw" "ww_wal_dir (wt_writer t) = shard_dir d j"
      "\<forall>e \<in> set log. 0 < fst e \<and> fst e \<le> wt_last_seq t" "pw \<le> wt_last_seq t"
    using assms(1) by (rule log_invE)
  from wal_inv_frame [OF a(1), of files'] assms(2) a(2-5) show ?thesis by (intro log_invI [of wc t files' log gc pend]) simp_all
qed

lemma shard_file_not_other: "i \<noteq> j \<Longrightarrow> join (shard_dir d j) n \<notin> range (segment_path (shard_dir d i))"
  by (auto simp: segment_path_def)

lemma open_writer_frame:
  assumes "open_writer cf env i rec wm files = (files', r)"
  shows "same_outside (shard_dir (cf_wal_dir cf) i) files files'"
proof -
  let ?d = "shard_dir (cf_wal_dir cf) i"
  obtain files1 r1 where o: "ww_open (oe_names env i) (oe_open env i) ?d (cf_wal_max_segment_bytes cf) (rr_last_sequence rec) files =
      (files1, r1)" by fastforce
  have f1: "same_outside ?d files files1"
    using o by (auto simp: ww_open_def Let_def same_outside_open split: segment_outcome.splits)
  show ?thesis
  proof (cases r1)
    case (Inl e)
    with assms o f1 show ?thesis by (simp add: open_writer_def)
  next
    case (Inr w)
    have w: "writer_ok w" "ww_wal_dir w = ?d"
      using o Inr by (auto simp: ww_open_def Let_def writer_ok_def split: segment_outcome.splits)
    obtain w1 files2 r2 where r: "(if 0 < rr_segments_replayed rec then ww_rotate (oe_rotate env i) w files1
        else (w, files1, Inr ())) = (w1, files2, r2)" by (metis prod_cases3)
    have f2: "ww_wal_dir w1 = ?d" "same_outside ?d files1 files2"
      using r w ww_rotate_frame [OF w(1), of "oe_rotate env i" files1 w1 files2 r2] by (auto split: if_splits)
    have f12: "same_outside ?d files files2" by (rule same_outside_trans [OF f1 f2(2)])
    obtain w2 paths where d: "drain_completed_before
        (if rr_points rec \<noteq> [] then rr_last_sequence rec else wm) w1 = (w2, paths)" by fastforce
    have "same_outside ?d files2 (remove_files (oe_removed env) paths files2)"
      using drain_completed_frame(3) [OF d] f2(1) by (intro same_outside_remove) simp
    then have "same_outside ?d files (remove_files (oe_removed env) paths files2)"
      by (rule same_outside_trans [OF f12])
    with assms o Inr r d f12 show ?thesis
      by (cases r2) (auto simp: open_writer_def Let_def)
  qed
qed

lemma open_writer_ok:
  assumes "oe_open env i = SegmentOk" "oe_rotate env i" "channel_ok (cf_wal_channel_capacity cf)"
  shows "\<exists>files' t. open_writer cf env i rec wm files = (files', Inr t)"
  using assms by (auto simp: open_writer_def ww_open_def ww_rotate_def wt_spawn_def Let_def split: prod.splits)

end
