(* ===== verification/Server_Recovery.thy ===== *)
theory Server_Recovery
  imports Server_Run
begin

section \<open>Opening the server\<close>

text \<open>
  The two ends of a run: the first start on empty directories establishes the invariant, and
  opening after a crash between two operations makes exactly the acknowledged points visible.
\<close>

subsection \<open>The first start\<close>

definition fresh_writer :: "path \<Rightarrow> u64 \<Rightarrow> wal_writer" where
  "fresh_writer dir max_bytes =
     \<lparr>ww_file = segment_path dir 1, ww_current_seq = 0, ww_current_size = 0, ww_current_segment = 1,
      ww_wal_dir = dir, ww_max_segment_bytes = max_bytes, ww_completed_segments = []\<rparr>"

lemma ww_open_fresh:
  assumes "files (segment_path dir 1) = None"
  shows "ww_open [] SegmentOk dir max_bytes 0 files = (fs_open_append (segment_path dir 1) files, Inr (fresh_writer dir max_bytes))"
  using assms by (simp add: ww_open_def highest_segment_number_def fresh_writer_def fs_open_append_def Let_def)

lemma drain_fresh: "drain_completed_before s (fresh_writer dir max_bytes) = (fresh_writer dir max_bytes, [])"
  by (simp add: drain_completed_before_def fresh_writer_def)

lemma open_writer_fresh:
  assumes "files (segment_path (shard_dir (cf_wal_dir cf) i) 1) = None" "oe_names env i = []" "oe_open env i = SegmentOk"
    "channel_ok (cf_wal_channel_capacity cf)"
  shows "open_writer cf env i rr_init wm files =
    (fs_open_append (segment_path (shard_dir (cf_wal_dir cf) i) 1) files,
     Inr (new_task (fresh_writer (shard_dir (cf_wal_dir cf) i) (cf_wal_max_segment_bytes cf))))"
  using ww_open_fresh [of files "shard_dir (cf_wal_dir cf) i", OF assms(1)] assms(2-4)
  by (simp add: open_writer_def rr_init_def drain_fresh remove_files_def wt_spawn_def)

lemma open_writer_Inr:
  assumes "open_writer cf env i rec wm files = (files', Inr t)"
  shows "oe_open env i = SegmentOk" "channel_ok (cf_wal_channel_capacity cf)"
  using assms
  by (auto simp: open_writer_def ww_open_def wt_spawn_def Let_def
      split: segment_outcome.splits prod.splits sum.splits if_splits)

lemma open_shard_none:
  assumes "oe_names env i = []" "oe_read env (shard_dir (cf_wal_dir cf) i)"
  shows "open_shard c wc cf env i ix files =
    (case open_writer cf env i rr_init (watermark_at (ci_shard_watermarks ix) i) files of
       (files', Inl e) \<Rightarrow> (files', Inl e) | (files', Inr t) \<Rightarrow> (files', Inr (ix, t)))"
proof -
  have "recover wc (oe_read env) files (shard_dir (cf_wal_dir cf) i) [] (watermark_at (ci_shard_watermarks ix) i) = Inr rr_init"
    using assms(2) by (simp add: recover_def get_wal_files_def)
  moreover have "recovery_chunk c cf (oe_now env i) (oe_write env i) (rr_points rr_init) ix files = (files, Inr ix)"
    by (simp add: recovery_chunk_def rr_init_def)
  ultimately show ?thesis using assms by (simp add: open_shard_def Let_def)
qed

lemma log_inv_fresh:
  assumes "\<forall>n. files (join (shard_dir d i) n) = None"
  shows "log_inv wc d i (new_task (fresh_writer (shard_dir d i) max_bytes))
    (fs_open_append (segment_path (shard_dir d i) 1) files) [] 0"
proof -
  let ?d = "shard_dir d i"
  let ?files = "fs_open_append (segment_path ?d 1) files" and ?t = "new_task (fresh_writer ?d max_bytes)"
  have "wal_start wc \<lparr>ws_writer = fresh_writer ?d max_bytes, ws_files = ?files, ws_acked = [], ws_gc = 0,
      ws_pend = {}, ws_last_seq = 0\<rparr>"
  proof (rule start_fresh)
    show "ww_open [] SegmentOk ?d max_bytes 0 files = (?files, Inr (fresh_writer ?d max_bytes))"
      using assms by (intro ww_open_fresh) (simp add: segment_path_def)
    show "dir_holds wc files ?d []" using assms by (simp add: dir_holds_def segment_path_def)
    show "lists_dir files ?d []" using assms by (simp add: lists_dir_def)
  qed simp
  from wal_inv_start [OF this] have "wal_inv wc (shard_wal ?t ?files [] 0 {})"
    by (simp add: new_task_def fresh_writer_def)
  then show ?thesis by (rule log_invI) (simp_all add: new_task_def fresh_writer_def)
qed

lemma open_shard_fresh:
  assumes empty: "\<forall>n. files (join (shard_dir (cf_wal_dir cf) i) n) = None" and names: "oe_names env i = []"
    and o: "open_shard c wc cf env i ix files = (files', Inr (ix', t))"
  shows "ix' = ix \<and> log_inv wc (cf_wal_dir cf) i t files' [] 0 \<and> wt_last_seq t = 0 \<and>
    same_outside (shard_dir (cf_wal_dir cf) i) files files'"
proof -
  let ?d = "shard_dir (cf_wal_dir cf) i" and ?wm = "watermark_at (ci_shard_watermarks ix) i"
  let ?files = "fs_open_append (segment_path ?d 1) files" and ?t = "new_task (fresh_writer ?d (cf_wal_max_segment_bytes cf))"
  have read: "oe_read env ?d"
    using o by (cases "oe_read env ?d") (simp_all add: open_shard_def recover_def get_wal_files_def Let_def)
  note none = open_shard_none [of env i cf c wc ix files, OF names read]
  obtain r where "open_writer cf env i rr_init ?wm files = (files', Inr r)"
    using o unfolding none by (auto split: prod.splits sum.splits)
  note ok = open_writer_Inr [OF this]
  have "files (segment_path ?d 1) = None" using empty by (simp add: segment_path_def)
  from open_writer_fresh [of files cf i env ?wm, OF this names ok]
  have w: "open_writer cf env i rr_init ?wm files = (?files, Inr ?t)" .
  from o have r: "files' = ?files" "ix' = ix" "t = ?t"
    unfolding none w by simp_all
  show ?thesis
    using log_inv_fresh [of files "cf_wal_dir cf" i wc, OF empty] open_writer_frame [OF w] unfolding r
    by (simp add: new_task_def fresh_writer_def)
qed

lemma open_shards_fresh:
  assumes "\<forall>j. k \<le> j \<longrightarrow> (\<forall>m. files (join (shard_dir (cf_wal_dir cf) j) m) = None)" "\<forall>j. oe_names env j = []"
    "length wals = k" "k \<le> n"
    "\<forall>j < k. log_inv wc (cf_wal_dir cf) j (wals ! j) files [] 0 \<and> wt_last_seq (wals ! j) = 0"
    "open_shards c wc cf env [k..<n] ix wals files = (files', Inr (ix', wals'))"
  shows "ix' = ix \<and> (\<forall>j < n. log_inv wc (cf_wal_dir cf) j (wals' ! j) files' [] 0 \<and> wt_last_seq (wals' ! j) = 0) \<and>
    (\<forall>p. (\<forall>j. p \<notin> range (segment_path (shard_dir (cf_wal_dir cf) j))) \<longrightarrow> files' p = files p)"
  using assms
proof (induction "n - k" arbitrary: k wals files ix)
  case 0
  then show ?case by simp
next
  case (Suc m)
  let ?d = "cf_wal_dir cf"
  have k: "k < n" and upt: "[k..<n] = k # [Suc k..<n]" using Suc.hyps(2) by (simp_all add: upt_conv_Cons)
  obtain files1 r where o: "open_shard c wc cf env k ix files = (files1, r)" by fastforce
  obtain ix1 t where r: "r = Inr (ix1, t)"
    using Suc.prems(6) o unfolding upt by (cases r) auto
  have rest: "open_shards c wc cf env [Suc k..<n] ix1 (wals @ [t]) files1 = (files', Inr (ix', wals'))"
    using Suc.prems(6) o r unfolding upt by simp
  have fr: "ix1 = ix" "log_inv wc ?d k t files1 [] 0" "wt_last_seq t = 0" "same_outside (shard_dir ?d k) files files1"
    using open_shard_fresh [of files cf k env c wc ix files1 ix1 t] o r Suc.prems(1,2) by simp_all
  have other: "files1 (join (shard_dir ?d j) m) = files (join (shard_dir ?d j) m)" if "j \<noteq> k" for j m
    using fr(4) shard_file_not_other [of k j ?d m] that by (simp add: same_outside_def)
  have e1: "\<forall>j. Suc k \<le> j \<longrightarrow> (\<forall>m. files1 (join (shard_dir ?d j) m) = None)" using other Suc.prems(1) by simp
  have l1: "\<forall>j < Suc k. log_inv wc ?d j ((wals @ [t]) ! j) files1 [] 0 \<and> wt_last_seq ((wals @ [t]) ! j) = 0"
  proof (intro allI impI)
    fix j
    assume j: "j < Suc k"
    show "log_inv wc ?d j ((wals @ [t]) ! j) files1 [] 0 \<and> wt_last_seq ((wals @ [t]) ! j) = 0"
    proof (cases "j = k")
      case True
      with fr(2,3) Suc.prems(3) show ?thesis by (simp add: nth_append)
    next
      case False
      with j have "j < k" by simp
      with Suc.prems(3,5) log_inv_agree [of wc ?d j "wals ! j" files "[]" 0 files1] other [OF False] show ?thesis
        by (simp add: nth_append)
    qed
  qed
  have "m = n - Suc k" "length (wals @ [t]) = Suc k" "Suc k \<le> n" using Suc.hyps(2) Suc.prems(3) k by simp_all
  from Suc.hyps(1) [OF this(1) e1 Suc.prems(2) this(2,3) l1 rest]
  have IH: "ix' = ix1 \<and> (\<forall>j < n. log_inv wc ?d j (wals' ! j) files' [] 0 \<and> wt_last_seq (wals' ! j) = 0) \<and>
    (\<forall>p. (\<forall>j. p \<notin> range (segment_path (shard_dir ?d j))) \<longrightarrow> files' p = files1 p)" .
  moreover have "files1 p = files p" if "\<forall>j. p \<notin> range (segment_path (shard_dir ?d j))" for p
    using fr(4) that by (simp add: same_outside_def)
  ultimately show ?case using fr(1) by auto
qed

text \<open>
  What the deployment provides: a configuration that \<open>load\<close> accepts, the contracts of the
  crates, and directories that do not overlap.
\<close>

definition deployed ::
    "('h, 'b, 'z) chunk_crates_scheme \<Rightarrow> 'w wal_crates_scheme \<Rightarrow> 'y bincode_crate_scheme \<Rightarrow> storage_config \<Rightarrow>
     shard_sort \<Rightarrow> bool" where
  "deployed c wc bc cf srt \<longleftrightarrow>
     (\<exists>e. load e = Inr cf) \<and> lz4_lossless c \<and> xxh64_streaming c \<and> prost_lossless wc \<and> bincode_lossless bc \<and> sorts_by_shard srt \<and>
     snapshot_apart (cf_index_path cf) \<and> (\<forall>i. cf_chunk_dir cf \<noteq> shard_dir (cf_wal_dir cf) i)"

text \<open>The first start: no snapshot and empty shard directories.\<close>

definition run_start ::
    "('h, 'b, 'z) chunk_crates_scheme \<Rightarrow> 'w wal_crates_scheme \<Rightarrow> 'y bincode_crate_scheme \<Rightarrow> storage_config \<Rightarrow>
     shard_sort \<Rightarrow> run \<Rightarrow> bool" where
  "run_start c wc bc cf srt r \<longleftrightarrow>
     deployed c wc bc cf srt \<and> rn_logs r = replicate (unat (cf_num_shards cf)) [] \<and>
     (\<exists>env files. files (cf_index_path cf) = None \<and>
        (\<forall>i n. files (join (shard_dir (cf_wal_dir cf) i) n) = None) \<and> (\<forall>i. oe_names env i = []) \<and>
        server_open c wc bc cf env files = (rn_files r, Opened (rn_server r)))"

lemma run_start_deployed: "run_start c wc bc cf srt r \<Longrightarrow> deployed c wc bc cf srt"
  by (simp add: run_start_def)

lemma clean_logs_empty: "clean_logs c (replicate n [])"
proof -
  have acked: "acked_points (replicate n []) = {}" by (simp add: acked_points_def)
  have "data = []" if "sm_inv data" "data_points data \<subseteq> {}" for data
    using data_key_point [OF that(1)] that(2) by (cases data) (force+)
  moreover have "no_rewrites (replicate n [])" by (simp add: no_rewrites_def)
  ultimately show ?thesis unfolding clean_logs_def acked by (intro conjI) (blast | simp)+
qed

lemma server_open_Opened:
  assumes "server_open c wc bc cf env files = (files', Opened sv)"
  obtains loaded ix wals worker where "load_index bc (oe_load env) files (cf_index_path cf) = Inr loaded"
    "open_shards c wc cf env [0..<unat (cf_num_shards cf)] (case loaded of None \<Rightarrow> ci_new | Some idx \<Rightarrow> idx) [] files =
       (files', Inr (ix, wals))"
    "sv = \<lparr>sv_wals = wals,
      sv_memtables =
        replicate (unat (cf_num_shards cf)) (mt_new (cf_memtable_flush_threshold_bytes cf div cf_num_shards cf)),
      sv_index = ix, sv_chunk_dir = cf_chunk_dir cf, sv_compaction_worker = worker,
      sv_snapshot_path = cf_index_path cf, sv_shard_watermarks = replicate (unat (cf_num_shards cf)) 0,
      sv_persisted_watermarks = map (watermark_at (ci_shard_watermarks ix)) [0..<unat (cf_num_shards cf)],
      sv_append_seq = 0\<rparr>"
  using assms by (auto simp: server_open_def Let_def split: if_splits sum.splits prod.splits option.splits)

lemma run_inv_start:
  assumes "run_start c wc bc cf srt r"
  shows "run_inv c wc bc cf r"
proof -
  let ?n = "unat (cf_num_shards cf)"
  obtain env files where fresh: "files (cf_index_path cf) = None"
      "\<forall>i n. files (join (shard_dir (cf_wal_dir cf) i) n) = None" "\<forall>i. oe_names env i = []"
      "server_open c wc bc cf env files = (rn_files r, Opened (rn_server r))"
    and apart: "snapshot_apart (cf_index_path cf)" and logs: "rn_logs r = replicate ?n []"
    and cf: "\<exists>e. load e = Inr cf"
    using assms by (auto simp: run_start_def deployed_def)
  have load: "load_index bc (oe_load env) files (cf_index_path cf) = Inr None" using fresh(1) by (simp add: load_index_def)
  obtain loaded ix wals worker where l: "load_index bc (oe_load env) files (cf_index_path cf) = Inr loaded" and
      sh0: "open_shards c wc cf env [0..<?n] (case loaded of None \<Rightarrow> ci_new | Some idx \<Rightarrow> idx) [] files =
        (rn_files r, Inr (ix, wals))" and
      sv: "rn_server r = \<lparr>sv_wals = wals,
        sv_memtables = replicate ?n (mt_new (cf_memtable_flush_threshold_bytes cf div cf_num_shards cf)),
        sv_index = ix, sv_chunk_dir = cf_chunk_dir cf, sv_compaction_worker = worker,
        sv_snapshot_path = cf_index_path cf, sv_shard_watermarks = replicate ?n 0,
        sv_persisted_watermarks = map (watermark_at (ci_shard_watermarks ix)) [0..<?n], sv_append_seq = 0\<rparr>"
    by (rule server_open_Opened [OF fresh(4)]) (rule that)
  have sh: "open_shards c wc cf env [0..<?n] ci_new [] files = (rn_files r, Inr (ix, wals))"
    using sh0 l load by simp
  note op = open_shards_fresh [of 0 files cf env "[]" ?n wc c ci_new "rn_files r" ix wals]
  have ix: "ix = ci_new" and wals: "\<And>j. j < ?n \<Longrightarrow> log_inv wc (cf_wal_dir cf) j (wals ! j) (rn_files r) [] 0"
    and same: "\<And>p. (\<forall>j. p \<notin> range (segment_path (shard_dir (cf_wal_dir cf) j))) \<Longrightarrow> rn_files r p = files p"
    using op fresh(2,3) sh by simp_all
  have pw: "map (watermark_at (ci_shard_watermarks ix)) [0..<?n] = replicate ?n 0"
    by (intro nth_equalityI) (simp_all add: ix ci_new_def watermark_at_def)
  have shape: "server_shape ?n (rn_server r)" using cf server_open_shape [OF _ fresh(4)] by blast
  have snap: "rn_files r (cf_index_path cf) = None"
    using same [of "cf_index_path cf"] snapshot_apart_segment [OF apart] fresh(1) by simp
  have "chunks_hold c (cf_chunk_dir cf) (fst ` acked_points (rn_logs r)) ix (rn_files r) (flushed (replicate ?n 0) (rn_logs r))"
  proof -
    have "flushed (replicate ?n 0) (rn_logs r) = {}" by (simp add: flushed_def logs log_upto_def)
    with chunks_hold_new show ?thesis by (simp add: ix)
  qed
  moreover have "mem_inv (mt_new th) t [] 0" for th t
    by (simp add: mem_inv_def mt_inv_new above_def mt_points_def mt_get_new)
  ultimately show ?thesis
    using shape snap wals clean_logs_empty
    by (simp add: run_inv_def Let_def sv pw logs snapshot_inv_def)
qed

lemma run_inv_step:
  assumes "deployed c wc bc cf srt" and inv: "run_inv c wc bc cf r" and step: "run_step c wc bc srt r r'"
    and clean: "clean_logs c (rn_logs r')"
  shows "run_inv c wc bc cf r'"
proof -
  have d: "sorts_by_shard srt" "xxh64_streaming c" "snapshot_apart (cf_index_path cf)" "bincode_lossless bc"
    using assms(1) by (simp_all add: deployed_def)
  from step show ?thesis
  proof cases
    case (run_append groups req env logs' sv' files' seq)
    have "clean_logs c logs'" using clean by (simp add: run_append(1))
    then show ?thesis
      unfolding run_append(1) by (rule run_inv_append [OF inv d(1-3) run_append(2-5) _ run_append(6)])
  next
    case (run_flush i fenv sv' files' u)
    show ?thesis unfolding run_flush(1) by (rule run_inv_flush [OF inv d(3) run_flush(2-5)])
  next
    case (run_snapshot io sv' files' res)
    show ?thesis unfolding run_snapshot(1) by (rule run_inv_snapshot [OF inv d(3,4) run_snapshot(2)])
  qed
qed

lemma run_step_clean:
  assumes "run_step c wc bc srt r r'" "clean_logs c (rn_logs r')"
  shows "clean_logs c (rn_logs r)"
  using assms(1)
proof cases
  case (run_append groups req env logs' sv' files' seq)
  show ?thesis
    by (rule clean_logs_mono [OF assms(2)]) (simp_all add: run_append(1,5) logged_def)
qed (use assms(2) in simp_all)

text \<open>The invariant holds while the points the server was given satisfy \<open>clean_logs\<close>.\<close>

interpretation srv: state_machine "run_start c wc bc cf srt" "run_step c wc bc srt"
  "\<lambda>r. deployed c wc bc cf srt \<and> (clean_logs c (rn_logs r) \<longrightarrow> run_inv c wc bc cf r)"
proof unfold_locales
  fix s s'
  assume inv: "deployed c wc bc cf srt \<and> (clean_logs c (rn_logs s) \<longrightarrow> run_inv c wc bc cf s)"
    and step: "run_step c wc bc srt s s'"
  show "deployed c wc bc cf srt \<and> (clean_logs c (rn_logs s') \<longrightarrow> run_inv c wc bc cf s')"
  proof (intro conjI impI)
    assume clean: "clean_logs c (rn_logs s')"
    from run_step_clean [OF step clean] inv have "deployed c wc bc cf srt" "run_inv c wc bc cf s" by simp_all
    from run_inv_step [OF this step clean] show "run_inv c wc bc cf s'" .
  qed (use inv in simp)
qed (auto intro: run_start_deployed run_inv_start)


subsection \<open>Reading while the server runs\<close>

lemma flushed_mems_acked:
  assumes "length wms = length logs" "length mems = length logs"
    "\<And>i. i < length logs \<Longrightarrow> mt_points (mems ! i) = log_points (above (wms ! i) (logs ! i))"
  shows "(\<Union>m \<in> set mems. mt_points m) \<union> flushed wms logs = acked_points logs"
proof -
  have "(\<Union>m \<in> set mems. mt_points m) = (\<Union>i < length logs. log_points (above (wms ! i) (logs ! i)))"
    using assms(2,3) by (auto simp: set_conv_nth)
  also have "\<dots> \<union> flushed wms logs =
      (\<Union>i < length logs. log_points (log_upto (wms ! i) (logs ! i)) \<union> log_points (above (wms ! i) (logs ! i)))"
    unfolding flushed_def by blast
  also have "\<dots> = acked_points logs" by (simp add: log_points_upto_above acked_points_def)
  finally show ?thesis .
qed

lemma query_holds:
  assumes "lz4_lossless c" "chunks_hold c dir keys (sv_index sv) files pts" "\<forall>m \<in> set (sv_memtables sv). mt_inv m"
    "(\<Union>m \<in> set (sv_memtables sv). mt_points m) \<union> pts = all" "hm_inv (qr_tag_filters req)"
  shows "\<exists>responses. (\<forall>accepted. server_query c req accepted sv files = take accepted responses) \<and>
    set responses = answer c req all"
proof -
  obtain db where ok: "store_ok c dir (sv_index sv) files db" and db: "db_points db = pts"
    using assms(2) by (auto simp: chunks_hold_def)
  have "set (query_memtables c req (sv_memtables sv) @ query_chunks c req (query_index req (sv_index sv)) files) =
      answer c req all"
    using query_memtables_exact [OF assms(3,5), of c] query_chunks_exact [OF assms(1) ok assms(5)] assms(4) db
    by (simp flip: answer_Un)
  then show ?thesis
    by (intro exI [of _ "query_memtables c req (sv_memtables sv) @ query_chunks c req (query_index req (sv_index sv)) files"])
      (simp add: server_query_def query_prefix)
qed

lemma run_inv_mems:
  assumes "run_inv c wc bc cf r"
  shows "\<forall>m \<in> set (sv_memtables (rn_server r)). mt_inv m"
    "(\<Union>m \<in> set (sv_memtables (rn_server r)). mt_points m) \<union> flushed (sv_shard_watermarks (rn_server r)) (rn_logs r) =
       acked_points (rn_logs r)"
proof -
  note shape = run_invD(1) [OF assms] and len = run_invD(2) [OF assms] and mem = run_invD(8) [OF assms]
  show "\<forall>m \<in> set (sv_memtables (rn_server r)). mt_inv m"
    using mem shape by (auto simp: set_conv_nth server_shape_def mem_inv_def)
  show "(\<Union>m \<in> set (sv_memtables (rn_server r)). mt_points m) \<union> flushed (sv_shard_watermarks (rn_server r)) (rn_logs r) =
      acked_points (rn_logs r)"
    using mem shape len by (intro flushed_mems_acked) (simp_all add: server_shape_def mem_inv_def)
qed


subsection \<open>The index after a restart\<close>

lemma hm_same_set: "hm_inv m \<Longrightarrow> hm_inv m' \<Longrightarrow> map_of m = map_of m' \<Longrightarrow> set m = set m'"
  using hm.mem_entries_iff [of m] hm.mem_entries_iff [of m'] by auto

lemma ci_inv_rebuild:
  assumes "ci_inv c ix"
  shows "ci_inv c (rebuild_index (snapshot_of ix ws))"
proof -
  let ?r = "rebuild_index (snapshot_of ix ws)"
  note same = rebuild_index_same(1) [OF assms, of ws, unfolded same_index_def]
  have hm: "hm_inv (ci_series_registry ?r)" "hm_inv (ci_time_index ?r)" "hm_inv (ci_chunk_stats ?r)" "hm_inv (ci_chunk_files ?r)"
    using hm.invar_collect [of "[]"] by (simp_all add: rebuild_index_def)
  have maps: "ci_maps_ok ix" using assms by (simp add: ci_inv_def)
  have ok: "hm_inv (ci_series_registry ix)" "hm_inv (ci_time_index ix)" "hm_inv (ci_chunk_stats ix)" "hm_inv (ci_chunk_files ix)"
    using maps by (simp_all add: ci_maps_ok_def)
  note sets = hm_same_set [OF hm(1) ok(1)] hm_same_set [OF hm(2) ok(2)] hm_same_set [OF hm(3) ok(3)] hm_same_set [OF hm(4) ok(4)]
  have "ci_entry ?r = ci_entry ix" using same by (simp add: ci_entry_def fun_eq_iff)
  then show ?thesis
    using assms same hm sets
    by (simp add: ci_inv_def ci_maps_ok_def ci_tags_ok_def ci_registry_ok_def ci_files_ok_def ci_times_ok_def)
qed

lemma chunks_hold_rebuild:
  assumes "chunks_hold c dir keys ix files pts"
  shows "chunks_hold c dir keys (rebuild_index (snapshot_of ix ws)) files pts"
    "ci_shard_watermarks (rebuild_index (snapshot_of ix ws)) = ws"
proof -
  let ?r = "rebuild_index (snapshot_of ix ws)"
  obtain db where db: "store_ok c dir ix files db" "db_points db = pts" using assms by (auto simp: chunks_hold_def)
  then have inv: "ci_inv c ix" by (simp add: store_ok_def)
  note same = rebuild_index_same(1) [OF inv, of ws, unfolded same_index_def]
  have "ci_entry ?r = ci_entry ix" using same by (simp add: ci_entry_def fun_eq_iff)
  with db(1) same ci_inv_rebuild [OF inv] have "store_ok c dir ?r files db"
    by (simp add: store_ok_def store_files_def store_index_def)
  with db(2) assms same show "chunks_hold c dir keys ?r files pts" by (auto simp: chunks_hold_def)
  show "ci_shard_watermarks ?r = ws" by (rule rebuild_index_same(2) [OF inv])
qed

text \<open>The index that a restart begins with holds what was logged up to the persisted watermarks.\<close>

lemma restart_index:
  assumes "run_inv c wc bc cf r"
  obtains loaded idx where "load_index bc LoadOk (rn_files r) (cf_index_path cf) = Inr loaded"
    "idx = (case loaded of None \<Rightarrow> ci_new | Some ix \<Rightarrow> ix)"
    "chunks_hold c (cf_chunk_dir cf) (fst ` acked_points (rn_logs r)) idx (rn_files r)
       (flushed (sv_persisted_watermarks (rn_server r)) (rn_logs r))"
    "\<forall>i < unat (cf_num_shards cf). watermark_at (ci_shard_watermarks idx) i = sv_persisted_watermarks (rn_server r) ! i"
proof -
  let ?sv = "rn_server r" and ?n = "unat (cf_num_shards cf)" and ?pw = "sv_persisted_watermarks (rn_server r)"
  note shape = run_invD(1) [OF assms] and len = run_invD(2) [OF assms] and dir = run_invD(3) [OF assms]
    and path = run_invD(4) [OF assms] and snap = run_invD(9) [OF assms] and log = run_invD(7) [OF assms]
  show thesis
  proof (cases "rn_files r (cf_index_path cf)")
    case None
    with snap have pw: "?pw = replicate ?n 0" by (simp add: snapshot_inv_def path len)
    have "fst e \<noteq> 0" if "i < ?n" "e \<in> set (rn_logs r ! i)" for i e
      using log [OF that(1)] that(2) by (auto simp: log_inv_def)
    then have "log_upto (?pw ! i) (rn_logs r ! i) = []" if "i < ?n" for i
      using that by (simp add: log_upto_def pw filter_empty_conv)
    then have "flushed ?pw (rn_logs r) = {}" by (simp add: flushed_def len)
    moreover have "watermark_at (ci_shard_watermarks ci_new) i = ?pw ! i" if "i < ?n" for i
      using that by (simp add: pw ci_new_def watermark_at_def)
    ultimately show thesis
      using that [of None ci_new] None chunks_hold_new [of c "cf_chunk_dir cf"] by (simp add: load_index_def)
  next
    case (Some bs)
    then obtain ix where ix: "bc_deserialize bc bs = Some (snapshot_of ix ?pw)"
        "chunks_hold c (cf_chunk_dir cf) (fst ` acked_points (rn_logs r)) ix (rn_files r) (flushed ?pw (rn_logs r))"
      using snap by (auto simp: snapshot_inv_def path dir)
    have "load_index bc LoadOk (rn_files r) (cf_index_path cf) = Inr (Some (rebuild_index (snapshot_of ix ?pw)))"
      using Some ix(1) by (simp add: load_index_def) (simp add: snapshot_of_def)
    with that chunks_hold_rebuild [OF ix(2), of ?pw] shape show thesis
      by (simp add: watermark_at_def server_shape_def)
  qed
qed


subsection \<open>Recovery of the shards\<close>

text \<open>
  A shard that is still to be opened: its segments hold the entries of its log above the
  watermark, and the name of its chunk is free.
\<close>

definition shard_pending ::
    "'w wal_crates_scheme \<Rightarrow> storage_config \<Rightarrow> open_env \<Rightarrow> wal_log list \<Rightarrow> u64 list \<Rightarrow> chunk_index \<Rightarrow> fs \<Rightarrow> nat \<Rightarrow> bool" where
  "shard_pending wc cf env logs pw ix files j \<longleftrightarrow>
     (\<exists>res. recover wc (oe_read env) files (shard_dir (cf_wal_dir cf) j) (oe_names env j) (pw ! j) = Inr res \<and>
        rr_points res = concat (map snd (above (pw ! j) (logs ! j)))) \<and>
     files (chunk_path (cf_chunk_dir cf) (new_chunk_id (oe_now env j))) = None \<and>
     watermark_at (ci_shard_watermarks ix) j = pw ! j"

lemma recovered_memtable:
  assumes "clean_logs c logs" "i < length logs"
  shows "mt_points (fold mt_insert (concat (map snd (above wm (logs ! i)))) (mt_new th)) = log_points (above wm (logs ! i))"
proof -
  let ?ps = "concat (map snd (above wm (logs ! i)))"
  have ps: "point_set ?ps = log_points (above wm (logs ! i))" by (rule point_set_concat)
  have nr: "no_rewrites logs" using assms(1) by (simp add: clean_logs_def)
  have "mt_points (fold mt_insert ?ps (mt_new th)) = mt_points (mt_new th) \<union> point_set ?ps"
  proof (rule mt_points_inserts [OF mt_inv_new])
    fix k ts v v'
    assume "(k, ts, v) \<in> mt_points (mt_new th) \<union> point_set ?ps" "(k, ts, v') \<in> point_set ?ps"
    then have "(k, ts, v) \<in> acked_points logs" "(k, ts, v') \<in> acked_points logs"
      using above_subset [OF assms(2), of wm] ps by (auto simp: mt_points_def)
    then show "v = v'" by (rule acked_single_valued [OF nr])
  qed
  moreover have "mt_points (mt_new th) = {}" by (simp add: mt_points_def)
  ultimately show ?thesis by (simp add: ps)
qed

lemma mt_inserts_not_Nil: "ps \<noteq> [] \<Longrightarrow> mt_entries (fold mt_insert ps (mt_new th)) \<noteq> []"
proof
  assume ps: "ps \<noteq> []" and e: "mt_entries (fold mt_insert ps (mt_new th)) = []"
  let ?p = "last ps"
  have "mt_get (fold mt_insert ps (mt_new th)) (dp_key ?p) (dp_timestamp_ns ?p) \<noteq> None"
    using ps by (intro mt_get_inserted) (simp_all add: mt_inv_new)
  with e show False by (simp add: mt_get_def sm_get_def)
qed

lemma recovery_chunk_holds:
  assumes clean: "clean_logs c logs" and i: "i < length logs" and len: "length wms = length logs"
    and points: "points = concat (map snd (above (wms ! i) (logs ! i)))"
    and hold: "chunks_hold c (cf_chunk_dir cf) (fst ` acked_points logs) ix files (flushed wms logs)"
    and free: "files (chunk_path (cf_chunk_dir cf) (new_chunk_id now)) = None"
    and max: "\<forall>e \<in> set (logs ! i). fst e \<le> s"
  shows "\<exists>files' ix'. recovery_chunk c cf now CreateOk points ix files = (files', Inr ix') \<and>
    chunks_hold c (cf_chunk_dir cf) (fst ` acked_points logs) ix' files' (flushed (wms[i := s]) logs) \<and>
    ci_shard_watermarks ix' = ci_shard_watermarks ix \<and>
    (\<forall>p. p \<noteq> chunk_path (cf_chunk_dir cf) (new_chunk_id now) \<longrightarrow> files' p = files p)"
proof (cases "points = []")
  case True
  then have "log_points (above (wms ! i) (logs ! i)) = {}"
    using point_set_concat [of "above (wms ! i) (logs ! i)"] points by (simp add: point_set_def)
  then have "flushed (wms[i := s]) logs = flushed wms logs" using flushed_update [OF i len max] by simp
  with hold True show ?thesis by (simp add: recovery_chunk_def)
next
  case False
  let ?m = "fold mt_insert points (mt_new (cf_memtable_flush_threshold_bytes cf))"
  obtain files' res where w: "cw_write c (cf_chunk_dir cf) now CreateOk (mt_entries ?m) files = (files', Inr res)"
    using cw_write_succeeds [where files = files, OF mt_inserts_not_Nil [OF False] free] by blast
  have mem: "mt_inv ?m" "mt_points ?m = log_points (above (wms ! i) (logs ! i))"
    using recovered_memtable [OF clean i] by (simp_all add: points mt_inv_inserts mt_inv_new)
  have "recovery_chunk c cf now CreateOk points ix files = (files', Inr (register_results c res ix))"
    using False w by (simp add: recovery_chunk_def mt_drain_def)
  moreover have "\<forall>p. p \<noteq> chunk_path (cf_chunk_dir cf) (new_chunk_id now) \<longrightarrow> files' p = files p"
    using cw_write_Inr(5) [OF w] by simp
  moreover have "ci_shard_watermarks (register_results c res ix) = ci_shard_watermarks ix"
    using register_results_write [OF w] mem(1) by (simp add: mt_inv_def)
  ultimately show ?thesis using flush_chunk [OF clean i len mem max hold w] by blast
qed

lemma open_shard_recover:
  assumes clean: "clean_logs c logs" and i: "i < length logs" and len: "length wms = length logs"
    and pend: "shard_pending wc cf env logs pw ix files i" and wm: "wms ! i = pw ! i"
    and hold: "chunks_hold c (cf_chunk_dir cf) (fst ` acked_points logs) ix files (flushed wms logs)"
    and env: "oe_write env i = CreateOk" "oe_open env i = SegmentOk" "oe_rotate env i"
      "channel_ok (cf_wal_channel_capacity cf)" and max: "\<forall>e \<in> set (logs ! i). fst e \<le> s"
  shows "\<exists>files' ix' t'. open_shard c wc cf env i ix files = (files', Inr (ix', t')) \<and>
    chunks_hold c (cf_chunk_dir cf) (fst ` acked_points logs) ix' files' (flushed (wms[i := s]) logs) \<and>
    ci_shard_watermarks ix' = ci_shard_watermarks ix \<and>
    (\<forall>p. p \<noteq> chunk_path (cf_chunk_dir cf) (new_chunk_id (oe_now env i)) \<longrightarrow>
       p \<notin> range (segment_path (shard_dir (cf_wal_dir cf) i)) \<longrightarrow> files' p = files p)"
proof -
  let ?d = "shard_dir (cf_wal_dir cf) i"
  obtain res where rec: "recover wc (oe_read env) files ?d (oe_names env i) (pw ! i) = Inr res"
      "rr_points res = concat (map snd (above (pw ! i) (logs ! i)))"
    and free: "files (chunk_path (cf_chunk_dir cf) (new_chunk_id (oe_now env i))) = None"
    and mark: "watermark_at (ci_shard_watermarks ix) i = pw ! i"
    using pend by (auto simp: shard_pending_def)
  obtain files1 ix1 where ch: "recovery_chunk c cf (oe_now env i) CreateOk (rr_points res) ix files = (files1, Inr ix1)"
      "chunks_hold c (cf_chunk_dir cf) (fst ` acked_points logs) ix1 files1 (flushed (wms[i := s]) logs)"
      "ci_shard_watermarks ix1 = ci_shard_watermarks ix"
      "\<forall>p. p \<noteq> chunk_path (cf_chunk_dir cf) (new_chunk_id (oe_now env i)) \<longrightarrow> files1 p = files p"
    using recovery_chunk_holds [OF clean i len _ hold free max, of "rr_points res"] rec(2) wm by auto
  obtain files2 t' where w: "open_writer cf env i res (pw ! i) files1 = (files2, Inr t')"
    using open_writer_ok [OF env(2-4), of res "pw ! i" files1] by blast
  note out = open_writer_frame [OF w]
  have "open_shard c wc cf env i ix files = (files2, Inr (ix1, t'))"
    using rec(1) ch(1) w env(1) by (simp add: open_shard_def Let_def mark)
  moreover have "chunks_hold c (cf_chunk_dir cf) (fst ` acked_points logs) ix1 files2 (flushed (wms[i := s]) logs)"
    by (rule outside_chunks_hold [OF ch(2) out])
  ultimately show ?thesis using ch(3,4) out by (auto simp: same_outside_def)
qed

lemma recover_files_frame:
  "\<forall>p \<in> set paths. files' p = files p \<Longrightarrow> recover_files wc wm rd files' paths res = recover_files wc wm rd files paths res"
  by (induction paths arbitrary: res) (simp_all add: read_file_def)

lemma recover_frame:
  "\<forall>n. path_extension n = Some ''wal'' \<longrightarrow> files' (join dir n) = files (join dir n) \<Longrightarrow>
   recover wc rd files' dir names wm = recover wc rd files dir names wm"
proof -
  assume eq: "\<forall>n. path_extension n = Some ''wal'' \<longrightarrow> files' (join dir n) = files (join dir n)"
  show ?thesis
  proof (cases "rd dir")
    case True
    have "recover_files wc wm rd files' (map (join dir) (sort (filter (\<lambda>n. path_extension n = Some ''wal'') names))) rr_init =
        recover_files wc wm rd files (map (join dir) (sort (filter (\<lambda>n. path_extension n = Some ''wal'') names))) rr_init"
      using eq by (intro recover_files_frame) auto
    with True show ?thesis by (simp add: recover_def get_wal_files_def)
  qed (simp add: recover_def get_wal_files_def)
qed

lemma shard_pending_other:
  assumes pend: "shard_pending wc cf env logs pw ix files j" and "i \<noteq> j"
    and apart: "cf_chunk_dir cf \<noteq> shard_dir (cf_wal_dir cf) j" and ids: "new_chunk_id (oe_now env i) \<noteq> new_chunk_id (oe_now env j)"
    and ix: "ci_shard_watermarks ix' = ci_shard_watermarks ix"
    and same: "\<forall>p. p \<noteq> chunk_path (cf_chunk_dir cf) (new_chunk_id (oe_now env i)) \<longrightarrow>
       p \<notin> range (segment_path (shard_dir (cf_wal_dir cf) i)) \<longrightarrow> files' p = files p"
  shows "shard_pending wc cf env logs pw ix' files' j"
proof -
  let ?d = "shard_dir (cf_wal_dir cf) j"
  have eq: "files' (join ?d n) = files (join ?d n)" for n
  proof -
    have "join ?d n \<noteq> chunk_path (cf_chunk_dir cf) (new_chunk_id (oe_now env i))"
      using apart by (auto simp: chunk_path_def)
    with same shard_file_not_other [OF assms(2)] show ?thesis by blast
  qed
  have ch: "files' (chunk_path (cf_chunk_dir cf) (new_chunk_id (oe_now env j))) =
      files (chunk_path (cf_chunk_dir cf) (new_chunk_id (oe_now env j)))"
    using same ids chunk_path_not_segment by simp
  have "recover wc (oe_read env) files' ?d names wm = recover wc (oe_read env) files ?d names wm" for names wm
    by (rule recover_frame) (use eq in blast)
  with pend ch ix show ?thesis by (simp add: shard_pending_def)
qed

lemma open_shards_recover:
  assumes clean: "clean_logs c logs" and len: "length logs = n"
    and apart: "\<forall>j. cf_chunk_dir cf \<noteq> shard_dir (cf_wal_dir cf) j"
    and env: "\<forall>j < n. oe_write env j = CreateOk \<and> oe_open env j = SegmentOk \<and> oe_rotate env j"
      "channel_ok (cf_wal_channel_capacity cf)"
    and ids: "inj_on (\<lambda>j. new_chunk_id (oe_now env j)) {..<n}"
  shows "k \<le> n \<Longrightarrow> length wms = n \<Longrightarrow> \<forall>j < n. wms ! j = (if j < k then U64_MAX else pw ! j) \<Longrightarrow>
    \<forall>j. k \<le> j \<longrightarrow> j < n \<longrightarrow> shard_pending wc cf env logs pw ix files j \<Longrightarrow>
    chunks_hold c (cf_chunk_dir cf) (fst ` acked_points logs) ix files (flushed wms logs) \<Longrightarrow>
    \<exists>files' ix' wals'. open_shards c wc cf env [k..<n] ix wals files = (files', Inr (ix', wals')) \<and>
      chunks_hold c (cf_chunk_dir cf) (fst ` acked_points logs) ix' files' (acked_points logs)"
proof (induction "n - k" arbitrary: k wms ix wals files)
  case 0
  then have "log_upto (wms ! j) (logs ! j) = logs ! j" if "j < n" for j
    using that by (simp add: log_upto_def U64_MAX_greatest)
  then have "flushed wms logs = acked_points logs" by (simp add: flushed_def acked_points_def len)
  with 0 show ?case by simp
next
  case (Suc m)
  have k: "k < n" and upt: "[k..<n] = k # [Suc k..<n]" using Suc.hyps(2) by (simp_all add: upt_conv_Cons)
  have top: "\<forall>e \<in> set (logs ! k). fst e \<le> U64_MAX" by (simp add: U64_MAX_greatest)
  have pk: "shard_pending wc cf env logs pw ix files k" and wk: "wms ! k = pw ! k" using Suc.prems(3,4) k by simp_all
  obtain files1 ix1 t where o: "open_shard c wc cf env k ix files = (files1, Inr (ix1, t))"
      "chunks_hold c (cf_chunk_dir cf) (fst ` acked_points logs) ix1 files1 (flushed (wms[k := U64_MAX]) logs)"
      "ci_shard_watermarks ix1 = ci_shard_watermarks ix"
      "\<forall>p. p \<noteq> chunk_path (cf_chunk_dir cf) (new_chunk_id (oe_now env k)) \<longrightarrow>
         p \<notin> range (segment_path (shard_dir (cf_wal_dir cf) k)) \<longrightarrow> files1 p = files p"
    using open_shard_recover [where files = files, OF clean _ _ pk wk Suc.prems(5) _ _ _ env(2) top] env k len Suc.prems(2)
    by auto
  have pend: "shard_pending wc cf env logs pw ix1 files1 j" if j: "Suc k \<le> j" "j < n" for j
  proof (rule shard_pending_other [OF _ _ _ _ o(3,4)])
    show "shard_pending wc cf env logs pw ix files j" using Suc.prems(4) j by simp
    show "cf_chunk_dir cf \<noteq> shard_dir (cf_wal_dir cf) j" using apart by simp
    show "k \<noteq> j" using j by simp
    show "new_chunk_id (oe_now env k) \<noteq> new_chunk_id (oe_now env j)"
      using inj_onD [OF ids, of k j] j k by auto
  qed
  have "m = n - Suc k" "Suc k \<le> n" using Suc.hyps(2) k by simp_all
  from Suc.hyps(1) [OF this _ _ _ o(2), of "wals @ [t]"] pend Suc.prems(2,3) k
  have "\<exists>files' ix' wals'. open_shards c wc cf env [Suc k..<n] ix1 (wals @ [t]) files1 = (files', Inr (ix', wals')) \<and>
      chunks_hold c (cf_chunk_dir cf) (fst ` acked_points logs) ix' files' (acked_points logs)"
    by (auto simp: nth_list_update)
  with o(1) show ?case unfolding upt by simp
qed

text \<open>
  A restart that meets no further failure: the directories are listed as they are, the files
  can be read, created and opened, the chunks made of the replayed points get new names, and
  the configured channel capacity and size ratio are accepted.
\<close>

definition open_good :: "storage_config \<Rightarrow> open_env \<Rightarrow> fs \<Rightarrow> bool" where
  "open_good cf env files \<longleftrightarrow>
     (\<forall>j < unat (cf_num_shards cf).
        lists_dir files (shard_dir (cf_wal_dir cf) j) (oe_names env j) \<and>
        files (chunk_path (cf_chunk_dir cf) (new_chunk_id (oe_now env j))) = None \<and>
        oe_write env j = CreateOk \<and> oe_open env j = SegmentOk \<and> oe_rotate env j) \<and>
     oe_load env = LoadOk \<and> oe_read env = all_read \<and> channel_ok (cf_wal_channel_capacity cf) \<and>
     inj_on (\<lambda>j. new_chunk_id (oe_now env j)) {..<unat (cf_num_shards cf)} \<and>
     f64_le F64_ONE (cf_compaction_size_ratio cf)"


subsection \<open>Crashes\<close>

text \<open>
  The files a crash can leave: of one more batch per shard some bytes reached the current
  segment, a chunk may be half or fully written but not registered, and the temporary file of
  a snapshot may have any contents. Everything else is as it was.
\<close>

abbreviation shard_writer :: "run \<Rightarrow> nat \<Rightarrow> wal_writer" where
  "shard_writer r j \<equiv> wt_writer (sv_wals (rn_server r) ! j)"

definition crashed ::
    "'w wal_crates_scheme \<Rightarrow> storage_config \<Rightarrow> (nat \<Rightarrow> wal_message list) \<Rightarrow> run \<Rightarrow> fs \<Rightarrow> bool" where
  "crashed wc cf msgs r files' \<longleftrightarrow>
     (\<forall>j < unat (cf_num_shards cf).
        batch_ok wc (msgs j) (shard_writer r j) \<and>
        (\<exists>m. files' (ww_file (shard_writer r j)) =
           map_option (\<lambda>bs. bs @ take m (b_frames (gather wc (msgs j) (ww_current_seq (shard_writer r j)))))
             (rn_files r (ww_file (shard_writer r j))))) \<and>
     (\<forall>p. (\<forall>j < unat (cf_num_shards cf). p \<noteq> ww_file (shard_writer r j)) \<longrightarrow>
        files' p = rn_files r p \<or> p = with_extension (cf_index_path cf) ''tmp'' \<or>
        rn_files r p = None \<and> (\<exists>cid. p = chunk_path (cf_chunk_dir cf) cid))"

text \<open>The entries of the batches in flight, and logs that end with some of them.\<close>

definition inflight :: "run \<Rightarrow> (nat \<Rightarrow> wal_message list) \<Rightarrow> nat \<Rightarrow> wal_log" where
  "inflight r msgs j = batch_log (ww_current_seq (shard_writer r j)) (msgs j)"

definition extended :: "run \<Rightarrow> (nat \<Rightarrow> wal_message list) \<Rightarrow> (nat \<Rightarrow> nat) \<Rightarrow> wal_log list" where
  "extended r msgs k = map (\<lambda>j. rn_logs r ! j @ take (k j) (inflight r msgs j)) [0..<length (rn_logs r)]"

lemma extended_nth:
  "length (extended r msgs k) = length (rn_logs r)"
  "j < length (rn_logs r) \<Longrightarrow> extended r msgs k ! j = rn_logs r ! j @ take (k j) (inflight r msgs j)"
  by (simp_all add: extended_def)

lemma clean_extended:
  assumes "clean_logs c (map (\<lambda>j. rn_logs r ! j @ inflight r msgs j) [0..<length (rn_logs r)])"
  shows "clean_logs c (extended r msgs k)"
  by (rule clean_logs_mono [OF assms]) (use set_take_subset in \<open>fastforce simp: extended_nth\<close>)+

lemma acked_extended: "acked_points (rn_logs r) \<subseteq> acked_points (extended r msgs k)"
  by (rule acked_points_mono) (simp_all add: extended_nth)

lemma chunks_hold_files:
  assumes "chunks_hold c dir keys ix files pts"
    "\<And>cid. files (chunk_path dir cid) \<noteq> None \<Longrightarrow> files' (chunk_path dir cid) = files (chunk_path dir cid)"
  shows "chunks_hold c dir keys ix files' pts"
proof -
  have "store_ok c dir ix files' db" if "store_ok c dir ix files db" for db
    using that assms(2) by (auto simp: store_ok_def store_files_def)
  with assms(1) show ?thesis unfolding chunks_hold_def by blast
qed

lemma crashed_other:
  assumes inv: "run_inv c wc bc cf r" and crash: "crashed wc cf msgs r files'"
    and p: "\<forall>j < unat (cf_num_shards cf). p \<notin> range (segment_path (shard_dir (cf_wal_dir cf) j))"
  shows "files' p = rn_files r p \<or> p = with_extension (cf_index_path cf) ''tmp'' \<or>
    rn_files r p = None \<and> (\<exists>cid. p = chunk_path (cf_chunk_dir cf) cid)"
proof -
  have "p \<noteq> ww_file (shard_writer r j)" if "j < unat (cf_num_shards cf)" for j
    using log_inv_writer [OF run_invD(7) [OF inv that]] p that by (auto simp: writer_ok_def)
  with crash show ?thesis unfolding crashed_def by blast
qed

lemma crashed_segment:
  assumes inv: "run_inv c wc bc cf r" and crash: "crashed wc cf msgs r files'" and j: "j < unat (cf_num_shards cf)"
    and dep: "deployed c wc bc cf srt" and n: "path_extension n = Some ''wal''"
    and other: "join (shard_dir (cf_wal_dir cf) j) n \<noteq> ww_file (shard_writer r j)"
  shows "files' (join (shard_dir (cf_wal_dir cf) j) n) = rn_files r (join (shard_dir (cf_wal_dir cf) j) n)"
proof -
  let ?p = "join (shard_dir (cf_wal_dir cf) j) n"
  have "?p \<noteq> ww_file (shard_writer r i)" if "i < unat (cf_num_shards cf)" for i
  proof (cases "i = j")
    case False
    with log_inv_writer [OF run_invD(7) [OF inv that]] shard_file_not_other [of i j "cf_wal_dir cf" n] show ?thesis
      by (auto simp: writer_ok_def)
  qed (use other in simp)
  moreover have "?p \<noteq> with_extension (cf_index_path cf) ''tmp''"
  proof -
    have "plain_file (with_extension (cf_index_path cf) ''tmp'')"
      using dep by (intro plain_file_tmp) (auto simp: deployed_def snapshot_apart_def plain_file_def)
    moreover have "\<not> plain_file ?p" using n by (simp add: plain_file_def join_def)
    ultimately show ?thesis by metis
  qed
  moreover have "?p \<noteq> chunk_path (cf_chunk_dir cf) cid" for cid
    using n path_extension_chunk [of "cf_chunk_dir cf" cid "shard_dir (cf_wal_dir cf) j" n] by auto
  ultimately show ?thesis using crash unfolding crashed_def by blast
qed

lemma crash_recover:
  assumes inv: "run_inv c wc bc cf r" and crash: "crashed wc cf msgs r files'" and j: "j < unat (cf_num_shards cf)"
    and dep: "deployed c wc bc cf srt" and names: "lists_dir files' (shard_dir (cf_wal_dir cf) j) names"
  shows "\<exists>k res. recover wc all_read files' (shard_dir (cf_wal_dir cf) j) names (sv_persisted_watermarks (rn_server r) ! j) = Inr res \<and>
    rr_points res = concat (map snd (above (sv_persisted_watermarks (rn_server r) ! j)
      (rn_logs r ! j @ take k (inflight r msgs j))))"
proof -
  let ?d = "shard_dir (cf_wal_dir cf) j" and ?w = "shard_writer r j" and ?t = "sv_wals (rn_server r) ! j"
  define f0 where "f0 = files'(ww_file ?w := rn_files r (ww_file ?w))"
  obtain gc pend where w: "wal_inv wc (shard_wal ?t (rn_files r) (rn_logs r ! j) gc pend)"
      "gc \<le> sv_persisted_watermarks (rn_server r) ! j" "ww_wal_dir ?w = ?d"
    using run_invD(7) [OF inv j] by (rule log_invE)
  have "\<forall>n. path_extension n = Some ''wal'' \<longrightarrow> f0 (join (ww_wal_dir ?w) n) = rn_files r (join (ww_wal_dir ?w) n)"
    using crashed_segment [OF inv crash j dep] w(3) by (auto simp: f0_def)
  from wal_inv_frame [OF w(1) this] obtain gs log where
    disk: "wal_disk wc ?w f0 (rn_logs r ! j) gc pend gs log"
    by (auto simp: wal_inv_def)
  obtain m where m: "batch_ok wc (msgs j) ?w" "files' (ww_file ?w) =
      map_option (\<lambda>bs. bs @ take m (b_frames (gather wc (msgs j) (ww_current_seq ?w)))) (rn_files r (ww_file ?w))"
    using crash j unfolding crashed_def by blast
  have files': "fs_append (ww_file ?w) (take m (log_bytes wc (inflight r msgs j))) f0 = files'"
    using m(2) by (auto simp: f0_def fs_append_def inflight_def fun_eq_iff split: option.splits)
  have fits: "\<forall>e \<in> set (inflight r msgs j). entry_fits wc e" using m(1) by (simp add: batch_ok_def inflight_def)
  have "prost_lossless wc" using dep by (simp add: deployed_def)
  from wal_disk_crash [OF this disk fits w(2), of m names] names w(3) show ?thesis unfolding files' by auto
qed

lemma flushed_extended:
  assumes inv: "run_inv c wc bc cf r" and crash: "crashed wc cf msgs r files'"
  shows "flushed (sv_persisted_watermarks (rn_server r)) (extended r msgs k) =
    flushed (sv_persisted_watermarks (rn_server r)) (rn_logs r)"
proof -
  let ?pw = "sv_persisted_watermarks (rn_server r)"
  have "log_upto (?pw ! j) (take (k j) (inflight r msgs j)) = []" if j: "j < length (rn_logs r)" for j
  proof -
    let ?t = "sv_wals (rn_server r) ! j"
    have n: "j < unat (cf_num_shards cf)" using j run_invD(2) [OF inv] by simp
    obtain gc pend where w: "wal_inv wc (shard_wal ?t (rn_files r) (rn_logs r ! j) gc pend)" "?pw ! j \<le> wt_last_seq ?t"
      using run_invD(7) [OF inv n] by (rule log_invE)
    have seq: "ww_current_seq (wt_writer ?t) = wt_last_seq ?t" using w(1) by (simp add: wal_inv_def)
    have "batch_ok wc (msgs j) (wt_writer ?t)" using crash n unfolding crashed_def by blast
    then have "?pw ! j < fst e" if "e \<in> set (inflight r msgs j)" for e
      using batch_log_bound(1) [of e "wt_last_seq ?t" "msgs j"] that w(2) seq by (auto simp: inflight_def batch_ok_def)
    with set_take_subset [of "k j" "inflight r msgs j"] show ?thesis
      unfolding log_upto_def filter_empty_conv by (meson not_le subsetD)
  qed
  then show ?thesis by (simp add: flushed_def extended_nth)
qed

lemma crash_pending:
  assumes inv: "run_inv c wc bc cf r" and crash: "crashed wc cf msgs r files'" and dep: "deployed c wc bc cf srt"
    and good: "open_good cf env files'"
    and marks: "\<forall>i < unat (cf_num_shards cf). watermark_at (ci_shard_watermarks idx) i = sv_persisted_watermarks (rn_server r) ! i"
  shows "\<exists>k. \<forall>j < unat (cf_num_shards cf).
    shard_pending wc cf env (extended r msgs k) (sv_persisted_watermarks (rn_server r)) idx files' j"
proof -
  let ?n = "unat (cf_num_shards cf)" and ?pw = "sv_persisted_watermarks (rn_server r)"
  let ?P = "\<lambda>j k. \<exists>res. recover wc all_read files' (shard_dir (cf_wal_dir cf) j) (oe_names env j) (?pw ! j) = Inr res \<and>
    rr_points res = concat (map snd (above (?pw ! j) (rn_logs r ! j @ take k (inflight r msgs j))))"
  have "\<forall>j. \<exists>k. j < ?n \<longrightarrow> ?P j k"
    using crash_recover [OF inv crash _ dep] good unfolding open_good_def by blast
  from choice [OF this] obtain k where k: "\<forall>j. j < ?n \<longrightarrow> ?P j (k j)" by blast
  have "shard_pending wc cf env (extended r msgs k) ?pw idx files' j" if "j < ?n" for j
    using k marks good that run_invD(2) [OF inv] by (simp add: shard_pending_def open_good_def extended_nth)
  then show ?thesis by blast
qed

lemma crash_opens:
  assumes dep: "deployed c wc bc cf srt" and inv: "run_inv c wc bc cf r" and crash: "crashed wc cf msgs r files'"
    and clean: "clean_logs c (map (\<lambda>j. rn_logs r ! j @ inflight r msgs j) [0..<length (rn_logs r)])"
    and good: "open_good cf env files'"
  shows "\<exists>k sv' files''. server_open c wc bc cf env files' = (files'', Opened sv') \<and>
    chunks_hold c (cf_chunk_dir cf) (fst ` acked_points (extended r msgs k)) (sv_index sv') files'' (acked_points (extended r msgs k)) \<and>
    sv_memtables sv' = replicate (unat (cf_num_shards cf)) (mt_new (cf_memtable_flush_threshold_bytes cf div cf_num_shards cf))"
proof -
  let ?n = "unat (cf_num_shards cf)" and ?pw = "sv_persisted_watermarks (rn_server r)"
  have apart: "snapshot_apart (cf_index_path cf)" "\<forall>j. cf_chunk_dir cf \<noteq> shard_dir (cf_wal_dir cf) j"
    using dep by (simp_all add: deployed_def)
  obtain loaded idx where load: "load_index bc LoadOk (rn_files r) (cf_index_path cf) = Inr loaded"
      and idx: "idx = (case loaded of None \<Rightarrow> ci_new | Some ix \<Rightarrow> ix)"
      and hold: "chunks_hold c (cf_chunk_dir cf) (fst ` acked_points (rn_logs r)) idx (rn_files r) (flushed ?pw (rn_logs r))"
      and marks: "\<forall>i < ?n. watermark_at (ci_shard_watermarks idx) i = ?pw ! i"
    by (rule restart_index [OF inv]) (rule that)
  have "files' (cf_index_path cf) = rn_files r (cf_index_path cf)"
    using crashed_other [OF inv crash, of "cf_index_path cf"] snapshot_apart_segment [OF apart(1)]
      snapshot_apart_chunk [OF apart(1)] apart(1) unfolding snapshot_apart_def by metis
  with load have load': "load_index bc (oe_load env) files' (cf_index_path cf) = Inr loaded"
    using good by (simp add: load_index_def open_good_def)
  obtain k where pend: "\<forall>j < ?n. shard_pending wc cf env (extended r msgs k) ?pw idx files' j"
    using crash_pending [OF inv crash dep good marks] by blast
  let ?logs = "extended r msgs k"
  have same: "files' (chunk_path (cf_chunk_dir cf) cid) = rn_files r (chunk_path (cf_chunk_dir cf) cid)"
    if "rn_files r (chunk_path (cf_chunk_dir cf) cid) \<noteq> None" for cid
  proof -
    have "chunk_path (cf_chunk_dir cf) cid \<noteq> with_extension (cf_index_path cf) ''tmp''"
      using plain_file_tmp [of "cf_index_path cf"] plain_file_chunk apart(1)
      unfolding snapshot_apart_def plain_file_def by metis
    with crashed_other [OF inv crash, of "chunk_path (cf_chunk_dir cf) cid"] chunk_path_not_segment that show ?thesis
      by blast
  qed
  have hold': "chunks_hold c (cf_chunk_dir cf) (fst ` acked_points ?logs) idx files' (flushed ?pw ?logs)"
    using chunks_hold_files [OF chunks_hold_mono [OF hold image_mono [OF acked_extended]] same]
    unfolding flushed_extended [OF inv crash] .
  have good': "\<forall>j < ?n. oe_write env j = CreateOk \<and> oe_open env j = SegmentOk \<and> oe_rotate env j"
      "channel_ok (cf_wal_channel_capacity cf)" "inj_on (\<lambda>j. new_chunk_id (oe_now env j)) {..<?n}" "f64_le F64_ONE (cf_compaction_size_ratio cf)"
    using good by (simp_all add: open_good_def)
  have len: "length ?pw = ?n" "length ?logs = ?n"
    using run_invD(1,2) [OF inv] by (simp_all add: server_shape_def extended_nth)
  obtain files'' ix' wals' where o: "open_shards c wc cf env [0..<?n] idx [] files' = (files'', Inr (ix', wals'))"
      "chunks_hold c (cf_chunk_dir cf) (fst ` acked_points ?logs) ix' files'' (acked_points ?logs)"
    using open_shards_recover [where k = 0 and wals = "[]" and pw = ?pw and wc = wc,
        OF clean_extended [OF clean] len(2) apart(2) good'(1-3) _ len(1) _ _ hold'] pend
    by auto
  then show ?thesis
    using load' good'(4) by (intro exI [of _ k]) (simp add: server_open_def Let_def idx compaction_worker_new_def)
qed


subsection \<open>Properties\<close>

text \<open>
  C2.  While the server runs, the clients read what they wrote. Take any sequence of
  acknowledged appends, successful flushes and snapshots since the first start, one operation
  at a time (no append inside a flush, no compaction, every WAL and chunk write succeeding), in
  which no timestamp of a series was written by two requests or with two values, names are free
  of the separators, identifiers of series do not collide and the chunks fit their format
  (\<open>clean_logs\<close>). Then a query returns exactly the acknowledged points with the wanted metric,
  tags and time range, each under the identifier of its series, whether they are in a memtable
  or in a chunk. The metric is compared literally, the empty one included.
\<close>

theorem acknowledged_points_readable:
  assumes "run_start c wc bc cf srt r0" "(run_step c wc bc srt)\<^sup>*\<^sup>* r0 r"
    "clean_logs c (rn_logs r)" "hm_inv (qr_tag_filters req)"
  shows "\<exists>responses.
    (\<forall>accepted. server_query c req accepted (rn_server r) (rn_files r) = take accepted responses) \<and>
    set responses = answer c req (acked_points (rn_logs r))"
proof -
  have inv: "deployed c wc bc cf srt" "run_inv c wc bc cf r" using srv.inv_reachable [OF assms(1,2)] assms(3) by simp_all
  have "lz4_lossless c" using inv(1) by (simp add: deployed_def)
  from query_holds [OF this run_invD(6) [OF inv(2)] run_inv_mems [OF inv(2)] assms(4)] show ?thesis .
qed

text \<open>
  C1.  Acknowledged points survive a crash of the server. Take any sequence of acknowledged
  appends, successful flushes and snapshots since the first start, one operation at a time (no
  append inside a flush, no compaction, every WAL and chunk write succeeding). Whatever bytes
  of one more batch per shard, of an unregistered chunk or of a temporary snapshot then reached
  the disk, a restart that meets no further failure (\<open>open_good\<close>) opens the server, and a query
  returns exactly the points that were acknowledged or were in the recovered prefixes of the
  batches in flight: no acknowledged point is lost, whether it was in a memtable, a chunk or
  only in the log, and nothing else appears. This needs of the points, those in flight
  included (\<open>clean_logs\<close>), that no timestamp of a series is written by two requests or with two
  values, names are free of the separators, identifiers of series do not collide and the chunks
  fit their format. The metric is compared literally, the empty one included.
\<close>

theorem server_crash_recovery:
  assumes "run_start c wc bc cf srt r0" "(run_step c wc bc srt)\<^sup>*\<^sup>* r0 r" "crashed wc cf msgs r files'"
    "clean_logs c (map (\<lambda>j. rn_logs r ! j @ inflight r msgs j) [0..<length (rn_logs r)])" "open_good cf env files'"
  shows "\<exists>k sv' files''. server_open c wc bc cf env files' = (files'', Opened sv') \<and>
    acked_points (rn_logs r) \<subseteq> acked_points (extended r msgs k) \<and>
    (\<forall>req. hm_inv (qr_tag_filters req) \<longrightarrow>
      (\<exists>responses. (\<forall>accepted. server_query c req accepted sv' files'' = take accepted responses) \<and>
         set responses = answer c req (acked_points (extended r msgs k))))"
proof -
  have "clean_logs c (rn_logs r)" by (rule clean_logs_mono [OF assms(4)]) simp_all
  then have inv: "deployed c wc bc cf srt" "run_inv c wc bc cf r"
    using srv.inv_reachable [OF assms(1,2)] by simp_all
  have lz4: "lz4_lossless c" using inv(1) by (simp add: deployed_def)
  obtain k sv' files'' where o: "server_open c wc bc cf env files' = (files'', Opened sv')"
      "chunks_hold c (cf_chunk_dir cf) (fst ` acked_points (extended r msgs k)) (sv_index sv') files'' (acked_points (extended r msgs k))"
      "sv_memtables sv' = replicate (unat (cf_num_shards cf)) (mt_new (cf_memtable_flush_threshold_bytes cf div cf_num_shards cf))"
    using crash_opens [OF inv assms(3-5)] by blast
  have "\<forall>m \<in> set (sv_memtables sv'). mt_inv m \<and> mt_points m = {}" by (simp add: o(3) mt_inv_new mt_points_def)
  then have "\<forall>m \<in> set (sv_memtables sv'). mt_inv m"
    "(\<Union>m \<in> set (sv_memtables sv'). mt_points m) \<union> acked_points (extended r msgs k) = acked_points (extended r msgs k)"
    by auto
  from query_holds [OF lz4 o(2) this] o(1) acked_extended show ?thesis by blast
qed


text \<open>One shard in the default directories, an acknowledged point, and another one in flight.\<close>

abbreviation one_shard :: environment where
  "one_shard \<equiv> (\<lambda>key. if key = ''MICIUS_NUM_SHARDS'' then Some ''1'' else None)"

definition example_config :: storage_config where
  "example_config = projr (load one_shard)"

lemma example_config_loads: "load one_shard = Inr example_config"
proof -
  have "env_usize one_shard ''MICIUS_NUM_SHARDS'' 16 = 1"
    by (simp add: env_usize_def parse_u64_def digit_value_def)
  moreover have "is_power_of_two 1"
    by (simp add: is_power_of_two_def count_ones_def upt_conv_Cons bit_simps)
  ultimately have "\<exists>cf. load one_shard = Inr cf" by (simp add: load_def)
  then show ?thesis by (auto simp: example_config_def)
qed

lemma example_config_fields [simp]:
  "cf_wal_dir example_config = [''/'', ''var'', ''micius'', ''data'', ''wal'']"
  "cf_chunk_dir example_config = [''/'', ''var'', ''micius'', ''data'', ''chunks'']"
  "cf_index_path example_config = [''/'', ''var'', ''micius'', ''data'', ''index.bin'']"
  "cf_num_shards example_config = 1" "cf_compaction_size_ratio example_config = F64 0x3FF8000000000000"
  "cf_wal_max_segment_bytes example_config = 0x4000000" "channel_ok (cf_wal_channel_capacity example_config)"
proof -
  have n: "env_usize one_shard ''MICIUS_NUM_SHARDS'' 16 = 1"
    by (simp add: env_usize_def parse_u64_def digit_value_def)
  have capacity: "env_usize one_shard ''MICIUS_WAL_CHANNEL_CAPACITY'' 1024 = 1024" by (simp add: env_usize_def)
  have "load one_shard = Inr cf \<Longrightarrow>
      cf_wal_dir cf = env_path one_shard ''MICIUS_WAL_DIR'' ''/var/micius/data/wal'' \<and>
      cf_chunk_dir cf = env_path one_shard ''MICIUS_CHUNK_DIR'' ''/var/micius/data/chunks'' \<and>
      cf_index_path cf = env_path one_shard ''MICIUS_INDEX_PATH'' ''/var/micius/data/index.bin'' \<and>
      cf_num_shards cf = 1 \<and> cf_compaction_size_ratio cf = F64 0x3FF8000000000000 \<and>
      cf_wal_max_segment_bytes cf = 0x4000000 \<and> cf_wal_channel_capacity cf = 1024" for cf
    using capacity by (auto simp: load_def n Let_def ensure_def env_f64_def env_u64_def split: if_splits)
  note f = this [OF example_config_loads]
  show "cf_wal_dir example_config = [''/'', ''var'', ''micius'', ''data'', ''wal'']"
    "cf_chunk_dir example_config = [''/'', ''var'', ''micius'', ''data'', ''chunks'']"
    "cf_index_path example_config = [''/'', ''var'', ''micius'', ''data'', ''index.bin'']"
    "cf_num_shards example_config = 1" "cf_compaction_size_ratio example_config = F64 0x3FF8000000000000"
    "cf_wal_max_segment_bytes example_config = 0x4000000" "channel_ok (cf_wal_channel_capacity example_config)"
    using f by (simp_all add: env_path_def path_of_string_def channel_ok_def)
qed

lemma example_deployed: "deployed plain_crates plain_wal one_bincode example_config (sort_key fst)"
proof -
  have "foldl (@) acc parts = acc @ concat parts" for acc and parts :: "bytes list"
    by (induction parts arbitrary: acc) auto
  then have "xxh64_streaming plain_crates" by (simp add: xxh64_streaming_def plain_crates_def)
  moreover have "snapshot_apart (cf_index_path example_config)"
    by (simp add: snapshot_apart_def plain_file_def with_extension_def path_extension_def)
  moreover have "cf_chunk_dir example_config \<noteq> shard_dir (cf_wal_dir example_config) i" for i
    by (simp add: shard_dir_def join_def)
  ultimately show ?thesis
    using example_config_loads plain_crates_lossless plain_wal_lossless one_bincode_lossless
    unfolding deployed_def by (auto simp: sorts_by_shard_def)
qed

abbreviation example_dir :: path where
  "example_dir \<equiv> shard_dir (cf_wal_dir example_config) 0"

definition example_env :: "string list \<Rightarrow> open_env" where
  "example_env names =
     \<lparr>oe_load = LoadOk, oe_read = all_read, oe_names = (\<lambda>_. names), oe_now = (\<lambda>_. 8), oe_write = (\<lambda>_. CreateOk),
      oe_open = (\<lambda>_. SegmentOk), oe_rotate = (\<lambda>_. True), oe_removed = (\<lambda>_. True)\<rparr>"

definition run_zero :: run where
  "run_zero =
     (case server_open plain_crates plain_wal one_bincode example_config (example_env []) (\<lambda>_. None) of
        (files, Opened sv) \<Rightarrow> \<lparr>rn_server = sv, rn_files = files, rn_logs = [[]]\<rparr>)"

lemma example_ratio: "f64_le F64_ONE (F64 0x3FF8000000000000)"
  by (simp add: F64_ONE_def f64_le_def f64_is_nan_def f64_key_def)

lemma run_zero_opens:
  "server_open plain_crates plain_wal one_bincode example_config (example_env []) (\<lambda>_. None) =
     (rn_files run_zero, Opened (rn_server run_zero))"
  "rn_files run_zero = [segment_path example_dir 1 \<mapsto> []]" "rn_logs run_zero = [[]]"
  "sv_wals (rn_server run_zero) = [\<lparr>wt_writer = fresh_writer example_dir 0x4000000, wt_last_seq = 0\<rparr>]"
  "sv_memtables (rn_server run_zero) = [mt_new (cf_memtable_flush_threshold_bytes example_config)]"
proof -
  let ?files = "[segment_path example_dir 1 \<mapsto> []]"
  have w: "open_writer example_config (example_env []) 0 rr_init wm (\<lambda>_. None) =
      (?files, Inr \<lparr>wt_writer = fresh_writer example_dir 0x4000000, wt_last_seq = 0\<rparr>)" for wm
    using open_writer_fresh [of "\<lambda>_. None" example_config 0 "example_env []" wm]
    by (simp add: example_env_def fs_open_append_def new_task_def) (simp add: fresh_writer_def)
  have "open_shard plain_crates plain_wal example_config (example_env []) 0 ci_new (\<lambda>_. None) =
      (?files, Inr (ci_new, \<lparr>wt_writer = fresh_writer example_dir 0x4000000, wt_last_seq = 0\<rparr>))"
    using open_shard_none [of "example_env []" 0 example_config plain_crates plain_wal ci_new "\<lambda>_. None"] w
    by (simp add: example_env_def)
  then have sh: "open_shards plain_crates plain_wal example_config (example_env []) [0] ci_new [] (\<lambda>_. None) =
      (?files, Inr (ci_new, [\<lparr>wt_writer = fresh_writer example_dir 0x4000000, wt_last_seq = 0\<rparr>]))"
    by simp
  note opened = server_open_def [of plain_crates plain_wal one_bincode example_config "example_env []" "\<lambda>_. None"]
  show "server_open plain_crates plain_wal one_bincode example_config (example_env []) (\<lambda>_. None) =
      (rn_files run_zero, Opened (rn_server run_zero))"
    "rn_files run_zero = ?files" "rn_logs run_zero = [[]]"
    "sv_wals (rn_server run_zero) = [\<lparr>wt_writer = fresh_writer example_dir 0x4000000, wt_last_seq = 0\<rparr>]"
    "sv_memtables (rn_server run_zero) = [mt_new (cf_memtable_flush_threshold_bytes example_config)]"
    using sh example_ratio by (simp_all add: run_zero_def opened load_index_def compaction_worker_new_def Let_def)
qed

lemma run_zero_starts: "run_start plain_crates plain_wal one_bincode example_config (sort_key fst) run_zero"
  unfolding run_start_def
proof (intro conjI exI)
  show "server_open plain_crates plain_wal one_bincode example_config (example_env []) (\<lambda>_. None) =
      (rn_files run_zero, Opened (rn_server run_zero))" by (rule run_zero_opens(1))
qed (simp_all add: example_deployed run_zero_opens(3) example_env_def)

abbreviation example_key :: series_key where
  "example_key \<equiv> SeriesKey ''m'' []"

lemma one_key_data:
  assumes "sm_inv data" "data \<noteq> []" "fst ` data_points data \<subseteq> {k}"
  obtains ps where "data = [(k, ps)]" "bt_inv ps" "ps \<noteq> []"
proof -
  have keys: "k' = k" if mem: "(k', ps) \<in> set data" for k' ps
  proof -
    obtain v where "(k', fst (hd ps), v) \<in> data_points data" using data_key_point [OF assms(1) mem] by blast
    from fst_mem [OF this] assms(3) show ?thesis by blast
  qed
  obtain k0 ps rest where data: "data = (k0, ps) # rest" using assms(2) by (metis neq_Nil_conv surj_pair)
  have "rest = []"
  proof (rule ccontr)
    assume "rest \<noteq> []"
    then obtain k1 ps1 rest1 where "rest = (k1, ps1) # rest1" by (metis neq_Nil_conv surj_pair)
    with data keys [of k0 ps] keys [of k1 ps1] assms(1) show False by (simp add: sm_inv_def)
  qed
  with that data keys [of k0 ps] assms(1) show thesis by (simp add: sm_inv_def)
qed

lemma two_point_list:
  fixes a b :: "i64 \<times> f64"
  assumes "bt_inv ps" "ps \<noteq> []" "set ps \<subseteq> {a, b}"
  shows "ps = [a] \<or> ps = [b] \<or> ps = [a, b] \<or> ps = [b, a]"
proof -
  have d: "distinct ps" using assms(1) by (simp add: bt_inv_def strict_sorted_iff distinct_map)
  then have "length ps \<le> 2"
    using card_mono [OF _ assms(3)] card_insert_le_m1 [of 2 "{b}" a] by (simp add: distinct_card)
  then consider x where "ps = [x]" | x y where "ps = [x, y]"
    using assms(2) by (cases ps rule: remdups_adj.cases) (auto simp: neq_Nil_conv)
  then show ?thesis using d assms(3) by cases auto
qed

lemma example_chunk_fits:
  assumes "bt_inv ps" "ps \<noteq> []" "set ps \<subseteq> {(I64 6, F64 0), (I64 7, F64 0)}"
  shows "chunk_fits plain_crates cid [(example_key, ps)]"
  using two_point_list [OF assms]
  by (elim disjE) (simp_all add: chunk_fits_def live_def enc_fits_def enc_def encode_series_def file_of_eq
      covered_of_def body_of_def length_header_to_bytes encoded_of_def length_bloom_bytes
      column_bytes_def dir_size_def plain_crates_def to_bytes_def)

lemma example_logs_clean: "clean_logs plain_crates [[(1, [example_point 6]), (2, [example_point 7])]]"
proof -
  let ?logs = "[[(1, [example_point 6]), (2, [example_point 7])]] :: wal_log list"
  have acked: "acked_points ?logs = {(example_key, I64 6, F64 0), (example_key, I64 7, F64 0)}"
    by (auto simp: acked_points_def log_points_def point_set_def lessThan_Suc)
  have "no_rewrites ?logs" by (auto simp: no_rewrites_def)
  moreover have "chunk_fits plain_crates cid data"
    if data: "sm_inv data" "data \<noteq> []" "data_points data \<subseteq> acked_points ?logs" for cid data
  proof -
    have "fst ` data_points data \<subseteq> {example_key}" using data(3) unfolding acked by auto
    then obtain ps where ps: "data = [(example_key, ps)]" "bt_inv ps" "ps \<noteq> []" by (rule one_key_data [OF data(1,2)])
    have "set ps \<subseteq> {(I64 6, F64 0), (I64 7, F64 0)}"
    proof
      fix x
      assume "x \<in> set ps"
      then have "sm_get data example_key (fst x) = Some (snd x)"
        using sm_get_mem [OF data(1), of example_key "fst x" "snd x"] ps(1) by simp
      then have "(example_key, fst x, snd x) \<in> data_points data" by (simp add: data_points_def case_prod_unfold)
      with data(3) show "x \<in> {(I64 6, F64 0), (I64 7, F64 0)}" unfolding acked by (cases x) auto
    qed
    with example_chunk_fits ps show ?thesis by simp
  qed
  ultimately show ?thesis
    unfolding clean_logs_def acked
    by (simp add: key_type_ok_def key_unambiguous_def str_ok_def as_bytes_def byte_of_char_def utf8_ascii_def)
qed

lemma example_group:
  "shard_groups plain_crates (sort_key fst) 1 [example_point 6] = [(0, [example_point 6])]"
  by (simp add: shard_groups_def indexed_points_def shard_index_def)

definition run_one :: run where
  "run_one =
     (case server_append plain_crates plain_wal (sort_key fst) (\<lambda>_. env_ok) example_request (rn_server run_zero) (rn_files run_zero) of
        (sv, files, r) \<Rightarrow> \<lparr>rn_server = sv, rn_files = files, rn_logs = [[(1, [example_point 6])]]\<rparr>)"

lemma run_one_appends:
  "server_append plain_crates plain_wal (sort_key fst) (\<lambda>_. env_ok) example_request (rn_server run_zero) (rn_files run_zero) =
     (rn_server run_one, rn_files run_one, Inr (sv_append_seq (rn_server run_zero) + 1))"
  "rn_files run_one = [segment_path example_dir 1 \<mapsto> encode_frame plain_wal 1 [example_point 6]]"
  "sv_wals (rn_server run_one) =
     [\<lparr>wt_writer = (fresh_writer example_dir 0x4000000)\<lparr>ww_current_seq := 1, ww_current_size := 38\<rparr>, wt_last_seq = 1\<rparr>]"
  "rn_logs run_one = [[(1, [example_point 6])]]"
proof -
  let ?t = "\<lparr>wt_writer = fresh_writer example_dir 0x4000000, wt_last_seq = 0\<rparr>"
  let ?t' = "\<lparr>wt_writer = (fresh_writer example_dir 0x4000000)\<lparr>ww_current_seq := 1, ww_current_size := 38\<rparr>, wt_last_seq = 1\<rparr>"
  let ?files = "[segment_path example_dir 1 \<mapsto> encode_frame plain_wal 1 [example_point 6]]"
  have "encode_frame plain_wal 1 [example_point 6] \<noteq> []"
    using length_example_frame [of 1 6] by (metis length_0_conv zero_neq_numeral)
  then have "wal_append plain_wal env_ok [example_point 6] ?t [segment_path example_dir 1 \<mapsto> []] = (?t', ?files, Inr 1)"
    by (auto simp: wal_append_def run_simps length_example_frame fresh_writer_def)
  then have "append_wal plain_crates plain_wal (sort_key fst) (\<lambda>_. env_ok) example_request (rn_server run_zero) (rn_files run_zero) =
      ((rn_server run_zero)\<lparr>sv_wals := [?t']\<rparr>, ?files, Inr [(0, [example_point 6])])"
    using example_group by (simp add: append_wal_def run_zero_opens(2,4,5) decode_point_def Let_def)
  then show "server_append plain_crates plain_wal (sort_key fst) (\<lambda>_. env_ok) example_request (rn_server run_zero) (rn_files run_zero) =
      (rn_server run_one, rn_files run_one, Inr (sv_append_seq (rn_server run_zero) + 1))"
    "rn_files run_one = ?files" "sv_wals (rn_server run_one) = [?t']" "rn_logs run_one = [[(1, [example_point 6])]]"
    by (simp_all add: run_one_def server_append_def append_insert_def Let_def)
qed

lemma run_one_steps:
  "run_step plain_crates plain_wal one_bincode (sort_key fst) run_zero run_one"
proof -
  have g: "[(0, [example_point 6])] = shard_groups plain_crates (sort_key fst)
      (word_of_nat (length (sv_memtables (rn_server run_zero)))) (map decode_point example_request)"
    using example_group by (simp add: run_zero_opens(5) decode_point_def)
  have "run_one = \<lparr>rn_server = rn_server run_one, rn_files = rn_files run_one, rn_logs = rn_logs run_one\<rparr>" by simp
  also have "run_step plain_crates plain_wal one_bincode (sort_key fst) run_zero \<dots>"
  proof (rule run_append [OF g _ _ _ run_one_appends(1)])
    show "\<forall>s ps. (s, ps) \<in> set [(0, [example_point 6])] \<longrightarrow>
        batch_ok plain_wal [Append ps 0] (wt_writer (sv_wals (rn_server run_zero) ! s))"
      by (simp add: run_zero_opens(4) fresh_writer_def example_batch_ok)
    show "rn_logs run_one = logged (sv_wals (rn_server run_zero)) [(0, [example_point 6])] (rn_logs run_zero)"
      by (simp add: run_one_appends(4) logged_def run_zero_opens(3,4))
  qed (simp add: env_good_def)
  finally show ?thesis .
qed

lemma run_one_clean: "clean_logs plain_crates (rn_logs run_one)"
  by (rule clean_logs_mono [OF example_logs_clean]) (simp_all add: run_one_appends(4))

abbreviation example_query :: query_request where
  "example_query \<equiv>
     \<lparr>qr_metric_name = ''m'', qr_tag_filters = [], qr_time_start_ns = None, qr_time_end_ns = None\<rparr>"

lemma example_wants: "wants example_query example_key (I64 6)"
  by (simp add: wants_def wants_series_def query_start_def query_end_def I64_MAX_def I64_MIN_def less_eq_i64_def i64_int_def)

lemma example_answered:
  assumes "(example_key, I64 6, F64 0) \<in> pts"
  shows "\<lparr>rs_series_id = 1, rs_timestamp_ns = I64 6, rs_value = F64 0\<rparr> \<in> answer plain_crates example_query pts"
proof -
  have "series_id plain_crates example_key = 1" by (simp add: series_id_def plain_crates_def to_bytes_def)
  with assms example_wants show ?thesis unfolding answer_def by force
qed

lemma example_acked: "(example_key, I64 6, F64 0) \<in> acked_points (rn_logs run_one)"
  by (simp add: acked_points_def log_points_def point_set_def run_one_appends(4) lessThan_Suc)

theorem acknowledged_points_readable_witness:
  "\<exists>accepted. \<lparr>rs_series_id = 1, rs_timestamp_ns = I64 6, rs_value = F64 0\<rparr> \<in>
     set (server_query plain_crates example_query accepted (rn_server run_one) (rn_files run_one))"
proof -
  obtain responses where "\<forall>accepted. server_query plain_crates example_query accepted (rn_server run_one) (rn_files run_one) =
      take accepted responses" "set responses = answer plain_crates example_query (acked_points (rn_logs run_one))"
    using acknowledged_points_readable [OF run_zero_starts
        r_into_rtranclp [of "run_step plain_crates plain_wal one_bincode (sort_key fst)", OF run_one_steps] run_one_clean, of example_query]
    by (auto simp: hm_inv_def)
  with example_answered [OF example_acked] show ?thesis by (intro exI [of _ "length responses"]) simp
qed

text \<open>Three bytes of a second entry reach the disk before the process stops.\<close>

abbreviation torn_files :: fs where
  "torn_files \<equiv> [segment_path example_dir 1 \<mapsto>
     encode_frame plain_wal 1 [example_point 6] @ take 3 (encode_frame plain_wal 2 [example_point 7])]"

theorem server_crash_recovery_witness:
  "\<exists>sv files accepted.
     server_open plain_crates plain_wal one_bincode example_config (example_env [segment_name 1]) torn_files = (files, Opened sv) \<and>
     \<lparr>rs_series_id = 1, rs_timestamp_ns = I64 6, rs_value = F64 0\<rparr> \<in>
       set (server_query plain_crates example_query accepted sv files)"
proof -
  let ?msgs = "\<lambda>_. [Append [example_point 7] 0]"
  have torn: "crashed plain_wal example_config ?msgs run_one torn_files"
    unfolding crashed_def
  proof (intro conjI allI impI)
    fix j
    assume "j < unat (cf_num_shards example_config)"
    then have j: "j = 0" by simp
    show "batch_ok plain_wal (?msgs j) (shard_writer run_one j)"
      by (simp add: j run_one_appends(3) fresh_writer_def example_batch_ok)
    show "\<exists>m. torn_files (ww_file (shard_writer run_one j)) =
        map_option (\<lambda>bs. bs @ take m (b_frames (gather plain_wal (?msgs j) (ww_current_seq (shard_writer run_one j)))))
          (rn_files run_one (ww_file (shard_writer run_one j)))"
      by (rule exI [of _ 3]) (simp add: j run_one_appends(2,3) fresh_writer_def log_bytes_def)
  qed (simp add: run_one_appends(2,3) fresh_writer_def)
  have clean: "clean_logs plain_crates
      (map (\<lambda>j. rn_logs run_one ! j @ inflight run_one ?msgs j) [0..<length (rn_logs run_one)])"
    using example_logs_clean by (simp add: run_one_appends(3,4) inflight_def fresh_writer_def)
  have good: "open_good example_config (example_env [segment_name 1]) torn_files"
    using example_ratio chunk_path_not_segment [of "cf_chunk_dir example_config" _ example_dir]
    by (auto simp: open_good_def example_env_def lists_dir_def segment_path_def lessThan_Suc)
  obtain k sv files where o:
    "server_open plain_crates plain_wal one_bincode example_config (example_env [segment_name 1]) torn_files = (files, Opened sv)"
    "acked_points (rn_logs run_one) \<subseteq> acked_points (extended run_one ?msgs k)"
    "\<forall>req. hm_inv (qr_tag_filters req) \<longrightarrow>
      (\<exists>responses. (\<forall>accepted. server_query plain_crates req accepted sv files = take accepted responses) \<and>
         set responses = answer plain_crates req (acked_points (extended run_one ?msgs k)))"
    using server_crash_recovery [OF run_zero_starts
        r_into_rtranclp [of "run_step plain_crates plain_wal one_bincode (sort_key fst)", OF run_one_steps] torn clean good]
    by blast
  have "hm_inv (qr_tag_filters example_query)" by (simp add: hm_inv_def)
  with o(3) obtain responses where
    "\<forall>accepted. server_query plain_crates example_query accepted sv files = take accepted responses"
    "set responses = answer plain_crates example_query (acked_points (extended run_one ?msgs k))" by blast
  with example_answered [OF subsetD [OF o(2) example_acked]] o(1) show ?thesis
    by (intro exI [of _ sv] exI [of _ files] exI [of _ "length responses"]) simp
qed


lemma server_open_small_ratio:
  "\<not> f64_le F64_ONE (cf_compaction_size_ratio cf) \<Longrightarrow> server_open c wc bc cf env files \<noteq> (files', Opened sv)"
  by (auto simp: server_open_def compaction_worker_new_def Let_def split: if_splits sum.splits prod.splits)

lemma server_open_bad_capacity:
  assumes "\<not> channel_ok (cf_wal_channel_capacity cf)" "0 < cf_num_shards cf"
  shows "server_open c wc bc cf env files \<noteq> (files', Opened sv)"
proof
  assume "server_open c wc bc cf env files = (files', Opened sv)"
  then obtain loaded ix wals where
    sh: "open_shards c wc cf env [0..<unat (cf_num_shards cf)] (case loaded of None \<Rightarrow> ci_new | Some idx \<Rightarrow> idx) [] files =
      (files', Inr (ix, wals))"
    by (rule server_open_Opened) blast
  have "[0..<unat (cf_num_shards cf)] = 0 # [1..<unat (cf_num_shards cf)]"
    using assms(2) by (simp add: upt_conv_Cons word_less_nat_alt)
  with sh obtain files1 ix1 t where
    "open_shard c wc cf env 0 (case loaded of None \<Rightarrow> ci_new | Some idx \<Rightarrow> idx) files = (files1, Inr (ix1, t))"
    by (auto split: prod.splits sum.splits)
  then obtain rec wm filesA where "open_writer cf env 0 rec wm filesA = (files1, Inr t)"
    by (auto simp: open_shard_def Let_def split: prod.splits sum.splits)
  with open_writer_Inr(2) assms(1) show False by blast
qed

subsection \<open>A second crash\<close>

lemma recover_loop_segments:
  "recover_loop wc wm buf cursor res = Inr res' \<Longrightarrow> rr_segments_replayed res' = rr_segments_replayed res"
proof (induction wc wm buf cursor res arbitrary: res' rule: recover_loop.induct)
  case (1 wc wm buf cursor res)
  from 1(2) show ?case
    by (subst (asm) recover_loop.simps)
      (auto simp: Let_def replay_entry_def result_simps split: if_splits option.splits dest!: 1(1))
qed

lemma recover_single:
  assumes "recover wc rd files dir [segment_name s] wm = Inr res"
  shows "rr_segments_replayed res = 1"
  using assms recover_loop_segments [of wc wm _ 0 rr_init]
  by (auto simp: recover_def get_wal_files_def rr_init_def result_simps split: if_splits)

lemma recover_empty:
  assumes "files (segment_path dir s) = Some []"
  shows "\<exists>res. recover wc all_read files dir [segment_name s] wm = Inr res \<and> rr_points res = []"
  using assms
  by (simp add: recover_def get_wal_files_def read_file_def segment_path_def recover_loop.simps) (simp add: rr_init_def)

lemma open_writer_single:
  assumes "lists_dir files (shard_dir (cf_wal_dir cf) i) [segment_name 1]" "oe_names env i = [segment_name 1]"
    "\<forall>p. oe_removed env p" "rr_points res \<noteq> []" "rr_segments_replayed res = 1"
    "open_writer cf env i res wm files = (files', Inr t)"
  shows "lists_dir files' (shard_dir (cf_wal_dir cf) i) [segment_name 2] \<and>
    files' (segment_path (shard_dir (cf_wal_dir cf) i) 2) = Some []"
proof -
  let ?d = "shard_dir (cf_wal_dir cf) i"
  have high: "highest_segment_number [segment_name 1] = Some 1"
    using highest_segment_number_segments [of "[1]"] by simp
  have dir: "files (join ?d n) \<noteq> None \<longleftrightarrow> n = segment_name 1" for n
    using assms(1) by (auto simp: lists_dir_def)
  have none: "files (segment_path ?d 2) = None" and one: "\<exists>bs. files (segment_path ?d 1) = Some bs"
    using dir [of "segment_name 2"] dir [of "segment_name 1"] by (simp_all add: segment_path_def)
  have "files' = (fs_open_append (segment_path ?d 2) (fs_open_append (segment_path ?d 1) files))(segment_path ?d 1 := None)"
    using assms(2-6)
    by (auto simp: open_writer_def ww_open_def high ww_rotate_def drain_completed_before_def current_segment_path_def
        remove_files_def Let_def split: if_splits segment_outcome.splits)
  then show ?thesis
    using none one dir
    by (auto simp: fs_open_append_def lists_dir_def segment_path_def split: if_splits option.splits)
qed

lemma recovery_chunk_other:
  assumes "recovery_chunk c cf now io points ix files = (files', r)" "\<forall>cid. p \<noteq> chunk_path (cf_chunk_dir cf) cid"
  shows "files' p = files p"
proof (cases "points = []")
  case False
  let ?m = "fold mt_insert points (mt_new (cf_memtable_flush_threshold_bytes cf))"
  obtain files1 r1 where w: "cw_write c (cf_chunk_dir cf) now io (snd (mt_drain ?m)) files = (files1, r1)" by fastforce
  then have "files' = files1" using False assms(1) by (cases r1) (simp_all add: recovery_chunk_def)
  with cw_write_other [OF w assms(2)] show ?thesis by simp
qed (use assms(1) in \<open>simp add: recovery_chunk_def\<close>)

lemma distinct_singleton: "distinct xs \<Longrightarrow> set xs = {x} \<Longrightarrow> xs = [x]"
  by (cases xs rule: remdups_adj.cases) auto

lemma query_nothing: "server_query c req accepted sv files = []"
  if "sv_index sv = ci_new" "\<forall>m \<in> set (sv_memtables sv). mt_entries m = []"
proof -
  have "query_shard c req m = []" if "mt_entries m = []" for m
    using that by (simp add: query_shard_def mt_resolve_series_def)
  then have "query_memtables c req (sv_memtables sv) = []" using that(2) by (simp add: query_memtables_def)
  moreover have "ci_resolve_series ci_new metric fs = []" for metric fs
    by (cases fs) (simp_all add: ci_resolve_series_def ci_new_def)
  then have "query_chunks c req (query_index req ci_new) files = []"
    by (simp add: query_chunks_def query_index_def plan_chunks_def Let_def)
  ultimately show ?thesis using that(1) by (simp add: server_query_def query_prefix)
qed

text \<open>
  C9.  A second crash before the next snapshot loses acknowledged points. When a restart
  without a snapshot recovers points from the only segment of a shard, it writes them to a
  chunk that only the index in memory knows and deletes the segment at once. If the process
  stops again before the index is saved, the next restart opens normally, and no query finds
  any point.
\<close>

theorem second_crash_loses_points:
  assumes "cf_num_shards cf = 1" "snapshot_apart (cf_index_path cf)"
    "cf_chunk_dir cf \<noteq> shard_dir (cf_wal_dir cf) 0" "files (cf_index_path cf) = None"
    "lists_dir files (shard_dir (cf_wal_dir cf) 0) [segment_name 1]" "oe_names env 0 = [segment_name 1]"
    "\<forall>p. oe_removed env p" "recover wc (oe_read env) files (shard_dir (cf_wal_dir cf) 0) [segment_name 1] 0 = Inr res"
    "rr_points res \<noteq> []" "server_open c wc bc cf env files = (files1, Opened sv1)" "open_good cf env' files1"
  shows "\<exists>files2 sv2. server_open c wc bc cf env' files1 = (files2, Opened sv2) \<and>
    (\<forall>req accepted. server_query c req accepted sv2 files2 = [])"
proof -
  let ?d = "shard_dir (cf_wal_dir cf) 0"
  have wm: "watermark_at (ci_shard_watermarks ci_new) 0 = 0" by (simp add: ci_new_def watermark_at_def)
  have load: "load_index bc (oe_load env) files (cf_index_path cf) = Inr None" using assms(4) by (simp add: load_index_def)
  obtain ix t where o: "open_shard c wc cf env 0 ci_new files = (files1, Inr (ix, t))"
    using assms(10) load assms(1) by (auto simp: server_open_def Let_def split: prod.splits sum.splits option.splits if_splits)
  obtain filesA r where ch: "recovery_chunk c cf (oe_now env 0) (oe_write env 0) (rr_points res) ci_new files = (filesA, r)"
    by fastforce
  obtain t' where w: "open_writer cf env 0 res 0 filesA = (files1, Inr t')"
    using o ch assms(6,8) by (auto simp: open_shard_def wm Let_def split: sum.splits prod.splits)
  have "lists_dir filesA ?d [segment_name 1]"
    using assms(3,5) recovery_chunk_other [OF ch] by (auto simp: lists_dir_def chunk_path_def)
  from open_writer_single [OF this assms(6,7,9) recover_single [OF assms(8)] w]
  have dir: "lists_dir files1 ?d [segment_name 2]" "files1 (segment_path ?d 2) = Some []" by simp_all
  have "files1 (cf_index_path cf) = None"
    using open_writer_frame [OF w] recovery_chunk_other [OF ch] snapshot_apart_segment [OF assms(2)]
      snapshot_apart_chunk [OF assms(2)] assms(4) by (simp add: same_outside_def)
  then have load': "load_index bc (oe_load env') files1 (cf_index_path cf) = Inr None" by (simp add: load_index_def)
  have "oe_names env' 0 = [segment_name 2]"
    using dir(1) assms(1,11) by (intro distinct_singleton) (simp_all add: open_good_def lists_dir_def)
  moreover obtain res' where "recover wc (oe_read env') files1 ?d [segment_name 2] 0 = Inr res'" "rr_points res' = []"
    using recover_empty [of files1 ?d 2 wc 0, OF dir(2)] assms(11) by (auto simp: open_good_def)
  moreover obtain files2 t2 where "open_writer cf env' 0 res' 0 files1 = (files2, Inr t2)"
    using open_writer_ok [of env' 0 cf res' 0 files1] assms(1,11) by (auto simp: open_good_def)
  ultimately have "open_shard c wc cf env' 0 ci_new files1 = (files2, Inr (ci_new, t2))"
    by (simp add: open_shard_def wm recovery_chunk_def Let_def)
  moreover have "f64_le F64_ONE (cf_compaction_size_ratio cf)" using assms(11) by (simp add: open_good_def)
  ultimately obtain sv2 where sv2: "server_open c wc bc cf env' files1 = (files2, Opened sv2)" "sv_index sv2 = ci_new"
      "sv_memtables sv2 = [mt_new (cf_memtable_flush_threshold_bytes cf)]"
    using load' assms(1) by (simp add: server_open_def compaction_worker_new_def Let_def)
  have "server_query c req accepted sv2 files2 = []" for req accepted
    by (rule query_nothing) (simp_all add: sv2(2,3) mt_new_def)
  with sv2(1) show ?thesis by blast
qed

lemma example_recover:
  "\<exists>res. recover plain_wal all_read (rn_files run_one) example_dir [segment_name 1] 0 = Inr res \<and> rr_points res = [example_point 6]"
proof -
  have inv: "run_inv plain_crates plain_wal one_bincode example_config run_one"
    using run_inv_step [OF example_deployed run_inv_start [OF run_zero_starts] run_one_steps run_one_clean] .
  from run_invD(7) [OF inv, of 0] obtain gc pend where
    w: "wal_inv plain_wal (shard_wal (sv_wals (rn_server run_one) ! 0) (rn_files run_one) (rn_logs run_one ! 0) gc pend)"
      "gc \<le> sv_persisted_watermarks (rn_server run_one) ! 0"
    by (auto elim!: log_invE)
  have "sv_persisted_watermarks (rn_server run_one) ! 0 = 0"
    using run_invD(9) [OF inv] run_invD(2,4) [OF inv]
    by (simp add: snapshot_inv_def run_one_appends(2) segment_path_def join_def shard_dir_def)
  with w(2) have "gc \<le> 0" by simp
  have "lists_dir (rn_files run_one) example_dir [segment_name 1]"
    by (auto simp: run_one_appends(2) lists_dir_def segment_path_def)
  then show ?thesis
    using wal_inv_recover [OF plain_wal_lossless w(1) _ \<open>gc \<le> 0\<close>, of "[segment_name 1]"]
    by (auto simp: run_one_appends(3,4) fresh_writer_def above_def)
qed

theorem second_crash_loses_points_witness:
  "\<exists>files1 sv1 files2 sv2.
     server_open plain_crates plain_wal one_bincode example_config (example_env [segment_name 1]) (rn_files run_one) = (files1, Opened sv1) \<and>
     server_open plain_crates plain_wal one_bincode example_config ((example_env [segment_name 2])\<lparr>oe_now := \<lambda>_. 9\<rparr>) files1 =
       (files2, Opened sv2) \<and>
     (\<forall>req accepted. server_query plain_crates req accepted sv2 files2 = [])"
proof -
  let ?env = "example_env [segment_name 1]" and ?env' = "(example_env [segment_name 2])\<lparr>oe_now := \<lambda>_. 9\<rparr>"
  let ?chunk = "chunk_path (cf_chunk_dir example_config)" and ?files = "rn_files run_one"
  obtain res where rec: "recover plain_wal (oe_read ?env) ?files example_dir [segment_name 1] 0 = Inr res" "rr_points res = [example_point 6]"
    using example_recover by (auto simp: example_env_def)
  have apart: "snapshot_apart (cf_index_path example_config)" "cf_chunk_dir example_config \<noteq> example_dir"
    using example_deployed unfolding deployed_def by blast+
  have none: "?files (?chunk cid) = None" for cid
    using chunk_path_not_segment [of "cf_chunk_dir example_config" cid example_dir] by (auto simp: run_one_appends(2))
  have dir: "lists_dir ?files example_dir [segment_name 1]"
    by (auto simp: run_one_appends(2) lists_dir_def segment_path_def)
  have index: "?files (cf_index_path example_config) = None"
    by (simp add: run_one_appends(2) segment_path_def join_def shard_dir_def)
  have wm: "watermark_at (ci_shard_watermarks ci_new) 0 = 0" by (simp add: ci_new_def watermark_at_def)
  have "mt_entries (fold mt_insert [example_point 6] (mt_new (cf_memtable_flush_threshold_bytes example_config))) \<noteq> []"
    by (rule mt_inserts_not_Nil) simp
  then obtain filesA wr where cw: "cw_write plain_crates (cf_chunk_dir example_config) 8 CreateOk
      (mt_entries (fold mt_insert [example_point 6] (mt_new (cf_memtable_flush_threshold_bytes example_config)))) ?files = (filesA, Inr wr)"
    using cw_write_succeeds [where files = ?files, OF _ none] by blast
  then have ch: "recovery_chunk plain_crates example_config (oe_now ?env 0) (oe_write ?env 0) (rr_points res) ci_new ?files =
      (filesA, Inr (register_results plain_crates wr ci_new))"
    by (simp add: recovery_chunk_def rec(2) example_env_def mt_drain_def)
  have A: "filesA = ?files(?chunk (new_chunk_id 8) \<mapsto> the (filesA (?chunk (new_chunk_id 8))))"
    using cw_write_Inr(5) [OF cw] by simp
  have dirA: "lists_dir filesA example_dir [segment_name 1]"
    using dir apart(2) recovery_chunk_other [OF ch] by (auto simp: lists_dir_def chunk_path_def)
  obtain files1 t where w: "open_writer example_config ?env 0 res 0 filesA = (files1, Inr t)"
    using open_writer_ok [of ?env 0 example_config res 0 filesA] by (auto simp: example_env_def)
  have "oe_names ?env 0 = [segment_name 1]" by (simp add: example_env_def)
  with rec(1) ch w have "open_shard plain_crates plain_wal example_config ?env 0 ci_new ?files =
      (files1, Inr (register_results plain_crates wr ci_new, t))"
    unfolding open_shard_def wm Let_def by simp
  then have "\<exists>sv1. server_open plain_crates plain_wal one_bincode example_config ?env ?files = (files1, Opened sv1)"
    using index example_ratio by (simp add: server_open_def load_index_def compaction_worker_new_def Let_def)
  then obtain sv1 where sv1: "server_open plain_crates plain_wal one_bincode example_config ?env ?files = (files1, Opened sv1)"
    by blast
  have "lists_dir files1 example_dir [segment_name 2]"
    using open_writer_single [OF dirA _ _ _ recover_single [OF rec(1)] w] by (simp add: example_env_def rec(2))
  moreover have "files1 (?chunk (new_chunk_id 9)) = None"
  proof -
    have "new_chunk_id 9 \<noteq> new_chunk_id 8" by (simp add: new_chunk_id_def)
    with A none have "filesA (?chunk (new_chunk_id 9)) = None" by (metis chunk_path_inject fun_upd_other)
    with open_writer_frame [OF w] chunk_path_not_segment show ?thesis by (simp add: same_outside_def)
  qed
  ultimately have "open_good example_config ?env' files1"
    using example_ratio by (simp add: open_good_def example_env_def lessThan_Suc)
  from second_crash_loses_points [OF _ apart index dir _ _ rec(1) _ sv1 this] sv1 rec(2) show ?thesis
    by (simp add: example_env_def)
qed

end
