(* ===== verification/Spec2Isabelle.thy ===== *)
theory Spec2Isabelle
  imports Server_Recovery
begin

text \<open>
  \<^bold>\<open>Verification of the storage engine of micius.\<close>

  The program (src/storage-engine/src) is a time-series storage engine. An append routes its
  points to shards by the hash of their series, writes them to the write-ahead log (WAL) of each
  shard and then to the shard's memtable. A background sweep flushes full memtables to immutable
  chunk files and registers them in an index; compaction merges small chunks; a snapshot saves
  the index together with a watermark per shard, the WAL sequence up to which its points are in
  chunks. A query reads the memtables, plans with the index and reads the planned chunks. Opening
  loads the snapshot and replays the log above the watermarks.

  \<^bold>\<open>Conventions.\<close>  Structs are records, enums datatypes, machine integers \<open>word\<close>s; \<open>i64\<close> and
  \<open>f64\<close> are their 64 bits with the comparisons and roundings the code uses. A \<open>String\<close> is the list
  of its UTF-8 bytes. The file system is a map from paths to contents, and every call that can
  fail takes the outcome the environment gives it, including partial writes, so that each early
  return of the code is a branch of the model. A fallible operation returns \<open>error + 'a\<close>. State
  is passed explicitly. The crates the sources only call are parameters, with their documented
  behaviour as named hypotheses: \<open>lz4_lossless\<close>, \<open>bloom_sound\<close>, \<open>xxh64_streaming\<close>,
  \<open>prost_lossless\<close>, \<open>bincode_lossless\<close>; \<open>plain_crates\<close>, \<open>plain_wal\<close> and \<open>one_bincode\<close> show that they
  can hold. The standard library is modelled. Definitions that compute are used in the examples.

  \<^bold>\<open>Foundations.\<close>
  \<^item> \<open>Prelude\<close>, \<open>Machine\<close>, \<open>Sorted_Vec\<close>, \<open>Paths\<close>: results and errors, little-endian bytes, \<open>i64\<close>
    and \<open>f64\<close>, the binary search on sorted vectors, paths and files; the locale \<open>state_machine\<close>
    (initial states, steps, invariant), interpreted for the index, the log of a shard and the
    runs of the server.
  \<^item> \<open>Containers\<close>: \<open>BTreeMap\<close> and \<open>HashMap\<close> behind the locale \<open>map_adt\<close>.
  \<^item> \<open>Float_Ratio\<close>: conversion, division and parsing of \<open>f64\<close> with round-to-nearest-even, as the
    compaction ratio and the configuration use them.

  \<^bold>\<open>Components.\<close>
  \<^item> \<open>Types\<close> (types.rs): series keys and their bytes, identifiers, chunk statistics, predicates.
    Statistics never exclude a matching chunk; keys with separators in their names are ambiguous.
  \<^item> \<open>Memtable\<close> (memtable/mod.rs): insert, drain, reads, behind the locale \<open>point_store\<close>. The last
    write of a timestamp wins, and the size estimate is exact.
  \<^item> \<open>Chunk_Format\<close>, \<open>Chunk_Writer\<close>, \<open>Chunk_Reader\<close>, \<open>Chunk_Roundtrip\<close> (chunk/*.rs): the file format,
    its writer and reader. Whole files and single series read back as written, the bloom filter
    has no false negatives, and damaged files are refused.
  \<^item> \<open>Chunk_Index\<close>, \<open>Index_Persistence\<close> (index/*.rs): registration, removal, resolution of tag
    filters, pruning, snapshots. The maps of the index stay consistent, both lookups are exact, a
    snapshot loads back with the same contents, and a failed save keeps the previous one. The
    runs of the index carry the set of registered keys: what rests on the tag index assumes that
    no two of them share an identifier, and \<open>collision_hides_series\<close> shows what happens otherwise.
  \<^item> \<open>Wal_Writer\<close>, \<open>Wal_Recovery\<close>, \<open>Group_Commit\<close> (wal/*.rs): frames and segments, the replay of a
    directory, the task that commits batches. \<open>Wal_Codec\<close> is a concrete codec. \<open>Wal_Durability\<close>
    has the invariant between task, directory and acknowledged entries; \<open>Wal_Crash\<close> shows that
    recovery after a crash in the middle of a batch returns every acknowledged entry, that every
    message is answered once, and, for every reachable state, which acknowledged entries a failed
    write and a failed rotation cost.
  \<^item> \<open>Chunk_Store\<close>: index and chunk files together as an abstract database from chunks to series;
    \<open>Compaction\<close> (compaction/mod.rs): grouping by size, merging, the whole cycle. A cycle keeps
    the store consistent and loses no timestamp, whether it succeeds or fails; merging ends. The
    code releases the index lock between selection and merges; the model of a cycle does not let
    a flush in between.
  \<^item> \<open>Config\<close> (config.rs): reading the environment and creating the directories.
  \<^item> \<open>Query\<close> (server/mod.rs, \<open>query\<close>): the three stages of a query, each on the state it finds. The
    stream is exact when nothing changes; a merge between plan and read hides points.
  \<^item> \<open>Server\<close> (server/mod.rs): the state, append, query, compact, snapshot, the memtable sweep and
    \<open>open\<close>. Handlers that release a lock half-way are split there (\<open>append_wal\<close> and
    \<open>append_insert\<close>, \<open>flush_begin\<close> and \<open>flush_end\<close>), so that interleavings are sequences of these
    parts. \<open>Server_State\<close>: the shape of the state, routing, flushes, and two ways a flush loses
    sight of points.
  \<^item> \<open>Server_Run\<close>: runs of the server (\<open>run_step\<close>) with the logs of what clients were told, and the
    invariant that ties logs, memtables, chunks, index, segments and snapshot together.
    \<open>Server_Recovery\<close>: the first start establishes it; queries then return exactly the
    acknowledged points; after a crash the server opens and returns exactly these and what it
    recovered of the batches in flight; a second crash before the next snapshot loses points.

  \<^bold>\<open>Assumptions and bounds.\<close>  Runs are those in which WAL and chunk writes succeed, no operation
  runs inside a flush and no compaction runs; failures, interleavings and compaction have their
  own properties. \<open>clean_logs\<close>, a hypothesis of the theorems on runs, states what the code needs
  of its input: no timestamp of a series is written by two requests or with two values, names are
  free of the separators, identifiers do not collide, and chunks fit the widths of the format. A
  restart is assumed to read, create and open its files, with a channel capacity and a size ratio
  that do not make it panic (\<open>open_good\<close>). Sequence and segment numbers stay below
  their 64-bit range where a lemma says so (\<open>batch_ok\<close>). There is no fuel: every loop is a total
  function, and the run of the group-commit task is a function of the rounds it is given.

  \<^bold>\<open>Not modelled.\<close>  metrics.rs (counters no operation reads), lib.rs and main.rs (wiring to the
  network, listeners and signals), tracing, timers, the generated protobuf code, and panics other
  than those of \<open>open\<close>. Locks appear only through the points at which handlers release them; the memory model
  of the atomics is sequential.
\<close>

end
